theory Spec2Isabelle
  imports Main
begin

section \<open>Cards and the deck (lib/types.ts, lib/deck.ts)\<close>

text \<open>
  A shallow embedding of the poker platform's rules engine: the deck operations of
  \<^verbatim>\<open>lib/deck.ts\<close>, the hand evaluator of \<^verbatim>\<open>lib/hand-evaluator.ts\<close> and the table
  engine of \<^verbatim>\<open>lib/game-engine.ts\<close>. Chip amounts are TypeScript numbers. The model
  follows the runs in which every stack, blind and bet or raise amount is an integer and
  every sum stays below \<open>2^53\<close>, where the arithmetic of numbers is exact; there a chip
  amount is an \<open>int\<close>. An action whose amount is \<^verbatim>\<open>NaN\<close> or has a fraction is outside the
  model. Array positions are \<open>nat\<close>. A thrown
  \<^verbatim>\<open>Error\<close> is a value of type \<open>error\<close>. Descriptive strings of a hand evaluation
  (\<^verbatim>\<open>description\<close>), its \<^verbatim>\<open>cards\<close> copy and the wall-clock stamps of the game state
  are presentation only and are left out of the records.
\<close>

datatype Suit = hearts | diamonds | clubs | spades

datatype Rank = RA | R2 | R3 | R4 | R5 | R6 | R7 | R8 | R9 | RT | RJ | RQ | RK

datatype Card = Card (suit: Suit) (rank: Rank)

datatype error =
    PlayerNotFound string
  | NotPlayersTurn string
  | PlayerAlreadyFolded
  | PlayerAlreadyAllIn
  | CannotCheckFacingBet
  | NothingToCall
  | NotEnoughChipsToCall
  | CannotBetFacingBet
  | BelowMinimumBet int
  | NotEnoughChipsToBet
  | CannotRaiseNoBet
  | BelowMinimumRaise int
  | NotEnoughChipsToRaise
  | PlayerHasNoChips
  | NeedTwoPlayers
  | CannotDeal nat nat
  | CannotDealToPlayers nat nat
  | NeedFiveCards nat
  | ExpectedFiveCards nat
  | FailedToEvaluate
  | TypeError

definition createDeck :: "Card list" where
  "createDeck =
     concat (map (\<lambda>s. map (\<lambda>r. Card s r) [RA, R2, R3, R4, R5, R6, R7, R8, R9, RT, RJ, RQ, RK])
                 [hearts, diamonds, clubs, spades])"

fun rankToValue :: "Rank \<Rightarrow> bool \<Rightarrow> int" where
  "rankToValue RA aceHigh = (if aceHigh then 14 else 1)"
| "rankToValue RK aceHigh = 13"
| "rankToValue RQ aceHigh = 12"
| "rankToValue RJ aceHigh = 11"
| "rankToValue RT aceHigh = 10"
| "rankToValue R2 aceHigh = 2"
| "rankToValue R3 aceHigh = 3"
| "rankToValue R4 aceHigh = 4"
| "rankToValue R5 aceHigh = 5"
| "rankToValue R6 aceHigh = 6"
| "rankToValue R7 aceHigh = 7"
| "rankToValue R8 aceHigh = 8"
| "rankToValue R9 aceHigh = 9"

fun suitOrder :: "Suit \<Rightarrow> int" where
  "suitOrder clubs = 1"
| "suitOrder diamonds = 2"
| "suitOrder hearts = 3"
| "suitOrder spades = 4"

definition compareCards :: "Card \<Rightarrow> Card \<Rightarrow> bool \<Rightarrow> int" where
  "compareCards card1 card2 aceHigh =
     (let value1 = rankToValue (Card.rank card1) aceHigh;
          value2 = rankToValue (Card.rank card2) aceHigh
      in if value1 \<noteq> value2 then value1 - value2
         else suitOrder (suit card1) - suitOrder (suit card2))"

text \<open>
  \<^verbatim>\<open>[...cards].sort(compareCards)\<close>: the comparator is a total preorder whose ties are
  equal cards, so the sorted array is the stable insertion sort below.
\<close>

fun insertCard :: "bool \<Rightarrow> Card \<Rightarrow> Card list \<Rightarrow> Card list" where
  "insertCard aceHigh c [] = [c]"
| "insertCard aceHigh c (d # ds) =
     (if compareCards c d aceHigh \<le> 0 then c # d # ds else d # insertCard aceHigh c ds)"

definition sortCards :: "Card list \<Rightarrow> bool \<Rightarrow> Card list" where
  "sortCards cards aceHigh = foldr (insertCard aceHigh) cards []"

text \<open>
  \<^verbatim>\<open>dealCards\<close> splices the first \<open>count\<close> cards off the deck; the model returns the
  dealt cards and the remaining deck.
\<close>

definition dealCards :: "Card list \<Rightarrow> nat \<Rightarrow> error + (Card list \<times> Card list)" where
  "dealCards deck count =
     (if length deck < count then Inl (CannotDeal count (length deck))
      else Inr (take count deck, drop count deck))"

text \<open>
  \<^verbatim>\<open>dealHoleCards\<close> deals one card at a time, round by round: in round \<open>r\<close> player
  \<open>p\<close> receives the card at position \<open>r * playerCount + p\<close> of the deck.
\<close>

definition dealHoleCards :: "Card list \<Rightarrow> nat \<Rightarrow> nat \<Rightarrow> error + (Card list list \<times> Card list)" where
  "dealHoleCards deck playerCount cardsPerPlayer =
     (let totalCards = playerCount * cardsPerPlayer in
      if length deck < totalCards then Inl (CannotDealToPlayers totalCards playerCount)
      else Inr (map (\<lambda>p. map (\<lambda>r. deck ! (r * playerCount + p)) [0..<cardsPerPlayer])
                    [0..<playerCount],
                drop totalCards deck))"

section \<open>Hand evaluation (lib/hand-evaluator.ts)\<close>

datatype HandRank =
    HIGH_CARD | PAIR | TWO_PAIR | THREE_OF_A_KIND | STRAIGHT
  | FLUSH | FULL_HOUSE | FOUR_OF_A_KIND | STRAIGHT_FLUSH | ROYAL_FLUSH

text \<open>The numeric values of the \<^verbatim>\<open>HandRank\<close> enum.\<close>

fun rankNum :: "HandRank \<Rightarrow> int" where
  "rankNum HIGH_CARD = 1"
| "rankNum PAIR = 2"
| "rankNum TWO_PAIR = 3"
| "rankNum THREE_OF_A_KIND = 4"
| "rankNum STRAIGHT = 5"
| "rankNum FLUSH = 6"
| "rankNum FULL_HOUSE = 7"
| "rankNum FOUR_OF_A_KIND = 8"
| "rankNum STRAIGHT_FLUSH = 9"
| "rankNum ROYAL_FLUSH = 10"

text \<open>
  The strength scalar is a JavaScript number. Reading an array past its end gives
  \<^verbatim>\<open>undefined\<close>, which arithmetic turns into \<^verbatim>\<open>NaN\<close>; \<^verbatim>\<open>NaN\<close> absorbs every
  further operation and every comparison with it is false.
\<close>

datatype number = Num int | NaN

fun num_add :: "number \<Rightarrow> number \<Rightarrow> number" where
  "num_add (Num a) (Num b) = Num (a + b)"
| "num_add _ _ = NaN"

fun num_sub :: "number \<Rightarrow> number \<Rightarrow> number" where
  "num_sub (Num a) (Num b) = Num (a - b)"
| "num_sub _ _ = NaN"

fun num_mul :: "number \<Rightarrow> number \<Rightarrow> number" where
  "num_mul (Num a) (Num b) = Num (a * b)"
| "num_mul _ _ = NaN"

fun num_gt :: "number \<Rightarrow> number \<Rightarrow> bool" where
  "num_gt (Num a) (Num b) = (a > b)"
| "num_gt _ _ = False"

text \<open>Strict equality \<^verbatim>\<open>===\<close> on numbers: \<^verbatim>\<open>NaN\<close> equals nothing.\<close>

fun num_eq :: "number \<Rightarrow> number \<Rightarrow> bool" where
  "num_eq (Num a) (Num b) = (a = b)"
| "num_eq _ _ = False"

text \<open>\<open>xs[i]\<close> used as a number.\<close>

definition nth_num :: "int list \<Rightarrow> nat \<Rightarrow> number" where
  "nth_num xs i = (if i < length xs then Num (xs ! i) else NaN)"

record HandEvaluation =
  rank :: HandRank
  "value" :: number

definition CATEGORY_BASE :: int where
  "CATEGORY_BASE = 1000000000"

text \<open>\<^verbatim>\<open>arr.reduce((acc, v) => acc * 15 + v, 0)\<close>\<close>

definition encode :: "number list \<Rightarrow> number" where
  "encode arr = foldl (\<lambda>acc v. num_add (num_mul acc (Num 15)) v) (Num 0) arr"

definition encodeInts :: "int list \<Rightarrow> int" where
  "encodeInts arr = foldl (\<lambda>acc v. acc * 15 + v) 0 arr"

text \<open>
  \<^verbatim>\<open>getRankCounts\<close> builds an object keyed by rank. \<^verbatim>\<open>Object.keys\<close> lists the
  integer-like keys (\<open>2\<close> to \<open>9\<close>) first, in ascending order, and then the other keys
  (\<open>A\<close>, \<open>T\<close>, \<open>J\<close>, \<open>Q\<close>, \<open>K\<close>) in the order of their first insertion. The object is
  modelled as the association list of its entries in that order.
\<close>

definition firstOccurrences :: "'a list \<Rightarrow> 'a list" where
  "firstOccurrences xs = rev (remdups (rev xs))"

definition isIndexKey :: "Rank \<Rightarrow> bool" where
  "isIndexKey r = (r \<in> set [R2, R3, R4, R5, R6, R7, R8, R9])"

definition getRankCounts :: "Card list \<Rightarrow> (Rank \<times> nat) list" where
  "getRankCounts cards =
     (let rs = map Card.rank cards;
          keys = filter (\<lambda>r. r \<in> set rs) [R2, R3, R4, R5, R6, R7, R8, R9]
                 @ firstOccurrences (filter (\<lambda>r. \<not> isIndexKey r) rs)
      in map (\<lambda>r. (r, length (filter (\<lambda>x. x = r) rs))) keys)"

text \<open>\<^verbatim>\<open>rankToValue(x)\<close> where \<open>x\<close> is a key that \<^verbatim>\<open>find\<close> may not have found.\<close>

definition rankToValueU :: "Rank option \<Rightarrow> number" where
  "rankToValueU r = (case r of None \<Rightarrow> NaN | Some k \<Rightarrow> Num (rankToValue k True))"

definition isFlush :: "Card list \<Rightarrow> bool" where
  "isFlush cards = list_all (\<lambda>card. suit card = suit (hd cards)) cards"

fun consecutive :: "int list \<Rightarrow> bool" where
  "consecutive (a # b # xs) = (b = a + 1 \<and> consecutive (b # xs))"
| "consecutive _ = True"

definition lastNum :: "int list \<Rightarrow> number" where
  "lastNum xs = (if xs = [] then NaN else Num (last xs))"

definition checkStraight :: "Card list \<Rightarrow> HandEvaluation option" where
  "checkStraight cards =
     (let values = sort (map (\<lambda>card. rankToValue (Card.rank card) True) cards) in
      if consecutive values
      then Some \<lparr>rank = STRAIGHT,
                 value = num_add (Num (rankNum STRAIGHT * CATEGORY_BASE)) (lastNum values)\<rparr>
      else
        let aceLowValues =
              sort (map (\<lambda>card. if Card.rank card = RA then 1 else rankToValue (Card.rank card) True)
                        cards)
        in if aceLowValues = [1, 2, 3, 4, 5]
           then Some \<lparr>rank = STRAIGHT, value = Num (rankNum STRAIGHT * CATEGORY_BASE + 5)\<rparr>
           else None)"

definition checkRoyalFlush :: "Card list \<Rightarrow> HandEvaluation option" where
  "checkRoyalFlush cards =
     (if \<not> isFlush cards then None
      else if \<not> list_all (\<lambda>r. r \<in> set (map Card.rank cards)) [RT, RJ, RQ, RK, RA] then None
      else Some \<lparr>rank = ROYAL_FLUSH, value = Num (rankNum ROYAL_FLUSH * CATEGORY_BASE + 14)\<rparr>)"

definition checkStraightFlush :: "Card list \<Rightarrow> HandEvaluation option" where
  "checkStraightFlush cards =
     (if \<not> isFlush cards then None
      else case checkStraight cards of
             None \<Rightarrow> None
           | Some straight \<Rightarrow>
               let straightHigh = num_sub (value straight) (Num (rankNum STRAIGHT * CATEGORY_BASE))
               in Some \<lparr>rank = STRAIGHT_FLUSH,
                        value = num_add (Num (rankNum STRAIGHT_FLUSH * CATEGORY_BASE)) straightHigh\<rparr>)"

definition checkFourOfAKind :: "Card list \<Rightarrow> HandEvaluation option" where
  "checkFourOfAKind cards =
     (let rankCounts = getRankCounts cards in
      case find (\<lambda>r. map_of rankCounts r = Some 4) (map fst rankCounts) of
        None \<Rightarrow> None
      | Some quadRank \<Rightarrow>
          let kicker = find (\<lambda>r. r \<noteq> quadRank) (map fst rankCounts) in
          Some \<lparr>rank = FOUR_OF_A_KIND,
                value = num_add (Num (rankNum FOUR_OF_A_KIND * CATEGORY_BASE))
                          (encode [Num (rankToValue quadRank True), rankToValueU kicker])\<rparr>)"

definition checkFullHouse :: "Card list \<Rightarrow> HandEvaluation option" where
  "checkFullHouse cards =
     (let rankCounts = getRankCounts cards;
          tripleRank = find (\<lambda>r. map_of rankCounts r = Some 3) (map fst rankCounts);
          pairRank = find (\<lambda>r. map_of rankCounts r = Some 2) (map fst rankCounts)
      in case (tripleRank, pairRank) of
           (Some t, Some p) \<Rightarrow>
             Some \<lparr>rank = FULL_HOUSE,
                   value = num_add (Num (rankNum FULL_HOUSE * CATEGORY_BASE))
                             (encode [Num (rankToValue t True), Num (rankToValue p True)])\<rparr>
         | _ \<Rightarrow> None)"

definition checkFlush :: "Card list \<Rightarrow> HandEvaluation option" where
  "checkFlush cards =
     (if \<not> isFlush cards then None
      else if checkStraight cards \<noteq> None then None
      else
        let values = rev (sort (map (\<lambda>card. rankToValue (Card.rank card) True) cards)) in
        Some \<lparr>rank = FLUSH,
              value = num_add (Num (rankNum FLUSH * CATEGORY_BASE)) (encode (map Num values))\<rparr>)"

definition checkThreeOfAKind :: "Card list \<Rightarrow> HandEvaluation option" where
  "checkThreeOfAKind cards =
     (let rankCounts = getRankCounts cards in
      case find (\<lambda>r. map_of rankCounts r = Some 3) (map fst rankCounts) of
        None \<Rightarrow> None
      | Some tripleRank \<Rightarrow>
          let kickers = rev (sort (map (\<lambda>r. rankToValue r True)
                                    (filter (\<lambda>r. r \<noteq> tripleRank) (map fst rankCounts))))
          in Some \<lparr>rank = THREE_OF_A_KIND,
                   value = num_add (Num (rankNum THREE_OF_A_KIND * CATEGORY_BASE))
                             (encode [Num (rankToValue tripleRank True),
                                      nth_num kickers 0, nth_num kickers 1])\<rparr>)"

definition checkTwoPair :: "Card list \<Rightarrow> HandEvaluation option" where
  "checkTwoPair cards =
     (let rankCounts = getRankCounts cards;
          pairs = filter (\<lambda>r. map_of rankCounts r = Some 2) (map fst rankCounts)
      in if length pairs \<noteq> 2 then None
         else
           let pairValues = rev (sort (map (\<lambda>r. rankToValue r True) pairs));
               kicker = find (\<lambda>r. map_of rankCounts r = Some 1) (map fst rankCounts)
           in Some \<lparr>rank = TWO_PAIR,
                    value = num_add (Num (rankNum TWO_PAIR * CATEGORY_BASE))
                              (encode [nth_num pairValues 0, nth_num pairValues 1,
                                       rankToValueU kicker])\<rparr>)"

definition checkOnePair :: "Card list \<Rightarrow> HandEvaluation option" where
  "checkOnePair cards =
     (let rankCounts = getRankCounts cards in
      case find (\<lambda>r. map_of rankCounts r = Some 2) (map fst rankCounts) of
        None \<Rightarrow> None
      | Some pairRank \<Rightarrow>
          let kickers = rev (sort (map (\<lambda>r. rankToValue r True)
                                    (filter (\<lambda>r. r \<noteq> pairRank) (map fst rankCounts))))
          in Some \<lparr>rank = PAIR,
                   value = num_add (Num (rankNum PAIR * CATEGORY_BASE))
                             (encode [Num (rankToValue pairRank True),
                                      nth_num kickers 0, nth_num kickers 1, nth_num kickers 2])\<rparr>)"

definition checkHighCard :: "Card list \<Rightarrow> HandEvaluation" where
  "checkHighCard cards =
     (let values = rev (sort (map (\<lambda>card. rankToValue (Card.rank card) True) cards)) in
      \<lparr>rank = HIGH_CARD,
       value = num_add (Num (rankNum HIGH_CARD * CATEGORY_BASE)) (encode (map Num values))\<rparr>)"

text \<open>The checks run from the strongest category to the weakest; the first hit is returned.\<close>

definition firstHit :: "HandEvaluation option list \<Rightarrow> HandEvaluation \<Rightarrow> HandEvaluation" where
  "firstHit checks fallback = (case List.find (\<lambda>e. e \<noteq> None) checks of
                                 Some (Some e) \<Rightarrow> e | _ \<Rightarrow> fallback)"

definition evaluateFiveCards :: "Card list \<Rightarrow> error + HandEvaluation" where
  "evaluateFiveCards cards =
     (if length cards \<noteq> 5 then Inl (ExpectedFiveCards (length cards))
      else
        let sortedCards = sortCards cards True in
        Inr (firstHit [checkRoyalFlush sortedCards, checkStraightFlush sortedCards,
                       checkFourOfAKind sortedCards, checkFullHouse sortedCards,
                       checkFlush sortedCards, checkStraight sortedCards,
                       checkThreeOfAKind sortedCards, checkTwoPair sortedCards,
                       checkOnePair sortedCards]
                      (checkHighCard sortedCards)))"

text \<open>
  \<^verbatim>\<open>generateCombinations\<close> backtracks over start positions: all combinations that
  begin with the first element come first, then those that begin later.
\<close>

fun generateCombinations :: "'a list \<Rightarrow> nat \<Rightarrow> 'a list list" where
  "generateCombinations xs 0 = [[]]"
| "generateCombinations [] (Suc k) = []"
| "generateCombinations (x # xs) (Suc k) =
     map ((#) x) (generateCombinations xs k) @ generateCombinations xs (Suc k)"

text \<open>The loop of \<^verbatim>\<open>findBestHand\<close>: a later combination replaces the best only when
  its value is strictly greater.\<close>

fun bestHandLoop :: "HandEvaluation option \<Rightarrow> Card list list \<Rightarrow> error + HandEvaluation option" where
  "bestHandLoop bestHand [] = Inr bestHand"
| "bestHandLoop bestHand (combination # rest) =
     (case evaluateFiveCards combination of
        Inl e \<Rightarrow> Inl e
      | Inr evaluation \<Rightarrow>
          (case bestHand of
             None \<Rightarrow> bestHandLoop (Some evaluation) rest
           | Some b \<Rightarrow>
               if num_gt (value evaluation) (value b) then bestHandLoop (Some evaluation) rest
               else bestHandLoop (Some b) rest))"

definition findBestHand :: "Card list \<Rightarrow> error + HandEvaluation" where
  "findBestHand cards =
     (case bestHandLoop None (generateCombinations cards 5) of
        Inl e \<Rightarrow> Inl e
      | Inr None \<Rightarrow> Inl FailedToEvaluate
      | Inr (Some bestHand) \<Rightarrow> Inr bestHand)"

subsection \<open>The direct classifier for six and seven cards\<close>

text \<open>JavaScript truthiness of a number that may be missing: \<^verbatim>\<open>x || d\<close>.\<close>

definition orElse :: "int option \<Rightarrow> int \<Rightarrow> int" where
  "orElse x d = (case x of None \<Rightarrow> d | Some v \<Rightarrow> if v = 0 then d else v)"

definition nthOpt :: "'a list \<Rightarrow> nat \<Rightarrow> 'a option" where
  "nthOpt xs i = (if i < length xs then Some (xs ! i) else None)"

text \<open>The scan of \<^verbatim>\<open>findStraightHigh\<close> over \<^verbatim>\<open>withWheel\<close>, from index 1 on.\<close>

fun straightScan :: "int \<Rightarrow> nat \<Rightarrow> int option \<Rightarrow> int list \<Rightarrow> int option" where
  "straightScan prev run bestHigh [] = bestHigh"
| "straightScan prev run bestHigh (x # xs) =
     (if x = prev + 1
      then straightScan x (run + 1) (if run + 1 \<ge> 5 then Some x else bestHigh) xs
      else if x \<noteq> prev then straightScan x 1 bestHigh xs
      else straightScan x run bestHigh xs)"

definition findStraightHigh :: "int list \<Rightarrow> int option" where
  "findStraightHigh valuesAsc =
     (if length valuesAsc < 5 then None
      else
        let withWheel = (if 14 \<in> set valuesAsc then 1 # valuesAsc else valuesAsc) in
        straightScan (hd withWheel) 1 None (tl withWheel))"

definition bySuit :: "Card list \<Rightarrow> Suit \<Rightarrow> Card list" where
  "bySuit cards s = filter (\<lambda>c. suit c = s) cards"

definition flushSuitOf :: "Card list \<Rightarrow> Suit option" where
  "flushSuitOf cards = find (\<lambda>s. length (bySuit cards s) \<ge> 5) [hearts, diamonds, clubs, spades]"

definition uniqueValuesAsc :: "Card list \<Rightarrow> int list" where
  "uniqueValuesAsc cards = sort (remdups (map (\<lambda>c. rankToValue (Card.rank c) True) cards))"

definition rankCountOf :: "Card list \<Rightarrow> int \<Rightarrow> nat" where
  "rankCountOf cards v = length (filter (\<lambda>c. rankToValue (Card.rank c) True = v) cards)"

definition truthy :: "int option \<Rightarrow> bool" where
  "truthy x = (case x of None \<Rightarrow> False | Some v \<Rightarrow> v \<noteq> 0)"

definition evaluateSevenCards :: "Card list \<Rightarrow> HandEvaluation" where
  "evaluateSevenCards cards =
     (let uniqueValuesDesc = rev (uniqueValuesAsc cards);
          flushSuit = flushSuitOf cards;
          suitValues = (\<lambda>s. remdups (map (\<lambda>c. rankToValue (Card.rank c) True) (bySuit cards s)));
          sfHigh = (case flushSuit of None \<Rightarrow> None | Some s \<Rightarrow> findStraightHigh (sort (suitValues s)));
          quad = find (\<lambda>v. rankCountOf cards v = 4) uniqueValuesDesc;
          tripsDesc = filter (\<lambda>v. rankCountOf cards v \<ge> 3) uniqueValuesDesc;
          pairsDesc = filter (\<lambda>v. rankCountOf cards v \<ge> 2) uniqueValuesDesc;
          straightHigh = findStraightHigh (uniqueValuesAsc cards)
      in
      if truthy sfHigh then
        (let category = (if the sfHigh = 14 then ROYAL_FLUSH else STRAIGHT_FLUSH) in
         \<lparr>rank = category,
          value = Num (rankNum category * 1000000000 + encodeInts (take 1 [the sfHigh]))\<rparr>)
      else if truthy quad then
        (let kicker = orElse (find (\<lambda>v. v \<noteq> the quad) uniqueValuesDesc) 2 in
         \<lparr>rank = FOUR_OF_A_KIND,
          value = Num (rankNum FOUR_OF_A_KIND * 1000000000 + (the quad * 15 + kicker))\<rparr>)
      else if length tripsDesc \<ge> 1 \<and> length (filter (\<lambda>v. v \<noteq> hd tripsDesc) pairsDesc) \<ge> 1 then
        (let bestTrips = hd tripsDesc;
             pairCandidates = filter (\<lambda>v. v \<noteq> bestTrips) pairsDesc;
             bestPair = hd pairCandidates
         in \<lparr>rank = FULL_HOUSE,
             value = Num (rankNum FULL_HOUSE * 1000000000 + (bestTrips * 15 + bestPair))\<rparr>)
      else if length tripsDesc \<ge> 2 then
        (let bestTrips = hd tripsDesc; secondTrips = tripsDesc ! 1
         in \<lparr>rank = FULL_HOUSE,
             value = Num (rankNum FULL_HOUSE * 1000000000 + (bestTrips * 15 + secondTrips))\<rparr>)
      else if flushSuit \<noteq> None then
        (let top5 = take 5 (rev (sort (suitValues (the flushSuit)))) in
         \<lparr>rank = FLUSH, value = Num (rankNum FLUSH * 1000000000 + encodeInts top5)\<rparr>)
      else if truthy straightHigh then
        \<lparr>rank = STRAIGHT, value = Num (rankNum STRAIGHT * 1000000000 + the straightHigh)\<rparr>
      else if length tripsDesc \<ge> 1 then
        (let t = hd tripsDesc;
             kickers = take 2 (filter (\<lambda>v. v \<noteq> t) uniqueValuesDesc)
         in \<lparr>rank = THREE_OF_A_KIND,
             value = Num (rankNum THREE_OF_A_KIND * 1000000000
                          + encodeInts [t, orElse (nthOpt kickers 0) 0, orElse (nthOpt kickers 1) 0])\<rparr>)
      else if length pairsDesc \<ge> 2 then
        (let p1 = pairsDesc ! 0; p2 = pairsDesc ! 1;
             kicker = orElse (find (\<lambda>v. v \<noteq> p1 \<and> v \<noteq> p2) uniqueValuesDesc) 0
         in \<lparr>rank = TWO_PAIR,
             value = Num (rankNum TWO_PAIR * 1000000000 + encodeInts [p1, p2, kicker])\<rparr>)
      else if length pairsDesc = 1 then
        (let p = pairsDesc ! 0;
             kickers = take 3 (filter (\<lambda>v. v \<noteq> p) uniqueValuesDesc)
         in \<lparr>rank = PAIR,
             value = Num (rankNum PAIR * 1000000000
                          + encodeInts [p, orElse (nthOpt kickers 0) 0, orElse (nthOpt kickers 1) 0,
                                        orElse (nthOpt kickers 2) 0])\<rparr>)
      else
        (let highs = take 5 uniqueValuesDesc in
         \<lparr>rank = HIGH_CARD, value = Num (rankNum HIGH_CARD * 1000000000 + encodeInts highs)\<rparr>))"

definition evaluateHand :: "Card list \<Rightarrow> error + HandEvaluation" where
  "evaluateHand cards =
     (if length cards < 5 then Inl (NeedFiveCards (length cards))
      else if length cards = 5 then evaluateFiveCards cards
      else Inr (evaluateSevenCards cards))"

text \<open>
  \<^verbatim>\<open>findWinners\<close>: the indices of the hands whose value is the maximum.
  \<^verbatim>\<open>Math.max\<close> is \<^verbatim>\<open>NaN\<close> as soon as one argument is.
\<close>

fun num_max :: "number \<Rightarrow> number \<Rightarrow> number" where
  "num_max (Num a) (Num b) = Num (max a b)"
| "num_max _ _ = NaN"

definition findWinners :: "HandEvaluation list \<Rightarrow> nat list" where
  "findWinners hands =
     (case hands of
        [] \<Rightarrow> []
      | h # hs \<Rightarrow>
          let maxValue = foldl num_max (value h) (map value hs) in
          filter (\<lambda>index. num_eq (value (hands ! index)) maxValue) [0..<length hands])"

section \<open>The table engine (lib/game-engine.ts, lib/types.ts)\<close>

datatype PlayerAction = Fold | Check | Call | Bet int | Raise int | AllIn int

datatype BettingRound = PREFLOP | FLOP | TURN | RIVER | SHOWDOWN

record Player =
  pid :: string
  name :: string
  chips :: int
  holeCards :: "Card list"
  currentBet :: int
  totalBet :: int
  position :: nat
  isDealer :: bool
  isSmallBlind :: bool
  isBigBlind :: bool
  hasActed :: bool
  isFolded :: bool
  isAllIn :: bool
  isAI :: bool
  disconnected :: bool

record SidePot =
  amount :: int
  eligiblePlayers :: "string list"
  isMain :: bool

record Winner =
  playerId :: string
  amount :: int
  hand :: HandEvaluation

record Blinds =
  small :: int
  big :: int

record GameState =
  tableId :: string
  handNumber :: nat
  players :: "Player list"
  maxPlayers :: nat
  dealerPosition :: nat
  deck :: "Card list"
  communityCards :: "Card list"
  currentBettingRound :: BettingRound
  currentBet :: int
  lastRaiseSize :: int
  pot :: int
  sidePots :: "SidePot list"
  blinds :: Blinds
  activePlayerIndex :: nat
  lastAction :: "PlayerAction option"
  actionTimeoutMs :: int
  isHandComplete :: bool
  winners :: "Winner list"

text \<open>
  The engine mutates its state in place, so a call that throws leaves behind the state
  as it was at the throw. A method of the engine is a function from the state to an
  \<open>outcome\<close>: \<open>Inr\<close> the state after a normal return, \<open>Inl\<close> the error thrown together
  with the state at that moment. \<open>NoReturn\<close> stands for a loop that does not end.
  The players of the table are JavaScript objects shared by reference between the lists
  the engine builds; the model names a player by the position in \<open>players\<close>.
\<close>

datatype failure = Thrown error | NoReturn

type_synonym outcome = "(failure \<times> GameState) + GameState"

definition andThen :: "outcome \<Rightarrow> (GameState \<Rightarrow> outcome) \<Rightarrow> outcome" where
  "andThen r f = (case r of Inl e \<Rightarrow> Inl e | Inr s \<Rightarrow> f s)"

definition updatePlayer :: "nat \<Rightarrow> (Player \<Rightarrow> Player) \<Rightarrow> GameState \<Rightarrow> GameState" where
  "updatePlayer i f s = s\<lparr>players := (players s)[i := f (players s ! i)]\<rparr>"

record PlayerData =
  dataId :: string
  dataName :: string
  dataChips :: int
  dataIsAI :: bool

subsection \<open>Utility functions\<close>

definition findPlayerById :: "GameState \<Rightarrow> string \<Rightarrow> nat option" where
  "findPlayerById s ident =
     find (\<lambda>i. pid (players s ! i) = ident) [0..<length (players s)]"

definition isPlayersTurn :: "GameState \<Rightarrow> string \<Rightarrow> bool" where
  "isPlayersTurn s ident =
     (activePlayerIndex s < length (players s)
      \<and> pid (players s ! activePlayerIndex s) = ident)"

definition getCallAmount :: "GameState \<Rightarrow> Player \<Rightarrow> int" where
  "getCallAmount s player = max 0 (GameState.currentBet s - Player.currentBet player)"

definition getActivePlayers :: "GameState \<Rightarrow> nat list" where
  "getActivePlayers s = filter (\<lambda>i. \<not> disconnected (players s ! i)) [0..<length (players s)]"

definition getPlayersStillInHand :: "GameState \<Rightarrow> nat list" where
  "getPlayersStillInHand s = filter (\<lambda>i. \<not> isFolded (players s ! i)) (getActivePlayers s)"

definition playersWhoCanAct :: "GameState \<Rightarrow> nat list" where
  "playersWhoCanAct s = filter (\<lambda>i. \<not> isAllIn (players s ! i)) (getPlayersStillInHand s)"

text \<open>
  \<^verbatim>\<open>advanceToNextPlayer\<close>: the do-while loop steps to the next seat until it finds a
  player who is not folded, all-in or disconnected. It only runs when such a player
  exists, so it ends within one round of the table: the first such seat among the
  \<open>length players\<close> seats after the active one.
\<close>

definition advanceToNextPlayer :: "GameState \<Rightarrow> GameState" where
  "advanceToNextPlayer s =
     (if length (playersWhoCanAct s) = 0 then s
      else
        let n = length (players s);
            seats = map (\<lambda>k. (activePlayerIndex s + k) mod n) [1..<Suc n]
        in case find (\<lambda>j. \<not> (isFolded (players s ! j) \<or> isAllIn (players s ! j)
                                \<or> disconnected (players s ! j))) seats of
             Some j \<Rightarrow> s\<lparr>activePlayerIndex := j\<rparr>
           | None \<Rightarrow> s)"

subsection \<open>Game setup\<close>

definition setupPlayers :: "PlayerData list \<Rightarrow> GameState \<Rightarrow> GameState" where
  "setupPlayers playerData s =
     s\<lparr>players :=
          map (\<lambda>(index, d).
                 \<lparr>pid = dataId d, name = dataName d, chips = dataChips d, holeCards = [],
                  Player.currentBet = 0, totalBet = 0, position = index,
                  isDealer = (index = dealerPosition s), isSmallBlind = False,
                  isBigBlind = False, hasActed = False, isFolded = False, isAllIn = False,
                  isAI = dataIsAI d, disconnected = False\<rparr>)
              (enumerate 0 playerData),
        maxPlayers := max 6 (length playerData)\<rparr>"

definition resetHandState :: "GameState \<Rightarrow> GameState" where
  "resetHandState s =
     s\<lparr>communityCards := [],
        currentBettingRound := PREFLOP,
        GameState.currentBet := big (blinds s),
        lastRaiseSize := big (blinds s),
        pot := 0,
        sidePots := [],
        isHandComplete := False,
        winners := [],
        lastAction := None,
        players :=
          map (\<lambda>(index, player).
                 player\<lparr>position := index, holeCards := [], Player.currentBet := 0,
                         totalBet := 0, hasActed := False, isFolded := False, isAllIn := False,
                         isDealer := (index = dealerPosition s), isSmallBlind := False,
                         isBigBlind := False\<rparr>)
              (enumerate 0 (players s))\<rparr>"

text \<open>The engine's own \<^verbatim>\<open>dealHoleCards\<close>: two cards to every connected player.\<close>

definition giveHoleCards :: "nat list \<Rightarrow> Card list list \<Rightarrow> GameState \<Rightarrow> GameState" where
  "giveHoleCards activePlayers hands s =
     foldl (\<lambda>st (index, i). updatePlayer i (\<lambda>p. p\<lparr>holeCards := hands ! index\<rparr>) st)
           s (enumerate 0 activePlayers)"

definition engineDealHoleCards :: "GameState \<Rightarrow> outcome" where
  "engineDealHoleCards s =
     (let activePlayers = getActivePlayers s in
      case dealHoleCards (deck s) (length activePlayers) 2 of
        Inl e \<Rightarrow> Inl (Thrown e, s)
      | Inr (hands, rest) \<Rightarrow> Inr (giveHoleCards activePlayers hands (s\<lparr>deck := rest\<rparr>)))"

definition postBlind :: "bool \<Rightarrow> nat \<Rightarrow> GameState \<Rightarrow> GameState" where
  "postBlind isBig i s =
     (let blindAmount = min (if isBig then big (blinds s) else small (blinds s))
                            (chips (players s ! i))
      in (updatePlayer i (\<lambda>p. p\<lparr>chips := chips p - blindAmount,
                                 Player.currentBet := blindAmount,
                                 totalBet := blindAmount\<rparr>) s)
         \<lparr>pot := pot s + blindAmount\<rparr>)"

definition postBlinds :: "GameState \<Rightarrow> outcome" where
  "postBlinds s =
     (let activePlayers = getActivePlayers s in
      if length activePlayers < 2 then Inl (Thrown NeedTwoPlayers, s)
      else
        let dealerIndex = dealerPosition s;
            smallBlindIndex = (dealerIndex + 1) mod length activePlayers;
            bigBlindIndex = (dealerIndex + 2) mod length activePlayers;
            sb = activePlayers ! smallBlindIndex;
            bb = activePlayers ! bigBlindIndex;
            s1 = updatePlayer sb (\<lambda>p. p\<lparr>isSmallBlind := True\<rparr>) s;
            s2 = updatePlayer bb (\<lambda>p. p\<lparr>isBigBlind := True\<rparr>) s1;
            s3 = postBlind False sb s2;
            s4 = postBlind True bb s3;
            bigBlindAmount = Player.currentBet (players s4 ! bb);
            s5 = s4\<lparr>GameState.currentBet := bigBlindAmount, lastRaiseSize := bigBlindAmount\<rparr>;
            s6 = (if chips (players s5 ! sb) = 0
                  then updatePlayer sb (\<lambda>p. p\<lparr>isAllIn := True\<rparr>) s5 else s5);
            s7 = (if chips (players s6 ! bb) = 0
                  then updatePlayer bb (\<lambda>p. p\<lparr>isAllIn := True\<rparr>) s6 else s6)
        in Inr s7)"

text \<open>
  The \<^verbatim>\<open>while (seen < 2)\<close> loop of \<^verbatim>\<open>setFirstPlayerToAct\<close>. With a connected
  player at the table every \<open>length players\<close> steps see one, so \<open>2 * length players\<close>
  steps of fuel are enough; with none the loop does not end.
\<close>

fun bigBlindSeat :: "nat \<Rightarrow> Player list \<Rightarrow> nat \<Rightarrow> nat \<Rightarrow> nat option" where
  "bigBlindSeat 0 ps idx seen = (if seen < 2 then None else Some idx)"
| "bigBlindSeat (Suc fuel) ps idx seen =
     (if seen < 2 then
        (let idx' = (idx + 1) mod length ps
         in bigBlindSeat fuel ps idx' (if \<not> disconnected (ps ! idx') then seen + 1 else seen))
      else Some idx)"

definition setFirstPlayerToAct :: "GameState \<Rightarrow> outcome" where
  "setFirstPlayerToAct s =
     (let ps = players s;
          dealerIndex = dealerPosition s;
          activeCount = length (getActivePlayers s)
      in if activeCount = 2 then Inr (s\<lparr>activePlayerIndex := dealerIndex\<rparr>)
         else if ps = [] then Inl (Thrown TypeError, s)
         else case bigBlindSeat (2 * length ps) ps dealerIndex 0 of
                None \<Rightarrow> Inl (NoReturn, s)
              | Some idx \<Rightarrow>
                  (case find (\<lambda>j. \<not> disconnected (ps ! j) \<and> \<not> isAllIn (ps ! j) \<and> \<not> isFolded (ps ! j))
                             (map (\<lambda>step. (idx + step) mod length ps) [1..<Suc (length ps)]) of
                     Some j \<Rightarrow> Inr (s\<lparr>activePlayerIndex := j\<rparr>)
                   | None \<Rightarrow> Inr (s\<lparr>activePlayerIndex := dealerIndex\<rparr>)))"

text \<open>
  \<^verbatim>\<open>startNewHand\<close>. The deck is \<^verbatim>\<open>shuffleDeck(createDeck())\<close>, which draws from
  \<^verbatim>\<open>Math.random\<close>; the shuffled deck is a parameter of the model.
\<close>

definition startNewHand :: "Card list \<Rightarrow> GameState \<Rightarrow> outcome" where
  "startNewHand shuffled s =
     andThen (engineDealHoleCards ((resetHandState s)\<lparr>deck := shuffled\<rparr>))
       (\<lambda>s1. andThen (postBlinds s1) setFirstPlayerToAct)"

definition newEngine :: "string \<Rightarrow> PlayerData list \<Rightarrow> int \<Rightarrow> int \<Rightarrow> Card list \<Rightarrow> outcome" where
  "newEngine tid playerData smallBlind bigBlind shuffled =
     startNewHand shuffled
       (setupPlayers playerData
          \<lparr>tableId = tid, handNumber = 1, players = [], maxPlayers = 6, dealerPosition = 0,
           deck = [], communityCards = [], currentBettingRound = PREFLOP,
           currentBet = bigBlind, lastRaiseSize = bigBlind, pot = 0, sidePots = [],
           blinds = \<lparr>small = smallBlind, big = bigBlind\<rparr>, activePlayerIndex = 0,
           lastAction = None, actionTimeoutMs = 30000, isHandComplete = False,
           winners = []\<rparr>)"

subsection \<open>Validating and executing an action\<close>

definition validateAction :: "GameState \<Rightarrow> Player \<Rightarrow> PlayerAction \<Rightarrow> error option" where
  "validateAction s player action =
     (if isFolded player then Some PlayerAlreadyFolded
      else if isAllIn player then Some PlayerAlreadyAllIn
      else
        let callAmount = getCallAmount s player in
        case action of
          Fold \<Rightarrow> None
        | Check \<Rightarrow> if callAmount > 0 then Some CannotCheckFacingBet else None
        | Call \<Rightarrow>
            if callAmount = 0 then Some NothingToCall
            else if chips player < callAmount then Some NotEnoughChipsToCall
            else None
        | Bet a \<Rightarrow>
            if GameState.currentBet s > 0 then Some CannotBetFacingBet
            else if a < big (blinds s) then Some (BelowMinimumBet (big (blinds s)))
            else if chips player < a then Some NotEnoughChipsToBet
            else None
        | Raise a \<Rightarrow>
            if GameState.currentBet s = 0 then Some CannotRaiseNoBet
            else
              let minRaise = GameState.currentBet s + lastRaiseSize s in
              if a < minRaise then Some (BelowMinimumRaise minRaise)
              else if chips player < a then Some NotEnoughChipsToRaise
              else None
        | AllIn a \<Rightarrow> if chips player = 0 then Some PlayerHasNoChips else None)"

definition resetOthersHasActed :: "string \<Rightarrow> GameState \<Rightarrow> GameState" where
  "resetOthersHasActed excludePlayerId s =
     s\<lparr>players :=
          map (\<lambda>p. if pid p \<noteq> excludePlayerId \<and> \<not> isFolded p \<and> \<not> isAllIn p \<and> \<not> disconnected p
                    then p\<lparr>hasActed := False\<rparr> else p)
              (players s)\<rparr>"

definition markAllInIfBroke :: "nat \<Rightarrow> GameState \<Rightarrow> GameState" where
  "markAllInIfBroke i s =
     (if chips (players s ! i) = 0 then updatePlayer i (\<lambda>p. p\<lparr>isAllIn := True\<rparr>) s else s)"

definition executeAction :: "nat \<Rightarrow> PlayerAction \<Rightarrow> GameState \<Rightarrow> GameState" where
  "executeAction i action s =
     (let player = players s ! i in
      case action of
        Fold \<Rightarrow> updatePlayer i (\<lambda>p. p\<lparr>isFolded := True\<rparr>) s
      | Check \<Rightarrow> s
      | Call \<Rightarrow>
          let callAmount = getCallAmount s player;
              s1 = updatePlayer i (\<lambda>p. p\<lparr>chips := chips p - callAmount,
                                          Player.currentBet := GameState.currentBet s,
                                          totalBet := totalBet p + callAmount\<rparr>) s;
              s2 = s1\<lparr>pot := pot s1 + callAmount\<rparr>
          in markAllInIfBroke i s2
      | Bet a \<Rightarrow>
          let betDelta = a - Player.currentBet player;
              s1 = updatePlayer i (\<lambda>p. p\<lparr>chips := chips p - betDelta,
                                          Player.currentBet := a,
                                          totalBet := totalBet p + betDelta\<rparr>) s;
              s2 = s1\<lparr>GameState.currentBet := a, pot := pot s1 + betDelta, lastRaiseSize := a\<rparr>;
              s3 = resetOthersHasActed (pid player) s2
          in markAllInIfBroke i s3
      | Raise a \<Rightarrow>
          let raiseDelta = a - Player.currentBet player;
              previousHighest = GameState.currentBet s;
              s1 = updatePlayer i (\<lambda>p. p\<lparr>chips := chips p - raiseDelta,
                                          Player.currentBet := a,
                                          totalBet := totalBet p + raiseDelta\<rparr>) s;
              s2 = s1\<lparr>lastRaiseSize := a - previousHighest, GameState.currentBet := a,
                      pot := pot s1 + raiseDelta\<rparr>;
              s3 = resetOthersHasActed (pid player) s2
          in markAllInIfBroke i s3
      | AllIn a \<Rightarrow>
          let allInAmount = chips player;
              newTotal = Player.currentBet player + allInAmount;
              s1 = updatePlayer i (\<lambda>p. p\<lparr>chips := 0,
                                          totalBet := totalBet p + allInAmount,
                                          Player.currentBet := newTotal,
                                          isAllIn := True\<rparr>) s;
              s2 = s1\<lparr>pot := pot s1 + allInAmount\<rparr>
          in if newTotal > GameState.currentBet s2 then
               (let raiseAmount = newTotal - GameState.currentBet s2;
                    s3 = (if raiseAmount \<ge> lastRaiseSize s2
                          then s2\<lparr>lastRaiseSize := raiseAmount\<rparr> else s2);
                    s4 = s3\<lparr>GameState.currentBet := newTotal\<rparr>
                in resetOthersHasActed (pid player) s4)
             else s2)"

subsection \<open>Betting rounds\<close>

definition isBettingRoundComplete :: "GameState \<Rightarrow> bool" where
  "isBettingRoundComplete s =
     (let activePlayers = getPlayersStillInHand s in
      if length activePlayers \<le> 1 then True
      else
        let canAct = filter (\<lambda>i. \<not> isAllIn (players s ! i)) activePlayers in
        if length canAct = 0 then True
        else
          let allHaveActed = list_all (\<lambda>i. hasActed (players s ! i)) canAct;
              allBetsEqual = list_all (\<lambda>i. Player.currentBet (players s ! i) = GameState.currentBet s)
                                      canAct
          in allHaveActed \<and> allBetsEqual)"

text \<open>Burn one card, then deal \<open>n\<close> community cards (\<^verbatim>\<open>dealFlop\<close>, \<^verbatim>\<open>dealTurn\<close>,
  \<^verbatim>\<open>dealRiver\<close>).\<close>

definition burnAndDeal :: "nat \<Rightarrow> GameState \<Rightarrow> outcome" where
  "burnAndDeal n s =
     (case dealCards (deck s) 1 of
        Inl e \<Rightarrow> Inl (Thrown e, s)
      | Inr (burned, d1) \<Rightarrow>
          let s1 = s\<lparr>deck := d1\<rparr> in
          (case dealCards d1 n of
             Inl e \<Rightarrow> Inl (Thrown e, s1)
           | Inr (cs, d2) \<Rightarrow> Inr (s1\<lparr>deck := d2, communityCards := communityCards s1 @ cs\<rparr>)))"

definition dealFlop :: "GameState \<Rightarrow> outcome" where
  "dealFlop s = burnAndDeal 3 s"

definition dealTurn :: "GameState \<Rightarrow> outcome" where
  "dealTurn s = burnAndDeal 1 s"

definition dealRiver :: "GameState \<Rightarrow> outcome" where
  "dealRiver s = burnAndDeal 1 s"

definition setFirstPlayerPostFlop :: "GameState \<Rightarrow> GameState" where
  "setFirstPlayerPostFlop s =
     (let activePlayers = playersWhoCanAct s in
      if length activePlayers = 0 then s
      else
        let dealerPos = dealerPosition s;
            seats = map (\<lambda>i. (dealerPos + i) mod length (players s)) [1..<Suc (length activePlayers)]
        in case find (\<lambda>j. \<not> isFolded (players s ! j) \<and> \<not> isAllIn (players s ! j)) seats of
             Some j \<Rightarrow> s\<lparr>activePlayerIndex := j\<rparr>
           | None \<Rightarrow> s\<lparr>activePlayerIndex := dealerPos\<rparr>)"

subsection \<open>Settlement\<close>

text \<open>
  \<^verbatim>\<open>calculateSidePots\<close>: the loop over the contribution levels, carrying
  \<^verbatim>\<open>prevLevel\<close> and the side pots built so far.
\<close>

fun sidePotLoop :: "Player list \<Rightarrow> Player list \<Rightarrow> int list \<Rightarrow> int \<Rightarrow> SidePot list \<Rightarrow> SidePot list" where
  "sidePotLoop allPlayers inHand [] prevLevel pots = pots"
| "sidePotLoop allPlayers inHand (level # levels) prevLevel pots =
     (let layerSize = level - prevLevel in
      if layerSize \<le> 0 then sidePotLoop allPlayers inHand levels prevLevel pots
      else
        let contributorsCount = int (length (filter (\<lambda>c. totalBet c \<ge> level) allPlayers)) in
        if contributorsCount \<le> 1 then sidePotLoop allPlayers inHand levels level pots
        else
          let amt = layerSize * contributorsCount;
              eligibleIds = map pid (filter (\<lambda>p. totalBet p \<ge> level) inHand)
          in sidePotLoop allPlayers inHand levels level
               (if amt > 0 \<and> length eligibleIds > 0
                then pots @ [\<lparr>SidePot.amount = amt, eligiblePlayers = eligibleIds,
                              isMain = (length pots = 0)\<rparr>]
                else pots))"

definition calculateSidePots :: "nat list \<Rightarrow> GameState \<Rightarrow> outcome" where
  "calculateSidePots playersInHand s =
     (let allPlayers = players s;
          inHand = map (\<lambda>i. players s ! i) playersInHand;
          levels = sort (remdups (map totalBet allPlayers));
          pots = sidePotLoop allPlayers inHand levels 0 [];
          computedTotal = sum_list (map SidePot.amount pots);
          potDiff = pot s - computedTotal
      in if potDiff > 0 then
           (case allPlayers of
              [] \<Rightarrow> Inl (Thrown TypeError, s)
            | first # others \<Rightarrow>
                let highest = foldl (\<lambda>acc c. if totalBet c > totalBet acc then c else acc)
                                    first allPlayers;
                    topCount = length (filter (\<lambda>c. totalBet c = totalBet highest) allPlayers)
                in if topCount = 1 then
                     (let s1 = (case findPlayerById s (pid highest) of
                                  Some b \<Rightarrow> updatePlayer b (\<lambda>p. p\<lparr>chips := chips p + potDiff\<rparr>) s
                                | None \<Rightarrow> s)
                      in Inr (s1\<lparr>pot := pot s1 - potDiff, sidePots := pots\<rparr>))
                   else if length pots = 0 then
                     Inr (s\<lparr>sidePots := [\<lparr>SidePot.amount = potDiff, eligiblePlayers = map pid inHand,
                                            isMain = True\<rparr>]\<rparr>)
                   else
                     Inr (s\<lparr>sidePots :=
                              butlast pots @ [(last pots)\<lparr>SidePot.amount := SidePot.amount (last pots) + potDiff\<rparr>]\<rparr>))
         else Inr (s\<lparr>sidePots := pots\<rparr>))"

text \<open>
  The \<^verbatim>\<open>aggregate\<close> object of \<^verbatim>\<open>awardPots\<close>, keyed by player id, as the association
  list of its entries in insertion order. \<^verbatim>\<open>Object.entries\<close> lists the keys that are
  array indices (canonical decimal numerals below \<open>2^32 - 1\<close>) first, in ascending
  order, and then the other keys in insertion order.
\<close>

definition aggregateAdd :: "string \<Rightarrow> int \<Rightarrow> (string \<times> int) list \<Rightarrow> (string \<times> int) list" where
  "aggregateAdd k v agg =
     (case map_of agg k of
        None \<Rightarrow> agg @ [(k, v)]
      | Some old \<Rightarrow> map (\<lambda>(k', v'). if k' = k then (k', v' + v) else (k', v')) agg)"

definition digitValue :: "char \<Rightarrow> nat" where
  "digitValue c = of_char c - of_char (CHR ''0'')"

definition decimalValue :: "string \<Rightarrow> nat" where
  "decimalValue k = foldl (\<lambda>acc c. acc * 10 + digitValue c) 0 k"

definition isArrayIndex :: "string \<Rightarrow> bool" where
  "isArrayIndex k =
     (k \<noteq> [] \<and> list_all (\<lambda>c. c \<in> set ''0123456789'') k
      \<and> (hd k \<noteq> CHR ''0'' \<or> k = ''0'') \<and> decimalValue k < 4294967295)"

definition objectEntries :: "(string \<times> int) list \<Rightarrow> (string \<times> int) list" where
  "objectEntries obj =
     sort_key (\<lambda>(k, v). decimalValue k) (filter (\<lambda>(k, v). isArrayIndex k) obj)
     @ filter (\<lambda>(k, v). \<not> isArrayIndex k) obj"

text \<open>
  One pass of the loop of \<^verbatim>\<open>awardPots\<close>: the payouts of one side pot, as pairs of the
  winner's position in \<open>players\<close> and the amount paid. A hand evaluation is paired with
  the position of its player.
\<close>

definition potPayouts :: "Player list \<Rightarrow> (nat \<times> HandEvaluation) list \<Rightarrow> SidePot \<Rightarrow> (nat \<times> int) list" where
  "potPayouts ps handEvaluations sidePot =
     (let eligibleEvaluations =
            filter (\<lambda>(i, ev). pid (ps ! i) \<in> set (eligiblePlayers sidePot)) handEvaluations;
          winnerIndices = findWinners (map snd eligibleEvaluations)
      in if winnerIndices = [] then []
         else
           let base = SidePot.amount sidePot div int (length winnerIndices);
               remainder = SidePot.amount sidePot - base * int (length winnerIndices)
           in map (\<lambda>(idx, winnerIndex).
                     (fst (eligibleEvaluations ! winnerIndex),
                      base + (if idx = 0 then remainder else 0)))
                  (enumerate 0 winnerIndices))"

definition payWinner :: "(Player list \<times> (string \<times> int) list) \<Rightarrow> (nat \<times> int)
                           \<Rightarrow> (Player list \<times> (string \<times> int) list)" where
  "payWinner st w =
     (case (st, w) of
        ((ps, agg), (i, payout)) \<Rightarrow>
          (ps[i := (ps ! i)\<lparr>chips := chips (ps ! i) + payout\<rparr>],
           aggregateAdd (pid (ps ! i)) payout agg))"

definition awardPot :: "(nat \<times> HandEvaluation) list \<Rightarrow> (Player list \<times> (string \<times> int) list)
                          \<Rightarrow> SidePot \<Rightarrow> (Player list \<times> (string \<times> int) list)" where
  "awardPot handEvaluations st sidePot =
     foldl payWinner st (potPayouts (fst st) handEvaluations sidePot)"

fun winnerEntries :: "GameState \<Rightarrow> (string \<times> int) list \<Rightarrow> error + Winner list" where
  "winnerEntries s [] = Inr []"
| "winnerEntries s ((k, v) # rest) =
     (case findPlayerById s k of
        None \<Rightarrow> Inl TypeError
      | Some i \<Rightarrow>
          (case evaluateHand (holeCards (players s ! i) @ communityCards s) of
             Inl e \<Rightarrow> Inl e
           | Inr ev \<Rightarrow>
               (case winnerEntries s rest of
                  Inl e \<Rightarrow> Inl e
                | Inr ws \<Rightarrow> Inr (\<lparr>playerId = k, amount = v, hand = ev\<rparr> # ws))))"

definition awardPots :: "(nat \<times> HandEvaluation) list \<Rightarrow> GameState \<Rightarrow> outcome" where
  "awardPots handEvaluations s =
     (case foldl (awardPot handEvaluations) (players s, []) (sidePots s) of
        (ps, aggregate) \<Rightarrow>
          let s1 = s\<lparr>players := ps\<rparr> in
          (case winnerEntries s1 (objectEntries aggregate) of
             Inl e \<Rightarrow> Inl (Thrown e, s1)
           | Inr ws \<Rightarrow> Inr (s1\<lparr>winners := ws\<rparr>)))"

fun evaluateAll :: "GameState \<Rightarrow> nat list \<Rightarrow> error + (nat \<times> HandEvaluation) list" where
  "evaluateAll s [] = Inr []"
| "evaluateAll s (i # rest) =
     (case evaluateHand (holeCards (players s ! i) @ communityCards s) of
        Inl e \<Rightarrow> Inl e
      | Inr ev \<Rightarrow>
          (case evaluateAll s rest of
             Inl e \<Rightarrow> Inl e
           | Inr evs \<Rightarrow> Inr ((i, ev) # evs)))"

definition evaluateShowdown :: "GameState \<Rightarrow> outcome" where
  "evaluateShowdown s =
     (let playersInHand = getPlayersStillInHand s in
      case evaluateAll s playersInHand of
        Inl e \<Rightarrow> Inl (Thrown e, s)
      | Inr handEvaluations \<Rightarrow>
          let distinctContribs = remdups (map totalBet (players s)) in
          andThen
            (if length distinctContribs > 1 then calculateSidePots playersInHand s
             else Inr (s\<lparr>sidePots := [\<lparr>SidePot.amount = pot s,
                                         eligiblePlayers = map (\<lambda>i. pid (players s ! i)) playersInHand,
                                         isMain = True\<rparr>]\<rparr>))
            (awardPots handEvaluations))"

definition prepareNextHand :: "GameState \<Rightarrow> GameState" where
  "prepareNextHand s =
     (let originalPlayers = players s;
          n = length originalPlayers;
          remaining = filter (\<lambda>p. chips p > 0) originalPlayers
      in if remaining = [] then
           s\<lparr>players := remaining, dealerPosition := 0, handNumber := handNumber s + 1\<rparr>
         else
           let nextIndexOriginal = (dealerPosition s + 1) mod n;
               nextDealer = find (\<lambda>idx. chips (originalPlayers ! idx) > 0)
                              (map (\<lambda>i. (nextIndexOriginal + i) mod n) [0..<n]);
               newDealerIndex =
                 (case nextDealer of
                    None \<Rightarrow> 0
                  | Some idx \<Rightarrow>
                      let nextDealerId = pid (originalPlayers ! idx) in
                      if nextDealerId = [] then 0
                      else (case find (\<lambda>j. pid (remaining ! j) = nextDealerId) [0..<length remaining] of
                              None \<Rightarrow> 0 | Some j \<Rightarrow> j))
           in s\<lparr>players := remaining, dealerPosition := newDealerIndex,
                handNumber := handNumber s + 1\<rparr>)"

definition isHandCompleteCheck :: "GameState \<Rightarrow> bool" where
  "isHandCompleteCheck s =
     (if length (getPlayersStillInHand s) \<le> 1 then True
      else currentBettingRound s = SHOWDOWN)"

definition completeHand :: "GameState \<Rightarrow> outcome" where
  "completeHand s0 =
     (let s = s0\<lparr>isHandComplete := True\<rparr>;
          playersInHand = getPlayersStillInHand s
      in andThen
           (if length playersInHand = 1 then
              (let w = hd playersInHand;
                   s1 = updatePlayer w (\<lambda>p. p\<lparr>chips := chips p + pot s\<rparr>) s
               in Inr (s1\<lparr>winners := [\<lparr>playerId = pid (players s1 ! w), amount = pot s1,
                                         hand = \<lparr>rank = HIGH_CARD, value = Num 0\<rparr>\<rparr>]\<rparr>))
            else evaluateShowdown s)
           (\<lambda>s2. Inr (prepareNextHand s2)))"

definition advanceBettingRound :: "GameState \<Rightarrow> outcome" where
  "advanceBettingRound s0 =
     (let s = s0\<lparr>players := map (\<lambda>p. p\<lparr>hasActed := False, Player.currentBet := 0\<rparr>) (players s0)\<rparr>;
          resume = (\<lambda>st. Inr (setFirstPlayerPostFlop (st\<lparr>GameState.currentBet := 0\<rparr>)))
      in case currentBettingRound s of
           PREFLOP \<Rightarrow>
             andThen (dealFlop s) (\<lambda>s1. resume (s1\<lparr>currentBettingRound := FLOP\<rparr>))
         | FLOP \<Rightarrow>
             andThen (dealTurn s) (\<lambda>s1. resume (s1\<lparr>currentBettingRound := TURN\<rparr>))
         | TURN \<Rightarrow>
             andThen (dealRiver s) (\<lambda>s1. resume (s1\<lparr>currentBettingRound := RIVER\<rparr>))
         | RIVER \<Rightarrow> completeHand (s\<lparr>currentBettingRound := SHOWDOWN\<rparr>)
         | SHOWDOWN \<Rightarrow> resume s)"

text \<open>
  \<^verbatim>\<open>while (!isHandComplete && round !== SHOWDOWN) advanceBettingRound()\<close>. Every pass
  moves to the next street or throws, so the loop body runs at most four times;
  the model gives it that much fuel.
\<close>

fun fastForward :: "nat \<Rightarrow> GameState \<Rightarrow> outcome" where
  "fastForward 0 s =
     (if \<not> isHandComplete s \<and> currentBettingRound s \<noteq> SHOWDOWN then Inl (NoReturn, s)
      else Inr s)"
| "fastForward (Suc fuel) s =
     (if \<not> isHandComplete s \<and> currentBettingRound s \<noteq> SHOWDOWN
      then andThen (advanceBettingRound s) (fastForward fuel)
      else Inr s)"

definition runToShowdown :: "GameState \<Rightarrow> outcome" where
  "runToShowdown s =
     andThen (fastForward 4 s) (\<lambda>s1. if \<not> isHandComplete s1 then completeHand s1 else Inr s1)"

subsection \<open>Processing a player action\<close>

definition processPlayerAction :: "string \<Rightarrow> PlayerAction \<Rightarrow> GameState \<Rightarrow> outcome" where
  "processPlayerAction ident action s =
     (case findPlayerById s ident of
        None \<Rightarrow> Inl (Thrown (PlayerNotFound ident), s)
      | Some i \<Rightarrow>
          if \<not> isPlayersTurn s ident then Inl (Thrown (NotPlayersTurn (name (players s ! i))), s)
          else
            (case validateAction s (players s ! i) action of
               Some e \<Rightarrow> Inl (Thrown e, s)
             | None \<Rightarrow>
                 let s1 = executeAction i action s;
                     s2 = s1\<lparr>lastAction := Some action\<rparr>;
                     s3 = updatePlayer i (\<lambda>p. p\<lparr>hasActed := True\<rparr>) s2
                 in if isHandCompleteCheck s3 then completeHand s3
                    else if length (playersWhoCanAct s3) = 0 then runToShowdown s3
                    else if isBettingRoundComplete s3 then advanceBettingRound s3
                    else Inr (advanceToNextPlayer s3)))"

subsection \<open>Public queries\<close>

definition ensureProgressIfStalled :: "GameState \<Rightarrow> outcome" where
  "ensureProgressIfStalled s =
     (if isHandComplete s then Inr s
      else
        let eligibleCount = length (playersWhoCanAct s) in
        if eligibleCount = 0 then runToShowdown s
        else
          let stuck = (case nthOpt (players s) (activePlayerIndex s) of
                         None \<Rightarrow> True
                       | Some current \<Rightarrow> isFolded current \<or> isAllIn current \<or> disconnected current);
              s1 = (if stuck then advanceToNextPlayer s else s)
          in if isBettingRoundComplete s1 then advanceBettingRound s1 else Inr s1)"

text \<open>
  \<^verbatim>\<open>getGameState\<close> returns a copy of the state; the result pairs the copy returned
  with the engine's state after the call.
\<close>

definition getGameState :: "GameState \<Rightarrow> (failure \<times> GameState) + (GameState \<times> GameState)" where
  "getGameState s =
     (case ensureProgressIfStalled s of
        Inl e \<Rightarrow> Inl e
      | Inr s1 \<Rightarrow> Inr (s1, s1))"

definition getCurrentPlayer :: "GameState \<Rightarrow> (failure \<times> GameState) + (Player option \<times> GameState)" where
  "getCurrentPlayer s =
     (case ensureProgressIfStalled s of
        Inl e \<Rightarrow> Inl e
      | Inr s1 \<Rightarrow> Inr (nthOpt (players s1) (activePlayerIndex s1), s1))"

definition canPlayerAct :: "GameState \<Rightarrow> string \<Rightarrow> bool" where
  "canPlayerAct s ident =
     (case findPlayerById s ident of
        None \<Rightarrow> False
      | Some i \<Rightarrow> isPlayersTurn s ident \<and> \<not> isFolded (players s ! i) \<and> \<not> isAllIn (players s ! i))"

datatype ActionKind = KFold | KCheck | KCall | KBet | KRaise | KAllIn

definition getValidActions :: "GameState \<Rightarrow> string \<Rightarrow> ActionKind list" where
  "getValidActions s ident =
     (case findPlayerById s ident of
        None \<Rightarrow> []
      | Some i \<Rightarrow>
          if \<not> canPlayerAct s ident then []
          else
            let player = players s ! i;
                callAmount = getCallAmount s player;
                eligibleCount = length (playersWhoCanAct s)
            in [KFold]
               @ (if callAmount = 0 then [KCheck]
                  else if chips player \<ge> callAmount then [KCall] else [])
               @ (if eligibleCount > 1 then
                    (if GameState.currentBet s = 0 then
                       (if chips player + Player.currentBet player \<ge> big (blinds s) then [KBet] else [])
                     else
                       (let minRaiseTotal = GameState.currentBet s
                                            + max (lastRaiseSize s) (big (blinds s))
                        in if chips player + Player.currentBet player \<ge> minRaiseTotal
                           then [KRaise] else []))
                  else [])
               @ (if chips player > 0 then [KAllIn] else []))"

section \<open>Rejections and example tables\<close>

text \<open>
  The errors with which \<^verbatim>\<open>processPlayerAction\<close> rejects a player's input: an unknown
  player, a player out of turn, a player who has folded or is all-in, and an action that
  is illegal in the betting context. The other errors report an inconsistent engine.
\<close>

definition isRejection :: "error \<Rightarrow> bool" where
  "isRejection e =
     (case e of
        PlayerNotFound x \<Rightarrow> True
      | NotPlayersTurn x \<Rightarrow> True
      | PlayerAlreadyFolded \<Rightarrow> True
      | PlayerAlreadyAllIn \<Rightarrow> True
      | CannotCheckFacingBet \<Rightarrow> True
      | NothingToCall \<Rightarrow> True
      | NotEnoughChipsToCall \<Rightarrow> True
      | CannotBetFacingBet \<Rightarrow> True
      | BelowMinimumBet x \<Rightarrow> True
      | NotEnoughChipsToBet \<Rightarrow> True
      | CannotRaiseNoBet \<Rightarrow> True
      | BelowMinimumRaise x \<Rightarrow> True
      | NotEnoughChipsToRaise \<Rightarrow> True
      | PlayerHasNoChips \<Rightarrow> True
      | _ \<Rightarrow> False)"

text \<open>
  Two heads-up tables with blinds 5/10, as the constructor leaves them when it is given
  the unshuffled deck: one where both players start with 100 chips, one where the dealer
  starts with 10 chips and is all-in after posting.
\<close>

definition seat :: "string \<Rightarrow> int \<Rightarrow> PlayerData" where
  "seat ident stack = \<lparr>dataId = ident, dataName = ident, dataChips = stack, dataIsAI = False\<rparr>"

definition seatedPlayer :: "string \<Rightarrow> nat \<Rightarrow> int \<Rightarrow> int \<Rightarrow> Card list \<Rightarrow> Player" where
  "seatedPlayer ident pos stack bet cards =
     \<lparr>pid = ident, name = ident, chips = stack, holeCards = cards,
      Player.currentBet = bet, totalBet = bet, position = pos, isDealer = (pos = 0),
      isSmallBlind = (pos = 1), isBigBlind = (pos = 0), hasActed = False, isFolded = False,
      isAllIn = (stack = 0), isAI = False, disconnected = False\<rparr>"

definition headsUpAfterBlinds :: "Player \<Rightarrow> Player \<Rightarrow> GameState" where
  "headsUpAfterBlinds dealer other =
     \<lparr>tableId = ''demo-table'', handNumber = 1, players = [dealer, other],
      maxPlayers = 6, dealerPosition = 0, deck = drop 4 createDeck, communityCards = [],
      currentBettingRound = PREFLOP, currentBet = 10, lastRaiseSize = 10, pot = 15,
      sidePots = [], blinds = \<lparr>small = 5, big = 10\<rparr>, activePlayerIndex = 0,
      lastAction = None, actionTimeoutMs = 30000, isHandComplete = False, winners = []\<rparr>"

definition headsUpState :: GameState where
  "headsUpState =
     headsUpAfterBlinds (seatedPlayer ''alice'' 0 90 10 [Card hearts RA, Card hearts R3])
                        (seatedPlayer ''bob'' 1 95 5 [Card hearts R2, Card hearts R4])"

definition shortStackState :: GameState where
  "shortStackState =
     headsUpAfterBlinds (seatedPlayer ''alice'' 0 0 10 [Card hearts RA, Card hearts R3])
                        (seatedPlayer ''bob'' 1 95 5 [Card hearts R2, Card hearts R4])"

section \<open>The split of a pot as the specification words it\<close>

text \<open>
  The shares of a pot of \<open>A\<close> chips among \<open>k\<close> tied winners as the specification
  describes them: everyone receives the integer quotient, and the remainder is handed
  out one chip at a time to the winners in seat order.
\<close>

definition claimedShares :: "int \<Rightarrow> nat \<Rightarrow> int list" where
  "claimedShares A k =
     map (\<lambda>i. A div int k + (if int i < A - int k * (A div int k) then 1 else 0)) [0..<k]"

text \<open>Three players tied for a pot of five chips.\<close>

definition tiedHand :: HandEvaluation where
  "tiedHand = \<lparr>rank = PAIR, value = Num 2000000000\<rparr>"

definition threeSeats :: "Player list" where
  "threeSeats = [seatedPlayer ''alice'' 0 100 0 [], seatedPlayer ''bob'' 1 100 0 [],
                 seatedPlayer ''carol'' 2 100 0 []]"

definition oddPot :: SidePot where
  "oddPot = \<lparr>SidePot.amount = 5, eligiblePlayers = [''alice'', ''bob'', ''carol''], isMain = True\<rparr>"

text \<open>
  The same three players at a showdown where nobody holds cards of their own: every hand is
  the board, so all three tie, and \<open>boardHand\<close> is the evaluation of the board.
\<close>

definition boardOnly :: GameState where
  "boardOnly =
     \<lparr>tableId = ''demo-table'', handNumber = 1, players = threeSeats, maxPlayers = 6,
      dealerPosition = 0, deck = [],
      communityCards = [Card spades RA, Card hearts RK, Card diamonds R7, Card clubs R4,
                        Card spades R2],
      currentBettingRound = SHOWDOWN, currentBet = 0, lastRaiseSize = 10, pot = 5,
      sidePots = [oddPot], blinds = \<lparr>small = 5, big = 10\<rparr>, activePlayerIndex = 0,
      lastAction = None, actionTimeoutMs = 30000, isHandComplete = False, winners = []\<rparr>"

definition boardHand :: HandEvaluation where
  "boardHand = \<lparr>rank = HIGH_CARD, value = Num 1000754262\<rparr>"

section \<open>Rank counts, strength bands and example hands\<close>

text \<open>
  The keys of the \<^verbatim>\<open>rankCounts\<close> object and the count stored under a key. An
  evaluation is in its band when its value is the category times \<^verbatim>\<open>CATEGORY_BASE\<close>
  plus a kicker code below \<^verbatim>\<open>CATEGORY_BASE\<close>.
\<close>



definition rankKeys :: "Card list \<Rightarrow> Rank list" where
  "rankKeys cards = map fst (getRankCounts cards)"

definition rankCount :: "Card list \<Rightarrow> Rank \<Rightarrow> nat" where
  "rankCount cards r = length (filter (\<lambda>x. x = r) (map Card.rank cards))"

definition inBand :: "HandEvaluation \<Rightarrow> bool" where
  "inBand e = (\<exists>k. value e = Num (rankNum (HandEvaluation.rank e) * CATEGORY_BASE + k)
                   \<and> 0 \<le> k \<and> k < CATEGORY_BASE)"

definition wheel :: "Card list" where
  "wheel = [Card spades RA, Card spades R2, Card hearts R3, Card diamonds R4, Card clubs R5]"

definition sixHighStraight :: "Card list" where
  "sixHighStraight = [Card clubs R6, Card spades R2, Card hearts R3, Card diamonds R4, Card clubs R5]"

definition tripleAces :: "Card list" where
  "tripleAces = [Card spades RA, Card hearts RA, Card clubs RA, Card diamonds RK, Card clubs RQ,
                 Card hearts R9, Card spades R7]"

section \<open>Chip accounting\<close>

text \<open>
  The chips on the table: the stacks of the players and what they have put in during the
  hand. While a hand is in progress the pot equals the sum of the contributions, every
  stack and every street bet is non-negative and no street bet exceeds the player's
  contribution to the hand; at least two connected players have not folded.
\<close>

definition totalChips :: "GameState \<Rightarrow> int" where
  "totalChips s = sum_list (map chips (players s))"

definition totalBets :: "GameState \<Rightarrow> int" where
  "totalBets s = sum_list (map totalBet (players s))"

definition stakesOk :: "Player list \<Rightarrow> bool" where
  "stakesOk ps = list_all (\<lambda>p. 0 \<le> chips p \<and> 0 \<le> Player.currentBet p
                                \<and> Player.currentBet p \<le> totalBet p) ps"

definition moneyInv :: "GameState \<Rightarrow> bool" where
  "moneyInv s = (pot s = totalBets s \<and> stakesOk (players s)
                 \<and> 0 \<le> GameState.currentBet s \<and> 0 \<le> lastRaiseSize s \<and> 0 \<le> big (blinds s))"

definition handInProgress :: "GameState \<Rightarrow> bool" where
  "handInProgress s = (\<not> isHandComplete s \<and> moneyInv s \<and> 2 \<le> length (getPlayersStillInHand s))"

text \<open>
  A run of accepted actions: every action is applied to a hand in progress and returns
  normally. \<open>None\<close> when an action is rejected or throws, or comes after the hand is
  complete. \<open>tableOk\<close> is what a table must satisfy before a hand starts: no negative
  stack and no negative blind.
\<close>

definition tableOk :: "GameState \<Rightarrow> bool" where
  "tableOk t = (list_all (\<lambda>p. 0 \<le> chips p) (players t)
                \<and> 0 \<le> small (blinds t) \<and> 0 \<le> big (blinds t))"

fun playActions :: "(string \<times> PlayerAction) list \<Rightarrow> GameState \<Rightarrow> GameState option" where
  "playActions [] s = Some s"
| "playActions ((ident, a) # rest) s =
     (if isHandComplete s then None
      else case processPlayerAction ident a s of
             Inl e \<Rightarrow> None
           | Inr s1 \<Rightarrow> playActions rest s1)"

text \<open>
  Auxiliary notions of the conservation proof: \<open>clearActed\<close> is the body of
  \<^verbatim>\<open>resetOthersHasActed\<close>; \<open>sameStakes\<close>, \<open>moneyEq\<close> and \<open>sameTable\<close> relate states that
  differ in nothing the accounting reads; \<open>quiet\<close> relates a state to a later one of the same
  hand with the same chips; \<open>newStreet\<close> is the reset at the top of
  \<^verbatim>\<open>advanceBettingRound\<close>; \<open>owed ps lvl\<close> is what the contributions hold above level
  \<open>lvl\<close>; a side pot is \<open>potOk\<close> when it is not negative and some player in the hand is
  eligible for it; \<open>settled e s\<close> says that \<open>s\<close> is a complete hand that paid out the
  contributions of \<open>e\<close>; a \<open>fresh\<close> table has been reset and not yet taken the blinds.
\<close>

definition clearActed :: "string \<Rightarrow> Player \<Rightarrow> Player" where
  "clearActed x p = (if pid p \<noteq> x \<and> \<not> isFolded p \<and> \<not> isAllIn p \<and> \<not> disconnected p
                     then p\<lparr>hasActed := False\<rparr> else p)"

definition sameStakes :: "Player list \<Rightarrow> Player list \<Rightarrow> bool" where
  "sameStakes ps qs = (map chips ps = map chips qs \<and> map totalBet ps = map totalBet qs
                         \<and> map Player.currentBet ps = map Player.currentBet qs)"

definition moneyEq :: "GameState \<Rightarrow> GameState \<Rightarrow> bool" where
  "moneyEq s t = (sameStakes (players s) (players t) \<and> pot s = pot t
                  \<and> GameState.currentBet s = GameState.currentBet t
                  \<and> lastRaiseSize s = lastRaiseSize t \<and> blinds s = blinds t)"

definition sameTable :: "GameState \<Rightarrow> GameState \<Rightarrow> bool" where
  "sameTable s t = (map chips (players t) = map chips (players s)
      \<and> map totalBet (players t) = map totalBet (players s)
      \<and> map Player.currentBet (players t) = map Player.currentBet (players s)
      \<and> map isFolded (players t) = map isFolded (players s)
      \<and> map disconnected (players t) = map disconnected (players s)
      \<and> pot t = pot s \<and> GameState.currentBet t = GameState.currentBet s
      \<and> lastRaiseSize t = lastRaiseSize s \<and> blinds t = blinds s
      \<and> isHandComplete t = isHandComplete s)"

definition quiet :: "GameState \<Rightarrow> GameState \<Rightarrow> bool" where
  "quiet s t = (isHandComplete t = isHandComplete s \<and> moneyInv t
                \<and> getPlayersStillInHand t = getPlayersStillInHand s
                \<and> totalChips t = totalChips s \<and> totalBets t = totalBets s)"

definition newStreet :: "GameState \<Rightarrow> GameState" where
  "newStreet s = s\<lparr>players := map (\<lambda>p. p\<lparr>hasActed := False, Player.currentBet := 0\<rparr>) (players s)\<rparr>"

definition owed :: "Player list \<Rightarrow> int \<Rightarrow> int" where
  "owed ps lvl = sum_list (map (\<lambda>p. max 0 (totalBet p - lvl)) ps)"

definition potOk :: "Player list \<Rightarrow> SidePot \<Rightarrow> bool" where
  "potOk inHand sp = (0 \<le> SidePot.amount sp \<and> (\<exists>p \<in> set inHand. pid p \<in> set (eligiblePlayers sp)))"

definition settled :: "GameState \<Rightarrow> GameState \<Rightarrow> bool" where
  "settled e s' = (isHandComplete s' \<and> totalChips s' = totalChips e + totalBets e)"

definition fresh :: "GameState \<Rightarrow> bool" where
  "fresh s = (moneyInv s \<and> list_all (\<lambda>p. totalBet p = 0) (players s)
              \<and> list_all (\<lambda>p. \<not> isFolded p) (players s)
              \<and> \<not> isHandComplete s \<and> 0 \<le> small (blinds s))"

text \<open>
  A three-handed table with blinds 5/10 and the unshuffled deck: carol (30 chips) has the
  button, alice (100) posts the small blind and bob (60) the big blind. Carol and alice
  move all-in; bob's all-in then closes the action and the hand runs to the showdown.
\<close>

definition threeStacks :: GameState where
  "threeStacks =
     setupPlayers [seat ''carol'' 30, seat ''alice'' 100, seat ''bob'' 60]
       \<lparr>tableId = ''demo-table'', handNumber = 1, players = [], maxPlayers = 6, dealerPosition = 0,
        deck = [], communityCards = [], currentBettingRound = PREFLOP,
        currentBet = 10, lastRaiseSize = 10, pot = 0, sidePots = [],
        blinds = \<lparr>small = 5, big = 10\<rparr>, activePlayerIndex = 0,
        lastAction = None, actionTimeoutMs = 30000, isHandComplete = False,
        winners = []\<rparr>"

definition afterBlinds :: GameState where
  "afterBlinds = projr (startNewHand createDeck threeStacks)"

definition twoAllIn :: GameState where
  "twoAllIn = the (playActions [(''carol'', AllIn 30), (''alice'', AllIn 95)] afterBlinds)"

definition afterShowdown :: GameState where
  "afterShowdown = projr (processPlayerAction ''bob'' (AllIn 50) twoAllIn)"

text \<open>
  The heads-up table with two stacks of 100 chips, checked down to the showdown: alice
  checks her big blind, bob completes the small blind, and both check the flop, the turn
  and the river. \<open>paidAgain\<close> is the state after alice checks once more on the table of
  the completed hand.
\<close>

definition checkedDown :: GameState where
  "checkedDown =
     the (playActions [(''alice'', Check), (''bob'', Call), (''bob'', Check), (''alice'', Check),
                       (''bob'', Check), (''alice'', Check), (''bob'', Check), (''alice'', Check)]
            headsUpState)"

definition paidAgain :: GameState where
  "paidAgain = projr (processPlayerAction ''alice'' Check checkedDown)"

section \<open>The direct classifier in parts\<close>

text \<open>
  Notions for comparing the direct classifier with the search over five-card subsets.
  A run ends at \<open>h\<close> in a set of card values when the set holds the five values
  \<open>h - 4, \<dots>, h\<close>; \<open>wheelSet\<close> adds the value 1 for an ace, as \<^verbatim>\<open>findStraightHigh\<close> does
  with \<^verbatim>\<open>withWheel\<close>; \<open>bestRun\<close> is the greatest end of a run and \<open>bestRunUpTo\<close> the greatest
  end of a run not above a bound.
\<close>

definition wheelSet :: "int set \<Rightarrow> int set" where
  "wheelSet S = (if 14 \<in> S then insert 1 S else S)"

definition runAt :: "int set \<Rightarrow> int \<Rightarrow> bool" where
  "runAt W h = (\<forall>k \<in> {0..4}. h - k \<in> W)"

definition bestRun :: "int set \<Rightarrow> int option" where
  "bestRun W = (if {h \<in> W. runAt W h} = {} then None else Some (Max {h \<in> W. runAt W h}))"

definition bestRunUpTo :: "int set \<Rightarrow> int \<Rightarrow> int option" where
  "bestRunUpTo W p = (if {h \<in> W. h \<le> p \<and> runAt W h} = {} then None
                      else Some (Max {h \<in> W. h \<le> p \<and> runAt W h}))"

text \<open>
  The local constants of \<^verbatim>\<open>evaluateSevenCards\<close> as functions of the cards:
  \<open>cardVal\<close> is \<^verbatim>\<open>rankToValue(card.rank, true)\<close>, \<open>valuesDesc\<close> is
  \<^verbatim>\<open>uniqueValuesDesc\<close>, \<open>suitValues\<close> the distinct values of one suit, \<open>sfHigh\<close> and
  \<open>quadOf\<close> are \<^verbatim>\<open>sfHigh\<close> and \<^verbatim>\<open>quad\<close>, \<open>cFH\<close> is the condition of the first full-house
  branch, and \<open>strength7\<close> is the strength value that \<^verbatim>\<open>evaluateSevenCards\<close> returns.
  \<open>pad K i\<close> is \<^verbatim>\<open>K[i] || 0\<close>.
\<close>

definition cardVal :: "Card \<Rightarrow> int" where
  "cardVal c = rankToValue (Card.rank c) True"

definition valuesDesc :: "Card list \<Rightarrow> int list" where
  "valuesDesc cs = rev (uniqueValuesAsc cs)"

definition tripsDesc :: "Card list \<Rightarrow> int list" where
  "tripsDesc cs = filter (\<lambda>v. rankCountOf cs v \<ge> 3) (valuesDesc cs)"

definition pairsDesc :: "Card list \<Rightarrow> int list" where
  "pairsDesc cs = filter (\<lambda>v. rankCountOf cs v \<ge> 2) (valuesDesc cs)"

definition suitValues :: "Card list \<Rightarrow> Suit \<Rightarrow> int list" where
  "suitValues cs s = remdups (map (\<lambda>c. rankToValue (Card.rank c) True) (bySuit cs s))"

definition sfHigh :: "Card list \<Rightarrow> int option" where
  "sfHigh cs = (case flushSuitOf cs of None \<Rightarrow> None
                | Some s \<Rightarrow> findStraightHigh (sort (suitValues cs s)))"

definition quadOf :: "Card list \<Rightarrow> int option" where
  "quadOf cs = find (\<lambda>v. rankCountOf cs v = 4) (valuesDesc cs)"

definition strength7 :: "Card list \<Rightarrow> int" where
  "strength7 cs = (case value (evaluateSevenCards cs) of Num v \<Rightarrow> v | NaN \<Rightarrow> 0)"

definition cFH :: "Card list \<Rightarrow> bool" where
  "cFH cs = (tripsDesc cs \<noteq> [] \<and> filter (\<lambda>v. v \<noteq> hd (tripsDesc cs)) (pairsDesc cs) \<noteq> [])"

definition pad :: "int list \<Rightarrow> nat \<Rightarrow> int" where
  "pad K i = orElse (nthOpt K i) 0"

text \<open>
  A hand is \<open>carried\<close> by at most five of its cards when every set of distinct cards
  that holds those cards is worth at least as much as the hand.
\<close>

definition carried :: "Card list \<Rightarrow> bool" where
  "carried ys = (\<exists>PC. PC \<subseteq> set ys \<and> card PC \<le> 5
       \<and> (\<forall>zs. distinct zs \<and> PC \<subseteq> set zs \<and> length zs \<le> 9 \<longrightarrow> strength7 ys \<le> strength7 zs))"


chapter \<open>Properties\<close>

section \<open>The example tables are reachable\<close>

lemma headsUpState_reachable:
  "newEngine ''demo-table'' [seat ''alice'' 100, seat ''bob'' 100] 5 10 createDeck = Inr headsUpState"
  by code_simp

lemma shortStackState_reachable:
  "newEngine ''demo-table'' [seat ''alice'' 10, seat ''bob'' 100] 5 10 createDeck = Inr shortStackState"
  by code_simp

section \<open>Rejected actions and queries\<close>

lemma andThen_Inl: "andThen r f = Inl x \<Longrightarrow> r = Inl x \<or> (\<exists>s. r = Inr s \<and> f s = Inl x)"
  by (auto simp: andThen_def split: sum.splits)

lemma dealCards_error: "dealCards d n = Inl e \<Longrightarrow> \<not> isRejection e"
  by (auto simp: dealCards_def isRejection_def split: if_splits)

lemma burnAndDeal_error: "burnAndDeal n s = Inl (Thrown e, s') \<Longrightarrow> \<not> isRejection e"
  by (auto simp: burnAndDeal_def Let_def split: sum.splits prod.splits dest: dealCards_error)

lemma evaluateFiveCards_error: "evaluateFiveCards cs = Inl e \<Longrightarrow> \<not> isRejection e"
  by (auto simp: evaluateFiveCards_def isRejection_def Let_def split: if_splits)

lemma evaluateHand_error: "evaluateHand cs = Inl e \<Longrightarrow> \<not> isRejection e"
  by (auto simp: evaluateHand_def isRejection_def split: if_splits dest: evaluateFiveCards_error)

lemma evaluateAll_error: "evaluateAll s is = Inl e \<Longrightarrow> \<not> isRejection e"
  by (induction "is") (auto split: sum.splits dest: evaluateHand_error)

lemma winnerEntries_error: "winnerEntries s kvs = Inl e \<Longrightarrow> \<not> isRejection e"
  by (induction s kvs rule: winnerEntries.induct)
     (auto simp: isRejection_def split: sum.splits option.splits dest: evaluateHand_error)

lemma awardPots_error: "awardPots hes s = Inl (Thrown e, s') \<Longrightarrow> \<not> isRejection e"
  by (auto simp: awardPots_def Let_def split: prod.splits sum.splits dest: winnerEntries_error)

lemma calculateSidePots_error: "calculateSidePots ph s = Inl (Thrown e, s') \<Longrightarrow> \<not> isRejection e"
  by (auto simp: calculateSidePots_def Let_def isRejection_def split: if_splits list.splits)

lemma evaluateShowdown_error: "evaluateShowdown s = Inl (Thrown e, s') \<Longrightarrow> \<not> isRejection e"
  by (auto simp: evaluateShowdown_def Let_def split: sum.splits if_splits
           dest!: andThen_Inl dest: evaluateAll_error awardPots_error calculateSidePots_error)

lemma completeHand_error: "completeHand s = Inl (Thrown e, s') \<Longrightarrow> \<not> isRejection e"
  by (auto simp: completeHand_def Let_def split: if_splits
           dest!: andThen_Inl dest: evaluateShowdown_error)

lemma advanceBettingRound_error: "advanceBettingRound s = Inl (Thrown e, s') \<Longrightarrow> \<not> isRejection e"
  by (auto simp: advanceBettingRound_def Let_def dealFlop_def dealTurn_def dealRiver_def
           split: BettingRound.splits
           dest!: andThen_Inl dest: burnAndDeal_error completeHand_error)

lemma fastForward_error: "fastForward fuel s = Inl (Thrown e, s') \<Longrightarrow> \<not> isRejection e"
proof (induction fuel arbitrary: s)
  case 0
  then show ?case by (auto split: if_splits)
next
  case (Suc fuel)
  from Suc.prems have "andThen (advanceBettingRound s) (fastForward fuel) = Inl (Thrown e, s')"
    by (auto split: if_splits)
  then consider "advanceBettingRound s = Inl (Thrown e, s')"
    | s1 where "fastForward fuel s1 = Inl (Thrown e, s')"
    by (auto dest!: andThen_Inl)
  then show ?case
    by cases (auto dest: advanceBettingRound_error Suc.IH)
qed

lemma runToShowdown_error: "runToShowdown s = Inl (Thrown e, s') \<Longrightarrow> \<not> isRejection e"
  by (auto simp: runToShowdown_def split: if_splits
           dest!: andThen_Inl dest: fastForward_error completeHand_error)

text \<open>
  Claim C8. Rejected actions are atomic: whenever \<^verbatim>\<open>processPlayerAction\<close> throws one
  of its rejections (unknown player, not the player's turn, player already folded or
  all-in, or an action illegal for the betting context), the game state left behind by
  the call is exactly the state before the call.
\<close>

theorem rejected_action_leaves_state:
  assumes "processPlayerAction ident action s = Inl (Thrown e, s')" and "isRejection e"
  shows "s' = s"
  using assms
  by (auto simp: processPlayerAction_def Let_def split: option.splits if_splits
           dest: completeHand_error runToShowdown_error advanceBettingRound_error)

theorem rejected_action_leaves_state_witness:
  "processPlayerAction ''bob'' Fold headsUpState = Inl (Thrown (NotPlayersTurn ''bob''), headsUpState)
   \<and> isRejection (NotPlayersTurn ''bob'')"
proof -
  have run: "processPlayerAction ''bob'' Fold headsUpState
               = Inl (Thrown (NotPlayersTurn ''bob''), headsUpState)"
    by code_simp
  have rej: "isRejection (NotPlayersTurn ''bob'')"
    by (simp add: isRejection_def)
  from rejected_action_leaves_state [OF run rej] run rej show ?thesis by simp
qed

text \<open>
  Claim C10. For a player id that matches no seated player, or that names a player who
  is folded, all-in or not the currently indexed player, \<^verbatim>\<open>canPlayerAct\<close> returns
  false and \<^verbatim>\<open>getValidActions\<close> returns the empty list; both report the ineligibility
  as a value, while \<^verbatim>\<open>processPlayerAction\<close> throws an error (and leaves the state as
  it was).
\<close>

theorem ineligible_player_queries:
  assumes "findPlayerById s ident = None
           \<or> (\<exists>i. findPlayerById s ident = Some i
                  \<and> (isFolded (players s ! i) \<or> isAllIn (players s ! i) \<or> \<not> isPlayersTurn s ident))"
  shows "canPlayerAct s ident = False \<and> getValidActions s ident = []
         \<and> (\<exists>e. processPlayerAction ident action s = Inl (Thrown e, s))"
  using assms
  by (auto simp: canPlayerAct_def getValidActions_def processPlayerAction_def validateAction_def
           split: option.splits)

theorem ineligible_player_queries_witness:
  "findPlayerById headsUpState ''carol'' = None
   \<and> canPlayerAct headsUpState ''carol'' = False \<and> getValidActions headsUpState ''carol'' = []
   \<and> (\<exists>e. processPlayerAction ''carol'' Check headsUpState = Inl (Thrown e, headsUpState))
   \<and> findPlayerById headsUpState ''bob'' = Some 1 \<and> \<not> isPlayersTurn headsUpState ''bob''
   \<and> canPlayerAct headsUpState ''bob'' = False \<and> getValidActions headsUpState ''bob'' = []
   \<and> (\<exists>e. processPlayerAction ''bob'' Check headsUpState = Inl (Thrown e, headsUpState))"
proof -
  have carol: "findPlayerById headsUpState ''carol'' = None"
    by code_simp
  have bob: "findPlayerById headsUpState ''bob'' = Some 1" "\<not> isPlayersTurn headsUpState ''bob''"
    by code_simp+
  from ineligible_player_queries [of headsUpState "''carol''" Check]
       ineligible_player_queries [of headsUpState "''bob''" Check] carol bob
  show ?thesis by simp
qed

section \<open>Raises, blinds and the state query\<close>

text \<open>
  Claim C4 (the code departs from it). On the heads-up table the dealer has 90 chips
  behind a posted bet of 10, the table bet is 10 and the last raise size is 10. A raise
  to 100 meets the three conditions of the claim (table bet positive, amount at least
  table bet plus last raise size, chips at least the amount minus the player's bet), and
  \<^verbatim>\<open>getValidActions\<close> offers a raise, yet \<^verbatim>\<open>processPlayerAction\<close> rejects it:
  \<^verbatim>\<open>validateAction\<close> compares the chips with the whole amount although
  \<^verbatim>\<open>executeAction\<close> only charges the difference.
\<close>

theorem raise_covered_by_stack_rejected:
  "processPlayerAction ''alice'' (Raise 100) headsUpState
     = Inl (Thrown NotEnoughChipsToRaise, headsUpState)
   \<and> GameState.currentBet headsUpState > 0
   \<and> 100 \<ge> GameState.currentBet headsUpState + lastRaiseSize headsUpState
   \<and> chips (players headsUpState ! 0) \<ge> 100 - Player.currentBet (players headsUpState ! 0)
   \<and> getValidActions headsUpState ''alice'' = [KFold, KCheck, KRaise, KAllIn]"
  by code_simp

text \<open>
  Claim C5 (the code departs from it). At the start of a heads-up hand \<^verbatim>\<open>postBlinds\<close>
  makes the seat after the dealer the small blind and the dealer the big blind, and
  \<^verbatim>\<open>setFirstPlayerToAct\<close> lets the dealer act first: the dealer is first to act as
  the claim says, but posts the big blind, not the small one.
\<close>

theorem heads_up_dealer_posts_big_blind:
  "newEngine ''demo-table'' [seat ''alice'' 100, seat ''bob'' 100] 5 10 createDeck = Inr headsUpState
   \<and> dealerPosition headsUpState = 0
   \<and> map isDealer (players headsUpState) = [True, False]
   \<and> map isSmallBlind (players headsUpState) = [False, True]
   \<and> map isBigBlind (players headsUpState) = [True, False]
   \<and> map Player.currentBet (players headsUpState) = [10, 5]
   \<and> activePlayerIndex headsUpState = 0"
  by code_simp

text \<open>
  Claim C1 (corrected). \<^verbatim>\<open>getGameState\<close> first runs \<^verbatim>\<open>ensureProgressIfStalled\<close>. As
  stated the claim fails: on the table where the dealer is all-in after posting the
  blind, the query moves the turn from seat 0 to seat 1.
\<close>

theorem getGameState_moves_turn:
  "activePlayerIndex shortStackState = 0
   \<and> getGameState shortStackState
       = Inr (shortStackState\<lparr>activePlayerIndex := 1\<rparr>, shortStackState\<lparr>activePlayerIndex := 1\<rparr>)"
  by code_simp

text \<open>
  Claim C1, as amended: \<^verbatim>\<open>getGameState\<close> returns the current state and leaves the
  engine's state unchanged whenever the hand is complete, or when some player can still
  act, the active player exists and is not folded, all-in or disconnected, and the
  betting round is not complete. (In the other, stalled, states the query first
  progresses the engine and returns the progressed state.)
\<close>

theorem getGameState_unchanged_unless_stalled:
  assumes "isHandComplete s
           \<or> (playersWhoCanAct s \<noteq> []
              \<and> activePlayerIndex s < length (players s)
              \<and> \<not> isFolded (players s ! activePlayerIndex s)
              \<and> \<not> isAllIn (players s ! activePlayerIndex s)
              \<and> \<not> disconnected (players s ! activePlayerIndex s)
              \<and> \<not> isBettingRoundComplete s)"
  shows "getGameState s = Inr (s, s)"
  using assms
  by (auto simp: getGameState_def ensureProgressIfStalled_def nthOpt_def Let_def)

theorem getGameState_unchanged_unless_stalled_witness:
  "playersWhoCanAct headsUpState \<noteq> []
   \<and> activePlayerIndex headsUpState < length (players headsUpState)
   \<and> \<not> isBettingRoundComplete headsUpState
   \<and> getGameState headsUpState = Inr (headsUpState, headsUpState)"
proof -
  have h: "playersWhoCanAct headsUpState \<noteq> []
              \<and> activePlayerIndex headsUpState < length (players headsUpState)
              \<and> \<not> isFolded (players headsUpState ! activePlayerIndex headsUpState)
              \<and> \<not> isAllIn (players headsUpState ! activePlayerIndex headsUpState)
              \<and> \<not> disconnected (players headsUpState ! activePlayerIndex headsUpState)
              \<and> \<not> isBettingRoundComplete headsUpState"
    by code_simp
  from getGameState_unchanged_unless_stalled [of headsUpState] h show ?thesis by blast
qed

section \<open>Winners and the split of a pot\<close>

lemma foldl_num_max_NaN: "foldl num_max NaN xs = NaN"
  by (induction xs) auto

lemma foldl_num_max_Num:
  "foldl num_max (Num a) xs = Num m \<Longrightarrow>
     a \<le> m \<and> (\<forall>x \<in> set xs. \<exists>v. x = Num v \<and> v \<le> m) \<and> (m = a \<or> Num m \<in> set xs)"
proof (induction xs arbitrary: a)
  case Nil
  then show ?case by simp
next
  case (Cons x xs)
  show ?case
  proof (cases x)
    case (Num b)
    with Cons.prems have "foldl num_max (Num (max a b)) xs = Num m" by simp
    from Cons.IH [OF this] Num show ?thesis by (auto simp: max_def split: if_splits)
  next
    case NaN
    with Cons.prems show ?thesis by (simp add: foldl_num_max_NaN)
  qed
qed

lemma foldl_num_max_all_Num:
  "\<forall>x \<in> set xs. \<exists>v. x = Num v \<Longrightarrow> \<exists>m. foldl num_max (Num a) xs = Num m"
  by (induction xs arbitrary: a) auto

lemma findWinners_eq:
  "findWinners (h # hs)
     = filter (\<lambda>i. num_eq (value ((h # hs) ! i)) (foldl num_max (value h) (map value hs)))
              [0..<length (h # hs)]"
  unfolding findWinners_def Let_def list.case ..

lemma findWinners_nonempty:
  assumes "hands \<noteq> []" and "\<forall>h \<in> set hands. \<exists>v. value h = Num v"
  shows "findWinners hands \<noteq> []"
proof -
  from assms obtain h hs where hands: "hands = h # hs" by (cases hands) auto
  from assms hands obtain a where a: "value h = Num a" by auto
  from assms hands have "\<forall>x \<in> set (map value hs). \<exists>v. x = Num v" by auto
  from foldl_num_max_all_Num [OF this] obtain m
    where m: "foldl num_max (Num a) (map value hs) = Num m" by blast
  from foldl_num_max_Num [OF m] have "m = a \<or> Num m \<in> set (map value hs)" by simp
  then have "Num m \<in> set (map value hands)" using a hands by auto
  then obtain j where j: "j < length hands" "value (hands ! j) = Num m"
    by (auto simp: in_set_conv_nth)
  then have "j \<in> set (findWinners hands)"
    using a m unfolding hands findWinners_eq by (simp del: upt_Suc)
  then show ?thesis by auto
qed

lemma findWinners_char:
  assumes "findWinners hands \<noteq> []"
  shows "j \<in> set (findWinners hands) \<longleftrightarrow>
           j < length hands \<and> (\<forall>j' < length hands. \<not> num_gt (value (hands ! j')) (value (hands ! j)))"
proof -
  from assms obtain h hs where hands: "hands = h # hs"
    by (cases hands) (auto simp: findWinners_def)
  define mx where "mx = foldl num_max (value h) (map value hs)"
  have fw: "findWinners hands = filter (\<lambda>i. num_eq (value (hands ! i)) mx) [0..<length hands]"
    unfolding hands findWinners_eq mx_def ..
  from assms fw obtain i where i: "i < length hands" "num_eq (value (hands ! i)) mx"
    by (auto simp: filter_empty_conv)
  then obtain m where m: "mx = Num m" by (cases mx) (auto elim: num_eq.elims)
  then obtain a where a: "value h = Num a"
    using mx_def by (cases "value h") (auto simp: foldl_num_max_NaN)
  from foldl_num_max_Num [of a "map value hs" m] m a mx_def
  have bound: "a \<le> m" "\<forall>x \<in> set hs. \<exists>v. value x = Num v \<and> v \<le> m"
    and attained: "m = a \<or> Num m \<in> set (map value hs)" by auto
  have all: "\<forall>j' < length hands. \<exists>v. value (hands ! j') = Num v \<and> v \<le> m"
  proof (intro allI impI)
    fix j' assume "j' < length hands"
    then have "hands ! j' \<in> set hands" by simp
    then show "\<exists>v. value (hands ! j') = Num v \<and> v \<le> m"
      using hands a bound by auto
  qed
  from attained a hands have "Num m \<in> set (map value hands)" by auto
  then obtain jm where jm: "jm < length hands" "value (hands ! jm) = Num m"
    by (auto simp: in_set_conv_nth)
  show ?thesis
  proof
    assume "j \<in> set (findWinners hands)"
    then have j: "j < length hands" "num_eq (value (hands ! j)) (Num m)"
      using fw m by auto
    then have "value (hands ! j) = Num m" by (cases "value (hands ! j)") auto
    with all j show "j < length hands \<and> (\<forall>j' < length hands. \<not> num_gt (value (hands ! j')) (value (hands ! j)))"
      by (metis linorder_not_less num_gt.simps(1))
  next
    assume r: "j < length hands \<and> (\<forall>j' < length hands. \<not> num_gt (value (hands ! j')) (value (hands ! j)))"
    from all r obtain v where v: "value (hands ! j) = Num v" "v \<le> m" by blast
    from r jm v have "\<not> m > v" by (metis num_gt.simps(1))
    with v have "value (hands ! j) = Num m" by simp
    with r show "j \<in> set (findWinners hands)" using fw m by simp
  qed
qed

lemma findWinners_sorted: "sorted (findWinners hands) \<and> distinct (findWinners hands)"
proof (cases hands)
  case Nil
  then show ?thesis by (simp add: findWinners_def)
next
  case (Cons h hs)
  show ?thesis unfolding Cons findWinners_eq
    by (simp add: sorted_wrt_filter del: upt_Suc)
qed

lemma enumerate_payout_amounts:
  "map snd (map (\<lambda>(idx, w). (f w, b + (if idx = 0 then r else 0))) (enumerate 0 (x # xs)))
     = (b + r) # replicate (length xs) (b::int)"
proof -
  have "map (\<lambda>p. b + (if fst p = 0 then r else 0)) (enumerate (Suc n) xs) = replicate (length xs) b" for n
    by (induction xs arbitrary: n) auto
  then show ?thesis by (simp add: case_prod_beta comp_def)
qed

lemma enumerate_payout_players:
  "map fst (map (\<lambda>(idx, w). (f w, g idx)) (enumerate n xs)) = map f xs"
  by (induction xs arbitrary: n) auto

lemma potPayouts_split:
  assumes elig: "elig = filter (\<lambda>(i, ev). pid (ps ! i) \<in> set (eligiblePlayers sidePot)) hes"
      and w: "w = findWinners (map snd elig)"
      and ne: "w \<noteq> []"
  shows "map snd (potPayouts ps hes sidePot)
           = (SidePot.amount sidePot div int (length w) + SidePot.amount sidePot mod int (length w))
             # replicate (length w - 1) (SidePot.amount sidePot div int (length w))"
    and "map fst (potPayouts ps hes sidePot) = map (\<lambda>j. fst (elig ! j)) w"
    and "sum_list (map snd (potPayouts ps hes sidePot)) = SidePot.amount sidePot"
proof -
  let ?elig = "filter (\<lambda>(i, ev). pid (ps ! i) \<in> set (eligiblePlayers sidePot)) hes"
  let ?w = "findWinners (map snd ?elig)"
  let ?A = "SidePot.amount sidePot"
  let ?k = "int (length ?w)"
  let ?B = "?A div ?k"
  from ne have ne': "?w \<noteq> []" unfolding w elig .
  then obtain x xs where wx: "?w = x # xs" by (cases ?w) auto
  have pp: "potPayouts ps hes sidePot =
      map (\<lambda>(idx, winnerIndex). (fst (?elig ! winnerIndex),
                                   ?B + (if idx = 0 then ?A - ?B * ?k else 0)))
          (enumerate 0 ?w)"
    unfolding potPayouts_def Let_def by (simp only: ne' if_False)
  have a: "map snd (potPayouts ps hes sidePot) = (?B + (?A - ?B * ?k)) # replicate (length xs) ?B"
    unfolding pp unfolding wx by (rule enumerate_payout_amounts)
  have len: "length ?w - 1 = length xs" using wx by simp
  have rem: "?A - ?B * ?k = ?A mod ?k"
    by (simp add: minus_div_mult_eq_mod)
  show "map snd (potPayouts ps hes sidePot)
           = (SidePot.amount sidePot div int (length w) + SidePot.amount sidePot mod int (length w))
             # replicate (length w - 1) (SidePot.amount sidePot div int (length w))"
    unfolding a rem w elig len ..
  show "map fst (potPayouts ps hes sidePot) = map (\<lambda>j. fst (elig ! j)) w"
    unfolding pp w elig by (rule enumerate_payout_players)
  have "?k = int (length xs) + 1" using wx by simp
  then have "(?B + (?A - ?B * ?k)) + int (length xs) * ?B = ?A"
    by (simp add: algebra_simps)
  then show "sum_list (map snd (potPayouts ps hes sidePot)) = SidePot.amount sidePot"
    unfolding a by (simp add: sum_list_replicate)
qed

lemma evaluateAll_seats: "evaluateAll s seats = Inr hes \<Longrightarrow> map fst hes = seats"
  by (induction seats arbitrary: hes) (auto split: sum.splits)

lemma getPlayersStillInHand_ascending: "sorted_wrt (<) (getPlayersStillInHand s)"
  unfolding getPlayersStillInHand_def getActivePlayers_def
  by (intro sorted_wrt_filter) (simp add: sorted_wrt_upt del: upt_Suc)

lemma findWinners_bound: "j \<in> set (findWinners hands) \<Longrightarrow> j < length hands"
proof (cases hands)
  case Nil
  assume "j \<in> set (findWinners hands)"
  with Nil show ?thesis by (simp add: findWinners_def)
next
  case (Cons h hs)
  assume "j \<in> set (findWinners hands)"
  then show ?thesis unfolding Cons findWinners_eq by (simp del: upt_Suc)
qed

lemma nth_ascending:
  fixes xs :: "nat list"
  assumes xs: "sorted_wrt (<) xs" and w: "sorted w" "distinct w" and b: "\<forall>j \<in> set w. j < length xs"
  shows "sorted_wrt (<) (map (\<lambda>j. xs ! j) w)"
proof -
  from w have sw: "sorted_wrt (<) w" by (simp add: strict_sorted_iff)
  have "sorted_wrt (\<lambda>a b. xs ! a < xs ! b) w"
  proof (rule sorted_wrt_mono_rel [OF _ sw])
    fix a b assume "a \<in> set w" "b \<in> set w" "a < b"
    with b have "a < b" "b < length xs" by auto
    with xs show "xs ! a < xs ! b" by (simp add: sorted_wrt_nth_less)
  qed
  then show ?thesis by (simp add: sorted_wrt_map)
qed

lemma ascending_hd_least:
  fixes xs :: "nat list"
  shows "sorted_wrt (<) xs \<Longrightarrow> x \<in> set xs \<Longrightarrow> hd xs \<le> x"
  by (cases xs) auto

text \<open>
  Claim C7, as amended: at a showdown the hands are evaluated in seat order (the order of
  \<open>players\<close>, which is the order of \<open>position\<close>). When a side pot of amount \<open>A\<close> is
  awarded to \<open>k \<ge> 1\<close> tied winners (the eligible hands that no eligible hand beats), the
  winners are paid in ascending seat order, every winner receives \<open>A div k\<close>, and the first
  of them, who has the earliest seat among the winners, additionally receives the whole
  remainder \<open>A mod k\<close>; so the amounts paid sum to \<open>A\<close>.
\<close>

theorem pot_split_remainder_to_first_winner:
  assumes ev: "evaluateAll s (getPlayersStillInHand s) = Inr hes"
      and elig: "elig = filter (\<lambda>(i, ev). pid (ps ! i) \<in> set (eligiblePlayers sidePot)) hes"
      and w: "w = findWinners (map snd elig)"
      and ne: "w \<noteq> []"
  shows "map snd (potPayouts ps hes sidePot)
           = (SidePot.amount sidePot div int (length w) + SidePot.amount sidePot mod int (length w))
             # replicate (length w - 1) (SidePot.amount sidePot div int (length w))
       \<and> map fst (potPayouts ps hes sidePot) = map (\<lambda>j. fst (elig ! j)) w
       \<and> sum_list (map snd (potPayouts ps hes sidePot)) = SidePot.amount sidePot
       \<and> sorted w \<and> distinct w
       \<and> (\<forall>j. j \<in> set w \<longleftrightarrow>
                j < length elig
                \<and> (\<forall>j' < length elig. \<not> num_gt (value (snd (elig ! j'))) (value (snd (elig ! j)))))
       \<and> sorted_wrt (<) (map fst (potPayouts ps hes sidePot))
       \<and> set (map fst (potPayouts ps hes sidePot)) \<subseteq> set (getPlayersStillInHand s)
       \<and> (\<forall>p \<in> set (potPayouts ps hes sidePot). fst (hd (potPayouts ps hes sidePot)) \<le> fst p)
       \<and> snd (hd (potPayouts ps hes sidePot))
           = SidePot.amount sidePot div int (length w) + SidePot.amount sidePot mod int (length w)"
proof -
  let ?pay = "potPayouts ps hes sidePot"
  note split = potPayouts_split [OF elig w ne]
  have char: "\<forall>j. j \<in> set w \<longleftrightarrow>
                j < length elig
                \<and> (\<forall>j' < length elig. \<not> num_gt (value (snd (elig ! j'))) (value (snd (elig ! j))))"
    using findWinners_char [of "map snd elig"] w ne by (simp cong: conj_cong)
  have sd: "sorted w" "distinct w" using findWinners_sorted [of "map snd elig"] w by simp_all
  have bound: "\<forall>j \<in> set w. j < length (map fst elig)"
    using findWinners_bound [of _ "map snd elig"] w by simp
  have seats: "map fst hes = getPlayersStillInHand s" by (rule evaluateAll_seats [OF ev])
  have "sorted_wrt (<) (map fst hes)" unfolding seats by (rule getPlayersStillInHand_ascending)
  then have "sorted_wrt (\<lambda>a b. fst a < fst b) elig"
    unfolding elig by (intro sorted_wrt_filter) (simp add: sorted_wrt_map)
  then have asc: "sorted_wrt (<) (map fst elig)" by (simp add: sorted_wrt_map)
  have "map fst ?pay = map (\<lambda>j. map fst elig ! j) w"
    unfolding split(2) using bound by simp
  also have "sorted_wrt (<) \<dots>" by (rule nth_ascending [OF asc sd bound])
  finally have order: "sorted_wrt (<) (map fst ?pay)" .
  have sub: "set (map fst ?pay) \<subseteq> set (getPlayersStillInHand s)"
  proof
    fix i assume "i \<in> set (map fst ?pay)"
    then obtain j where j: "j \<in> set w" "i = fst (elig ! j)" unfolding split(2) by auto
    with bound have "elig ! j \<in> set elig" by simp
    then have "elig ! j \<in> set hes" unfolding elig by simp
    then have "i \<in> set (map fst hes)" using j(2) by simp
    then show "i \<in> set (getPlayersStillInHand s)" unfolding seats .
  qed
  from split(1) have pne: "?pay \<noteq> []" by auto
  have first: "\<forall>p \<in> set ?pay. fst (hd ?pay) \<le> fst p"
  proof
    fix p assume "p \<in> set ?pay"
    then have "fst p \<in> set (map fst ?pay)" by simp
    from ascending_hd_least [OF order this] pne show "fst (hd ?pay) \<le> fst p"
      by (simp add: hd_map)
  qed
  have "snd (hd ?pay) = hd (map snd ?pay)" using pne by (simp add: hd_map)
  then have amount: "snd (hd ?pay)
       = SidePot.amount sidePot div int (length w) + SidePot.amount sidePot mod int (length w)"
    unfolding split(1) by simp
  from split char sd order sub first amount show ?thesis by blast
qed

text \<open>
  Claim C7 as stated fails: the code gives the whole remainder to the first winner
  (the comment in \<^verbatim>\<open>awardPots\<close> says so) instead of one chip per remainder unit. With
  a pot of 5 and three tied winners the code pays 3, 1, 1 where the claim has 2, 2, 1.
\<close>

theorem pot_split_counterexample:
  "map snd (potPayouts threeSeats [(0, tiedHand), (1, tiedHand), (2, tiedHand)] oddPot) = [3, 1, 1]
   \<and> claimedShares 5 3 = [2, 2, 1]"
  by code_simp

theorem pot_split_remainder_to_first_winner_witness:
  "evaluateAll boardOnly (getPlayersStillInHand boardOnly)
     = Inr [(0, boardHand), (1, boardHand), (2, boardHand)]
   \<and> findWinners (map snd (filter (\<lambda>(i, ev). pid (threeSeats ! i) \<in> set (eligiblePlayers oddPot))
                                [(0, boardHand), (1, boardHand), (2, boardHand)])) = [0, 1, 2]
   \<and> potPayouts threeSeats [(0, boardHand), (1, boardHand), (2, boardHand)] oddPot
       = [(0, 3), (1, 1), (2, 1)]
   \<and> sum_list (map snd (potPayouts threeSeats [(0, boardHand), (1, boardHand), (2, boardHand)] oddPot)) = 5"
proof -
  let ?hes = "[(0, boardHand), (1, boardHand), (2, boardHand)]"
  let ?elig = "filter (\<lambda>(i, ev). pid (threeSeats ! i) \<in> set (eligiblePlayers oddPot)) ?hes"
  have ev: "evaluateAll boardOnly (getPlayersStillInHand boardOnly) = Inr ?hes" by code_simp
  have w: "findWinners (map snd ?elig) = [0, 1, 2]" by code_simp
  have p2: "[0, 1, 2] = findWinners (map snd ?elig)" using w by simp
  have p3: "[0, 1, 2::nat] \<noteq> []" by simp
  have pay: "potPayouts threeSeats ?hes oddPot = [(0, 3), (1, 1), (2, 1)]" by code_simp
  note split = pot_split_remainder_to_first_winner [OF ev refl p2 p3]
  from split [THEN conjunct2, THEN conjunct2, THEN conjunct1] ev w pay
  show ?thesis by simp
qed

section \<open>Every evaluation lies in the band of its category\<close>


lemma rankToValue_bounds: "2 \<le> rankToValue r True" "rankToValue r True \<le> 14"
  by (cases r; simp)+

lemma rankToValue_inj: "rankToValue r True = rankToValue r' True \<Longrightarrow> r = r'"
  by (cases r; cases r'; simp)

lemma foldl_encode_bounds:
  "\<forall>x \<in> set xs. 0 \<le> x \<and> x \<le> 14 \<Longrightarrow> 0 \<le> (a::int) \<Longrightarrow>
     0 \<le> foldl (\<lambda>acc v. acc * 15 + v) a xs
     \<and> foldl (\<lambda>acc v. acc * 15 + v) a xs < (a + 1) * 15 ^ length xs"
proof (induction xs arbitrary: a)
  case Nil
  then show ?case by simp
next
  case (Cons x xs)
  from Cons.prems have x: "0 \<le> x" "x \<le> 14" and rest: "\<forall>y \<in> set xs. 0 \<le> y \<and> y \<le> 14" by auto
  from Cons.prems x have a': "0 \<le> a * 15 + x" by simp
  from Cons.IH [OF rest a']
  have ih: "0 \<le> foldl (\<lambda>acc v. acc * 15 + v) (a * 15 + x) xs"
    "foldl (\<lambda>acc v. acc * 15 + v) (a * 15 + x) xs < (a * 15 + x + 1) * 15 ^ length xs" by auto
  have "(a * 15 + x + 1) * 15 ^ length xs \<le> (a * 15 + 15) * (15::int) ^ length xs"
    using x by (intro mult_right_mono) auto
  also have "\<dots> = (a + 1) * 15 ^ length (x # xs)" by (simp add: algebra_simps)
  finally have le: "(a * 15 + x + 1) * 15 ^ length xs \<le> (a + 1) * 15 ^ length (x # xs)" .
  from ih(2) le have "foldl (\<lambda>acc v. acc * 15 + v) (a * 15 + x) xs < (a + 1) * 15 ^ length (x # xs)"
    by (rule less_le_trans)
  with ih(1) show ?case by simp
qed

lemma encodeInts_bounds:
  assumes "\<forall>x \<in> set xs. 0 \<le> x \<and> x \<le> 14" and "length xs \<le> 5"
  shows "0 \<le> encodeInts xs" and "encodeInts xs < CATEGORY_BASE"
proof -
  from foldl_encode_bounds [OF assms(1), of 0]
  have b: "0 \<le> encodeInts xs" "encodeInts xs < 15 ^ length xs"
    by (auto simp: encodeInts_def)
  have "(15::int) ^ length xs \<le> 15 ^ 5"
    using assms(2) by (intro power_increasing) auto
  with b show "0 \<le> encodeInts xs" "encodeInts xs < CATEGORY_BASE"
    by (auto simp: CATEGORY_BASE_def)
qed

lemma foldl_encode_Num:
  "foldl (\<lambda>acc v. num_add (num_mul acc (Num 15)) v) (Num a) (map Num xs)
     = Num (foldl (\<lambda>acc v. acc * 15 + v) a xs)"
  by (induction xs arbitrary: a) auto

lemma encode_map_Num: "encode (map Num xs) = Num (encodeInts xs)"
  by (simp add: encode_def encodeInts_def foldl_encode_Num)

subsection \<open>Rank counts\<close>

lemma getRankCounts_eq: "getRankCounts cs = map (\<lambda>r. (r, rankCount cs r)) (rankKeys cs)"
  by (simp add: rankKeys_def getRankCounts_def rankCount_def Let_def comp_def)

lemma rankKeys_eq:
  "rankKeys cs = filter (\<lambda>r. r \<in> set (map Card.rank cs)) [R2, R3, R4, R5, R6, R7, R8, R9]
                 @ firstOccurrences (filter (\<lambda>r. \<not> isIndexKey r) (map Card.rank cs))"
  by (simp add: rankKeys_def getRankCounts_def Let_def comp_def)

lemma keys_set_gen:
  "(\<forall>r. isK r \<longleftrightarrow> r \<in> set idx) \<Longrightarrow>
     set (filter (\<lambda>r. r \<in> set rs) idx @ rev (remdups (rev (filter (\<lambda>r. \<not> isK r) rs)))) = set rs"
  by auto

lemma keys_distinct_gen:
  "distinct idx \<Longrightarrow> (\<forall>r. isK r \<longleftrightarrow> r \<in> set idx) \<Longrightarrow>
     distinct (filter (\<lambda>r. r \<in> set rs) idx @ rev (remdups (rev (filter (\<lambda>r. \<not> isK r) rs))))"
  by auto

lemma indexKeys: "\<forall>r. isIndexKey r \<longleftrightarrow> r \<in> set [R2, R3, R4, R5, R6, R7, R8, R9]"
  unfolding isIndexKey_def by (rule allI) (rule refl)

lemma rankKeys_set: "set (rankKeys cs) = Card.rank ` set cs"
  unfolding rankKeys_eq firstOccurrences_def
  using keys_set_gen [OF indexKeys, of "map Card.rank cs"] by (simp only: set_map)

lemma rankKeys_distinct: "distinct (rankKeys cs)"
  unfolding rankKeys_eq firstOccurrences_def
proof (rule keys_distinct_gen [OF _ indexKeys])
  show "distinct [R2, R3, R4, R5, R6, R7, R8, R9]" by simp
qed

lemma map_of_getRankCounts:
  "map_of (getRankCounts cs) r = (if r \<in> set (rankKeys cs) then Some (rankCount cs r) else None)"
  unfolding getRankCounts_eq by (simp add: map_of_map_restrict restrict_map_def)

lemma rankCount_pos: "r \<in> set (rankKeys cs) \<Longrightarrow> 1 \<le> rankCount cs r"
proof -
  assume "r \<in> set (rankKeys cs)"
  then have "r \<in> set (map Card.rank cs)" by (simp add: rankKeys_set)
  then have "filter (\<lambda>x. x = r) (map Card.rank cs) \<noteq> []"
    by (auto simp: filter_empty_conv)
  then show ?thesis unfolding rankCount_def by (cases "filter (\<lambda>x. x = r) (map Card.rank cs)") auto
qed

lemma rankCount_sum: "sum_list (map (rankCount cs) (rankKeys cs)) = length cs"
proof -
  have c: "rankCount cs r = count_list (map Card.rank cs) r" for r
    unfolding rankCount_def by (induction cs) auto
  have "sum_list (map (rankCount cs) (rankKeys cs)) = sum (rankCount cs) (set (rankKeys cs))"
    by (simp add: sum_list_distinct_conv_sum_set rankKeys_distinct)
  also have "\<dots> = sum (count_list (map Card.rank cs)) (set (map Card.rank cs))"
    by (simp add: c rankKeys_set)
  also have "\<dots> = length (map Card.rank cs)"
    by (rule sum_count_set) auto
  finally show ?thesis by simp
qed

lemma find_rankCount:
  "find (\<lambda>r. map_of (getRankCounts cs) r = Some n) (rankKeys cs)
     = find (\<lambda>r. rankCount cs r = n) (rankKeys cs)"
  by (rule find_cong) (auto simp: map_of_getRankCounts)

lemma filter_rankCount:
  "filter (\<lambda>r. map_of (getRankCounts cs) r = Some n) (rankKeys cs)
     = filter (\<lambda>r. rankCount cs r = n) (rankKeys cs)"
  by (rule filter_cong) (auto simp: map_of_getRankCounts)

lemma checkFourOfAKind_alt:
  "checkFourOfAKind cs =
     (case find (\<lambda>r. rankCount cs r = 4) (rankKeys cs) of
        None \<Rightarrow> None
      | Some quadRank \<Rightarrow>
          Some \<lparr>rank = FOUR_OF_A_KIND,
                value = num_add (Num (rankNum FOUR_OF_A_KIND * CATEGORY_BASE))
                          (encode [Num (rankToValue quadRank True),
                                   rankToValueU (find (\<lambda>r. r \<noteq> quadRank) (rankKeys cs))])\<rparr>)"
  unfolding checkFourOfAKind_def Let_def rankKeys_def [symmetric] find_rankCount ..

lemma checkFullHouse_alt:
  "checkFullHouse cs =
     (case (find (\<lambda>r. rankCount cs r = 3) (rankKeys cs),
            find (\<lambda>r. rankCount cs r = 2) (rankKeys cs)) of
        (Some t, Some p) \<Rightarrow>
          Some \<lparr>rank = FULL_HOUSE,
                value = num_add (Num (rankNum FULL_HOUSE * CATEGORY_BASE))
                          (encode [Num (rankToValue t True), Num (rankToValue p True)])\<rparr>
      | _ \<Rightarrow> None)"
  unfolding checkFullHouse_def Let_def rankKeys_def [symmetric] find_rankCount ..

lemma checkThreeOfAKind_alt:
  "checkThreeOfAKind cs =
     (case find (\<lambda>r. rankCount cs r = 3) (rankKeys cs) of
        None \<Rightarrow> None
      | Some tripleRank \<Rightarrow>
          let kickers = rev (sort (map (\<lambda>r. rankToValue r True)
                                    (filter (\<lambda>r. r \<noteq> tripleRank) (rankKeys cs))))
          in Some \<lparr>rank = THREE_OF_A_KIND,
                   value = num_add (Num (rankNum THREE_OF_A_KIND * CATEGORY_BASE))
                             (encode [Num (rankToValue tripleRank True),
                                      nth_num kickers 0, nth_num kickers 1])\<rparr>)"
  unfolding checkThreeOfAKind_def Let_def rankKeys_def [symmetric] find_rankCount ..

lemma checkTwoPair_alt:
  "checkTwoPair cs =
     (let pairs = filter (\<lambda>r. rankCount cs r = 2) (rankKeys cs)
      in if length pairs \<noteq> 2 then None
         else
           let pairValues = rev (sort (map (\<lambda>r. rankToValue r True) pairs));
               kicker = find (\<lambda>r. rankCount cs r = 1) (rankKeys cs)
           in Some \<lparr>rank = TWO_PAIR,
                    value = num_add (Num (rankNum TWO_PAIR * CATEGORY_BASE))
                              (encode [nth_num pairValues 0, nth_num pairValues 1,
                                       rankToValueU kicker])\<rparr>)"
  unfolding checkTwoPair_def Let_def rankKeys_def [symmetric] find_rankCount filter_rankCount ..

lemma checkOnePair_alt:
  "checkOnePair cs =
     (case find (\<lambda>r. rankCount cs r = 2) (rankKeys cs) of
        None \<Rightarrow> None
      | Some pairRank \<Rightarrow>
          let kickers = rev (sort (map (\<lambda>r. rankToValue r True)
                                    (filter (\<lambda>r. r \<noteq> pairRank) (rankKeys cs))))
          in Some \<lparr>rank = PAIR,
                   value = num_add (Num (rankNum PAIR * CATEGORY_BASE))
                             (encode [Num (rankToValue pairRank True),
                                      nth_num kickers 0, nth_num kickers 1, nth_num kickers 2])\<rparr>)"
  unfolding checkOnePair_def Let_def rankKeys_def [symmetric] find_rankCount ..

lemma length2E: "length xs = 2 \<Longrightarrow> \<exists>a b. xs = [a, b]"
  by (cases xs; cases "tl xs") auto

lemma length3E: "length xs = 3 \<Longrightarrow> \<exists>a b c. xs = [a, b, c]"
  by (cases xs; cases "tl xs"; cases "tl (tl xs)") auto

subsection \<open>Counting five cards\<close>

lemma sum_list_split_key:
  fixes c :: "'a \<Rightarrow> nat"
  assumes "distinct K" "t \<in> set K"
  shows "sum_list (map c K) = c t + sum_list (map c (filter (\<lambda>r. r \<noteq> t) K))"
proof -
  have "sum_list (map c K) = c t + sum_list (map c (remove1 t K))"
    using assms(2) by (rule sum_list_map_remove1)
  moreover have "remove1 t K = filter (\<lambda>r. r \<noteq> t) K"
    using assms(1) by (simp add: distinct_remove1_removeAll removeAll_filter_not_eq eq_commute)
  ultimately show ?thesis by simp
qed

lemma sum_list_ge_length:
  "\<forall>r \<in> set K. 1 \<le> c r \<Longrightarrow> length K \<le> sum_list (map c K)" for c :: "'a \<Rightarrow> nat"
  by (induction K) auto

lemma sum_list_ones:
  "\<forall>r \<in> set K. c r = 1 \<Longrightarrow> sum_list (map c K) = length K" for c :: "'a \<Rightarrow> nat"
  by (induction K) auto

lemma elem_le_sum_list:
  "r \<in> set K \<Longrightarrow> c r \<le> sum_list (map c K)" for c :: "'a \<Rightarrow> nat"
  by (induction K) auto

lemma quads_have_kicker:
  fixes c :: "'a \<Rightarrow> nat"
  assumes "distinct K" "sum_list (map c K) = 5" "q \<in> set K" "c q = 4"
  shows "filter (\<lambda>r. r \<noteq> q) K \<noteq> []"
proof
  assume "filter (\<lambda>r. r \<noteq> q) K = []"
  with sum_list_split_key [OF assms(1,3), of c] assms show False by simp
qed

lemma trips_have_two_kickers:
  fixes c :: "'a \<Rightarrow> nat"
  assumes "distinct K" "\<forall>r \<in> set K. 1 \<le> c r" "sum_list (map c K) = 5"
      "t \<in> set K" "c t = 3" "\<forall>p \<in> set K. c p \<noteq> 2"
  shows "length (filter (\<lambda>r. r \<noteq> t) K) = 2"
proof -
  let ?others = "filter (\<lambda>r. r \<noteq> t) K"
  from sum_list_split_key [OF assms(1,4), of c] assms(3,5)
  have s: "sum_list (map c ?others) = 2" by simp
  have "c r = 1" if "r \<in> set ?others" for r
  proof -
    from elem_le_sum_list [OF that, of c] s have "c r \<le> 2" by simp
    moreover from that assms(2,6) have "1 \<le> c r" "c r \<noteq> 2" by auto
    ultimately show ?thesis by simp
  qed
  then have "sum_list (map c ?others) = length ?others"
    by (intro sum_list_ones) auto
  with s show ?thesis by simp
qed

lemma two_pairs_have_kicker:
  fixes c :: "'a \<Rightarrow> nat"
  assumes "distinct K" "\<forall>r \<in> set K. 1 \<le> c r" "sum_list (map c K) = 5"
      "length (filter (\<lambda>r. c r = 2) K) = 2"
  shows "\<exists>k \<in> set K. c k = 1"
proof -
  from assms(4) obtain p1 p2 where pp: "filter (\<lambda>r. c r = 2) K = [p1, p2]"
    by (auto simp: length_Suc_conv numeral_2_eq_2)
  then have "p1 \<in> set (filter (\<lambda>r. c r = 2) K)" "p2 \<in> set (filter (\<lambda>r. c r = 2) K)"
    by simp_all
  then have p1: "p1 \<in> set K" "c p1 = 2" and p2: "p2 \<in> set K" "c p2 = 2"
    by simp_all
  from pp assms(1) have ne: "p1 \<noteq> p2"
    by (metis distinct_filter distinct_length_2_or_more)
  let ?o1 = "filter (\<lambda>r. r \<noteq> p1) K"
  have d1: "distinct ?o1" using assms(1) by simp
  have p2o: "p2 \<in> set ?o1" using p2 ne by simp
  let ?o2 = "filter (\<lambda>r. r \<noteq> p2) ?o1"
  from sum_list_split_key [OF assms(1) p1(1), of c] assms(3) p1(2)
  have "sum_list (map c ?o1) = 3" by simp
  with sum_list_split_key [OF d1 p2o, of c] p2(2)
  have s: "sum_list (map c ?o2) = 1" by simp
  then have "?o2 \<noteq> []" by auto
  then have "hd ?o2 \<in> set ?o2" by (rule hd_in_set)
  then obtain k where k: "k \<in> set ?o2" ..
  from elem_le_sum_list [OF k, of c] s have "c k \<le> 1" by simp
  moreover from k assms(2) have "1 \<le> c k" by auto
  ultimately show ?thesis using k by auto
qed

lemma pair_has_three_kickers:
  fixes c :: "'a \<Rightarrow> nat"
  assumes "distinct K" "\<forall>r \<in> set K. 1 \<le> c r" "sum_list (map c K) = 5"
      "p \<in> set K" "c p = 2" "\<forall>t \<in> set K. c t \<noteq> 3"
      "length (filter (\<lambda>r. c r = 2) K) \<noteq> 2"
  shows "length (filter (\<lambda>r. r \<noteq> p) K) = 3"
proof -
  let ?others = "filter (\<lambda>r. r \<noteq> p) K"
  have d: "distinct ?others" using assms(1) by simp
  from sum_list_split_key [OF assms(1,4), of c] assms(3,5)
  have s: "sum_list (map c ?others) = 3" by simp
  have "c r = 1" if r: "r \<in> set ?others" for r
  proof (rule ccontr)
    assume n1: "c r \<noteq> 1"
    from elem_le_sum_list [OF r, of c] s have "c r \<le> 3" by simp
    moreover from r assms(2,6) have "1 \<le> c r" "c r \<noteq> 3" by auto
    ultimately have c2: "c r = 2" using n1 by simp
    from sum_list_split_key [OF d r, of c] s c2
    have s1: "sum_list (map c (filter (\<lambda>x. x \<noteq> r) ?others)) = 1" by simp
    have rest: "c x \<noteq> 2" if "x \<in> set K" "x \<noteq> p" "x \<noteq> r" for x
    proof -
      from that have "x \<in> set (filter (\<lambda>x. x \<noteq> r) ?others)" by simp
      from elem_le_sum_list [OF this, of c] s1 show ?thesis by simp
    qed
    have "{x. c x = 2} \<inter> set K = {p, r}"
      using assms(4,5) r c2 rest by auto
    moreover have "p \<noteq> r" using r by auto
    ultimately have "length (filter (\<lambda>r. c r = 2) K) = 2"
      using assms(1) by (simp add: distinct_length_filter)
    with assms(7) show False by simp
  qed
  then have "sum_list (map c ?others) = length ?others"
    by (intro sum_list_ones) auto
  with s show ?thesis by simp
qed


subsection \<open>The strength of a five-card hand lies in the band of its category\<close>

lemma inBandI:
  "value e = Num v \<Longrightarrow> rankNum (HandEvaluation.rank e) * 1000000000 \<le> v
     \<Longrightarrow> v < rankNum (HandEvaluation.rank e) * 1000000000 + 1000000000 \<Longrightarrow> inBand e"
  unfolding inBand_def CATEGORY_BASE_def
  by (rule exI [of _ "v - rankNum (HandEvaluation.rank e) * 1000000000"]) simp

lemma inBandD:
  "inBand e \<Longrightarrow> \<exists>v. value e = Num v \<and> rankNum (HandEvaluation.rank e) * 1000000000 \<le> v
     \<and> v < rankNum (HandEvaluation.rank e) * 1000000000 + 1000000000"
  unfolding inBand_def CATEGORY_BASE_def by auto

lemma length_insertCard: "length (insertCard ah c ds) = Suc (length ds)"
  by (induction ds) auto

lemma length_sortCards: "length (sortCards cs ah) = length cs"
  unfolding sortCards_def by (induction cs) (auto simp: length_insertCard)

lemma values_range: "v \<in> set (map (\<lambda>card. rankToValue (Card.rank card) True) cs) \<Longrightarrow> 2 \<le> v \<and> v \<le> 14"
  using rankToValue_bounds by auto

lemma encodeInts_2: "encodeInts [a, b] = a * 15 + b"
  and encodeInts_3: "encodeInts [a, b, c] = (a * 15 + b) * 15 + c"
  and encodeInts_4: "encodeInts [a, b, c, d] = ((a * 15 + b) * 15 + c) * 15 + d"
  by (simp_all add: encodeInts_def)

lemma checkStraight_shape:
  assumes "cs \<noteq> []" "checkStraight cs = Some e"
  shows "\<exists>h. e = \<lparr>rank = STRAIGHT, value = Num (5000000000 + h)\<rparr> \<and> 2 \<le> h \<and> h \<le> 14"
proof -
  let ?vs = "sort (map (\<lambda>card. rankToValue (Card.rank card) True) cs)"
  have ne: "?vs \<noteq> []" using assms(1) by (metis length_sort length_map length_0_conv)
  then have "last ?vs \<in> set ?vs" by (rule last_in_set)
  then have "2 \<le> last ?vs \<and> last ?vs \<le> 14" using values_range [of _ cs] by simp
  with assms(2) ne show ?thesis
    by (auto simp: checkStraight_def Let_def lastNum_def CATEGORY_BASE_def split: if_splits)
qed

lemma checkRoyalFlush_shape:
  "checkRoyalFlush cs = Some e \<Longrightarrow> e = \<lparr>rank = ROYAL_FLUSH, value = Num 10000000014\<rparr>"
  by (auto simp: checkRoyalFlush_def CATEGORY_BASE_def split: if_splits)

lemma checkStraightFlush_shape:
  assumes "cs \<noteq> []" "checkStraightFlush cs = Some e"
  shows "\<exists>h. e = \<lparr>rank = STRAIGHT_FLUSH, value = Num (9000000000 + h)\<rparr> \<and> 2 \<le> h \<and> h \<le> 14"
proof -
  from assms(2) obtain st where st: "checkStraight cs = Some st"
    by (auto simp: checkStraightFlush_def split: if_splits option.splits)
  from checkStraight_shape [OF assms(1) st] obtain h
    where "st = \<lparr>rank = STRAIGHT, value = Num (5000000000 + h)\<rparr>" "2 \<le> h" "h \<le> 14" by blast
  with assms(2) st show ?thesis
    by (auto simp: checkStraightFlush_def Let_def CATEGORY_BASE_def split: if_splits)
qed

lemma find_SomeD: "find P xs = Some x \<Longrightarrow> x \<in> set xs \<and> P x"
  by (induction xs) (auto split: if_splits)

lemma find_filter_ne: "filter P xs \<noteq> [] \<Longrightarrow> \<exists>x. find P xs = Some x"
  by (induction xs) auto

lemma checkFourOfAKind_shape:
  assumes "length cs = 5" "checkFourOfAKind cs = Some e"
  shows "\<exists>q k. rankCount cs q = 4 \<and> q \<in> set (rankKeys cs) \<and> k \<in> set (rankKeys cs) \<and> k \<noteq> q
             \<and> e = \<lparr>rank = FOUR_OF_A_KIND,
                     value = Num (8000000000 + (rankToValue q True * 15 + rankToValue k True))\<rparr>"
proof -
  from assms(2) obtain q where q: "find (\<lambda>r. rankCount cs r = 4) (rankKeys cs) = Some q"
    by (auto simp: checkFourOfAKind_alt split: option.splits)
  from find_SomeD [OF q] have qk: "q \<in> set (rankKeys cs)" "rankCount cs q = 4" by auto
  have "filter (\<lambda>r. r \<noteq> q) (rankKeys cs) \<noteq> []"
    using quads_have_kicker [of "rankKeys cs" "rankCount cs" q] rankKeys_distinct [of cs] qk
      rankCount_sum [of cs] assms(1) by simp
  from find_filter_ne [OF this] obtain k where k: "find (\<lambda>r. r \<noteq> q) (rankKeys cs) = Some k" ..
  from find_SomeD [OF k] have "k \<in> set (rankKeys cs)" "k \<noteq> q" by auto
  moreover from assms(2) q k
  have "e = \<lparr>rank = FOUR_OF_A_KIND,
              value = Num (8000000000 + (rankToValue q True * 15 + rankToValue k True))\<rparr>"
    by (auto simp: checkFourOfAKind_alt rankToValueU_def encode_def CATEGORY_BASE_def)
  ultimately show ?thesis using qk by blast
qed

lemma checkFullHouse_shape:
  assumes "checkFullHouse cs = Some e"
  shows "\<exists>t p. find (\<lambda>r. rankCount cs r = 3) (rankKeys cs) = Some t
             \<and> find (\<lambda>r. rankCount cs r = 2) (rankKeys cs) = Some p
             \<and> e = \<lparr>rank = FULL_HOUSE,
                     value = Num (7000000000 + (rankToValue t True * 15 + rankToValue p True))\<rparr>"
  using assms
  by (auto simp: checkFullHouse_alt encode_def CATEGORY_BASE_def split: option.splits)

lemma checkFullHouse_None:
  "checkFullHouse cs = None \<longleftrightarrow>
     find (\<lambda>r. rankCount cs r = 3) (rankKeys cs) = None
     \<or> find (\<lambda>r. rankCount cs r = 2) (rankKeys cs) = None"
  by (auto simp: checkFullHouse_alt split: option.splits)

lemma checkFlush_shape:
  assumes "checkFlush cs = Some e"
  shows "e = \<lparr>rank = FLUSH,
              value = Num (6000000000
                + encodeInts (rev (sort (map (\<lambda>card. rankToValue (Card.rank card) True) cs))))\<rparr>"
  using assms
  by (auto simp: checkFlush_def Let_def encode_map_Num CATEGORY_BASE_def split: if_splits)

lemma checkHighCard_shape:
  "checkHighCard cs = \<lparr>rank = HIGH_CARD,
              value = Num (1000000000
                + encodeInts (rev (sort (map (\<lambda>card. rankToValue (Card.rank card) True) cs))))\<rparr>"
  by (auto simp: checkHighCard_def Let_def encode_map_Num CATEGORY_BASE_def)

lemma nth_num_in: "i < length xs \<Longrightarrow> nth_num xs i = Num (xs ! i)"
  by (simp add: nth_num_def)

lemma checkThreeOfAKind_shape:
  assumes "length cs = 5" "checkFullHouse cs = None" "checkThreeOfAKind cs = Some e"
  shows "\<exists>t k1 k2. find (\<lambda>r. rankCount cs r = 3) (rankKeys cs) = Some t
             \<and> rev (sort (map (\<lambda>r. rankToValue r True) (filter (\<lambda>r. r \<noteq> t) (rankKeys cs)))) = [k1, k2]
             \<and> e = \<lparr>rank = THREE_OF_A_KIND,
                     value = Num (4000000000 + encodeInts [rankToValue t True, k1, k2])\<rparr>"
proof -
  from assms(3) obtain t where t: "find (\<lambda>r. rankCount cs r = 3) (rankKeys cs) = Some t"
    by (auto simp: checkThreeOfAKind_alt split: option.splits)
  from find_SomeD [OF t] have tk: "t \<in> set (rankKeys cs)" "rankCount cs t = 3" by auto
  from assms(2) t have "find (\<lambda>r. rankCount cs r = 2) (rankKeys cs) = None"
    by (simp add: checkFullHouse_None)
  then have no2: "\<forall>p \<in> set (rankKeys cs). rankCount cs p \<noteq> 2"
    by (auto simp: find_None_iff)
  let ?kickers = "rev (sort (map (\<lambda>r. rankToValue r True) (filter (\<lambda>r. r \<noteq> t) (rankKeys cs))))"
  have "length (filter (\<lambda>r. r \<noteq> t) (rankKeys cs)) = 2"
    using trips_have_two_kickers [of "rankKeys cs" "rankCount cs" t] rankKeys_distinct [of cs]
      tk no2 rankCount_pos [of _ cs] rankCount_sum [of cs] assms(1) by simp
  then have "length ?kickers = 2" by simp
  from length2E [OF this] obtain k1 k2 where ks: "?kickers = [k1, k2]" by blast
  from assms(3) t
  have "e = \<lparr>rank = THREE_OF_A_KIND,
             value = num_add (Num 4000000000)
                       (encode [Num (rankToValue t True), nth_num ?kickers 0, nth_num ?kickers 1])\<rparr>"
    by (simp add: checkThreeOfAKind_alt Let_def CATEGORY_BASE_def)
  then have "e = \<lparr>rank = THREE_OF_A_KIND,
                   value = Num (4000000000 + encodeInts [rankToValue t True, k1, k2])\<rparr>"
    unfolding ks by (simp add: nth_num_def encode_def encodeInts_def)
  with t ks show ?thesis by blast
qed

lemma checkThreeOfAKind_None:
  "checkThreeOfAKind cs = None \<longleftrightarrow> find (\<lambda>r. rankCount cs r = 3) (rankKeys cs) = None"
  by (auto simp: checkThreeOfAKind_alt Let_def split: option.splits)

lemma checkTwoPair_None:
  "checkTwoPair cs = None \<longleftrightarrow> length (filter (\<lambda>r. rankCount cs r = 2) (rankKeys cs)) \<noteq> 2"
  by (auto simp: checkTwoPair_alt Let_def)

lemma checkTwoPair_shape:
  assumes "length cs = 5" "checkTwoPair cs = Some e"
  shows "\<exists>p1 p2 k. rev (sort (map (\<lambda>r. rankToValue r True)
                                   (filter (\<lambda>r. rankCount cs r = 2) (rankKeys cs)))) = [p1, p2]
             \<and> find (\<lambda>r. rankCount cs r = 1) (rankKeys cs) = Some k
             \<and> e = \<lparr>rank = TWO_PAIR,
                     value = Num (3000000000 + encodeInts [p1, p2, rankToValue k True])\<rparr>"
proof -
  let ?pairs = "filter (\<lambda>r. rankCount cs r = 2) (rankKeys cs)"
  let ?pv = "rev (sort (map (\<lambda>r. rankToValue r True) ?pairs))"
  from assms(2) have len: "length ?pairs = 2"
    by (auto simp: checkTwoPair_alt Let_def split: if_splits)
  then have "length ?pv = 2" by simp
  from length2E [OF this] obtain p1 p2 where pv: "?pv = [p1, p2]" by blast
  have "\<exists>k \<in> set (rankKeys cs). rankCount cs k = 1"
    using two_pairs_have_kicker [of "rankKeys cs" "rankCount cs"] rankKeys_distinct [of cs] len
      rankCount_pos [of _ cs] rankCount_sum [of cs] assms(1) by simp
  then have "filter (\<lambda>r. rankCount cs r = 1) (rankKeys cs) \<noteq> []"
    by (auto simp: filter_empty_conv)
  from find_filter_ne [OF this] obtain k
    where k: "find (\<lambda>r. rankCount cs r = 1) (rankKeys cs) = Some k" ..
  from assms(2) len k
  have "e = \<lparr>rank = TWO_PAIR,
             value = num_add (Num 3000000000)
                       (encode [nth_num ?pv 0, nth_num ?pv 1, Num (rankToValue k True)])\<rparr>"
    by (simp add: checkTwoPair_alt Let_def CATEGORY_BASE_def rankToValueU_def)
  then have "e = \<lparr>rank = TWO_PAIR,
                   value = Num (3000000000 + encodeInts [p1, p2, rankToValue k True])\<rparr>"
    unfolding pv by (simp add: nth_num_def encode_def encodeInts_def)
  with pv k show ?thesis by blast
qed

lemma checkOnePair_shape:
  assumes "length cs = 5" "checkThreeOfAKind cs = None" "checkTwoPair cs = None"
      "checkOnePair cs = Some e"
  shows "\<exists>p k1 k2 k3. find (\<lambda>r. rankCount cs r = 2) (rankKeys cs) = Some p
             \<and> rev (sort (map (\<lambda>r. rankToValue r True) (filter (\<lambda>r. r \<noteq> p) (rankKeys cs))))
                 = [k1, k2, k3]
             \<and> e = \<lparr>rank = PAIR,
                     value = Num (2000000000 + encodeInts [rankToValue p True, k1, k2, k3])\<rparr>"
proof -
  from assms(4) obtain p where p: "find (\<lambda>r. rankCount cs r = 2) (rankKeys cs) = Some p"
    by (auto simp: checkOnePair_alt split: option.splits)
  from find_SomeD [OF p] have pk: "p \<in> set (rankKeys cs)" "rankCount cs p = 2" by auto
  from assms(2) have no3: "\<forall>t \<in> set (rankKeys cs). rankCount cs t \<noteq> 3"
    by (auto simp: checkThreeOfAKind_None find_None_iff)
  from assms(3) have no22: "length (filter (\<lambda>r. rankCount cs r = 2) (rankKeys cs)) \<noteq> 2"
    by (simp add: checkTwoPair_None)
  let ?kickers = "rev (sort (map (\<lambda>r. rankToValue r True) (filter (\<lambda>r. r \<noteq> p) (rankKeys cs))))"
  have "length (filter (\<lambda>r. r \<noteq> p) (rankKeys cs)) = 3"
    using pair_has_three_kickers [of "rankKeys cs" "rankCount cs" p] rankKeys_distinct [of cs]
      pk no3 no22 rankCount_pos [of _ cs] rankCount_sum [of cs] assms(1) by simp
  then have "length ?kickers = 3" by simp
  from length3E [OF this] obtain k1 k2 k3 where ks: "?kickers = [k1, k2, k3]" by blast
  from assms(4) p
  have "e = \<lparr>rank = PAIR,
             value = num_add (Num 2000000000)
                       (encode [Num (rankToValue p True), nth_num ?kickers 0, nth_num ?kickers 1,
                                nth_num ?kickers 2])\<rparr>"
    by (simp add: checkOnePair_alt Let_def CATEGORY_BASE_def)
  then have "e = \<lparr>rank = PAIR,
                   value = Num (2000000000 + encodeInts [rankToValue p True, k1, k2, k3])\<rparr>"
    unfolding ks by (simp add: nth_num_def encode_def encodeInts_def)
  with p ks show ?thesis by blast
qed

lemma firstHit_simps:
  "firstHit [] fb = fb"
  "firstHit (None # cs) fb = firstHit cs fb"
  "firstHit (Some e # cs) fb = e"
  by (simp_all add: firstHit_def)

lemma evaluateFiveCards_hit:
  assumes "evaluateFiveCards cs = Inr e" and s: "s = sortCards cs True"
  shows "length s = 5 \<and>
    (checkRoyalFlush s = Some e
     \<or> checkRoyalFlush s = None \<and>
       (checkStraightFlush s = Some e
        \<or> checkStraightFlush s = None \<and>
          (checkFourOfAKind s = Some e
           \<or> checkFourOfAKind s = None \<and>
             (checkFullHouse s = Some e
              \<or> checkFullHouse s = None \<and>
                (checkFlush s = Some e
                 \<or> checkFlush s = None \<and>
                   (checkStraight s = Some e
                    \<or> checkStraight s = None \<and>
                      (checkThreeOfAKind s = Some e
                       \<or> checkThreeOfAKind s = None \<and>
                         (checkTwoPair s = Some e
                          \<or> checkTwoPair s = None \<and>
                            (checkOnePair s = Some e
                             \<or> checkOnePair s = None \<and> e = checkHighCard s)))))))))"
proof -
  from assms have len: "length s = 5"
    by (auto simp: evaluateFiveCards_def length_sortCards split: if_splits)
  from assms have e: "e = firstHit [checkRoyalFlush s, checkStraightFlush s,
                       checkFourOfAKind s, checkFullHouse s, checkFlush s, checkStraight s,
                       checkThreeOfAKind s, checkTwoPair s, checkOnePair s] (checkHighCard s)"
    by (auto simp: evaluateFiveCards_def Let_def split: if_splits)
  show ?thesis
    unfolding e using len
    by (cases "checkRoyalFlush s"; cases "checkStraightFlush s"; cases "checkFourOfAKind s";
        cases "checkFullHouse s"; cases "checkFlush s"; cases "checkStraight s";
        cases "checkThreeOfAKind s"; cases "checkTwoPair s"; cases "checkOnePair s";
        simp add: firstHit_simps)
qed


lemma band_encode:
  assumes "\<forall>x \<in> set xs. 0 \<le> x \<and> x \<le> 14" "length xs \<le> 5" "rankNum c * 1000000000 = b"
  shows "inBand \<lparr>rank = c, value = Num (b + encodeInts xs)\<rparr>"
  using encodeInts_bounds [OF assms(1,2)] assms(3)
  by (intro inBandI [of _ "b + encodeInts xs"]) (auto simp: CATEGORY_BASE_def)

lemma rankToValue_digit: "0 \<le> rankToValue r True \<and> rankToValue r True \<le> 14"
  by (cases r; simp)

lemma rank_values_digits:
  "set ks = (\<lambda>r. rankToValue r True) ` A \<Longrightarrow> \<forall>k \<in> set ks. 0 \<le> k \<and> k \<le> 14"
  by (auto simp: rankToValue_digit)

lemma card_values_digits:
  "\<forall>k \<in> set (rev (sort (map (\<lambda>card. rankToValue (Card.rank card) True) cs))). 0 \<le> k \<and> k \<le> 14"
  by (auto simp: rankToValue_digit)

lemma evaluateFiveCards_inBand:
  assumes "evaluateFiveCards cs = Inr e"
  shows "inBand e"
proof -
  define s where "s = sortCards cs True"
  note hit = evaluateFiveCards_hit [OF assms s_def]
  then have len: "length s = 5" and ne: "s \<noteq> []" by auto
  have d1: "0 \<le> rankToValue r True \<and> rankToValue r True \<le> 14" for r
    using rankToValue_bounds [of r] by simp
  from hit consider
      (rf) "checkRoyalFlush s = Some e"
    | (sf) "checkStraightFlush s = Some e"
    | (quads) "checkFourOfAKind s = Some e"
    | (fh) "checkFullHouse s = Some e"
    | (fl) "checkFlush s = Some e"
    | (st) "checkStraight s = Some e"
    | (trips) "checkFullHouse s = None" "checkThreeOfAKind s = Some e"
    | (twopair) "checkTwoPair s = Some e"
    | (pair) "checkThreeOfAKind s = None" "checkTwoPair s = None" "checkOnePair s = Some e"
    | (high) "e = checkHighCard s"
    by (elim conjE disjE) blast+
  then show ?thesis
  proof cases
    case rf
    from checkRoyalFlush_shape [OF this] show ?thesis
      by (auto intro!: inBandI)
  next
    case sf
    from checkStraightFlush_shape [OF ne this] show ?thesis
      by (auto intro!: inBandI)
  next
    case quads
    from checkFourOfAKind_shape [OF len this] obtain q k where
      "e = \<lparr>rank = FOUR_OF_A_KIND,
             value = Num (8000000000 + (rankToValue q True * 15 + rankToValue k True))\<rparr>" by blast
    then have "e = \<lparr>rank = FOUR_OF_A_KIND,
             value = Num (8000000000 + encodeInts [rankToValue q True, rankToValue k True])\<rparr>"
      by (simp add: encodeInts_2)
    then show ?thesis using d1 by (auto intro!: band_encode)
  next
    case fh
    from checkFullHouse_shape [OF this] obtain t p where
      "e = \<lparr>rank = FULL_HOUSE,
             value = Num (7000000000 + (rankToValue t True * 15 + rankToValue p True))\<rparr>" by blast
    then have "e = \<lparr>rank = FULL_HOUSE,
             value = Num (7000000000 + encodeInts [rankToValue t True, rankToValue p True])\<rparr>"
      by (simp add: encodeInts_2)
    then show ?thesis using d1 by (auto intro!: band_encode)
  next
    case fl
    from checkFlush_shape [OF this] card_values_digits [of s] len show ?thesis
      by (auto intro!: band_encode)
  next
    case st
    from checkStraight_shape [OF ne this] show ?thesis
      by (auto intro!: inBandI)
  next
    case trips
    from checkThreeOfAKind_shape [OF len this] obtain t k1 k2 where
      ks: "rev (sort (map (\<lambda>r. rankToValue r True) (filter (\<lambda>r. r \<noteq> t) (rankKeys s)))) = [k1, k2]"
      and e: "e = \<lparr>rank = THREE_OF_A_KIND,
                     value = Num (4000000000 + encodeInts [rankToValue t True, k1, k2])\<rparr>" by blast
    from ks have "set [k1, k2] = (\<lambda>r. rankToValue r True) ` set (filter (\<lambda>r. r \<noteq> t) (rankKeys s))"
      by (metis set_map set_rev set_sort)
    from rank_values_digits [OF this] e d1 show ?thesis
      by (auto intro!: band_encode)
  next
    case twopair
    from checkTwoPair_shape [OF len this] obtain p1 p2 k where
      ps: "rev (sort (map (\<lambda>r. rankToValue r True)
                       (filter (\<lambda>r. rankCount s r = 2) (rankKeys s)))) = [p1, p2]"
      and e: "e = \<lparr>rank = TWO_PAIR,
                     value = Num (3000000000 + encodeInts [p1, p2, rankToValue k True])\<rparr>" by blast
    from ps have "set [p1, p2] = (\<lambda>r. rankToValue r True) ` set (filter (\<lambda>r. rankCount s r = 2) (rankKeys s))"
      by (metis set_map set_rev set_sort)
    from rank_values_digits [OF this] e d1 show ?thesis
      by (auto intro!: band_encode)
  next
    case pair
    from checkOnePair_shape [OF len this] obtain p k1 k2 k3 where
      ks: "rev (sort (map (\<lambda>r. rankToValue r True) (filter (\<lambda>r. r \<noteq> p) (rankKeys s))))
                 = [k1, k2, k3]"
      and e: "e = \<lparr>rank = PAIR,
                     value = Num (2000000000 + encodeInts [rankToValue p True, k1, k2, k3])\<rparr>" by blast
    from ks have "set [k1, k2, k3] = (\<lambda>r. rankToValue r True) ` set (filter (\<lambda>r. r \<noteq> p) (rankKeys s))"
      by (metis set_map set_rev set_sort)
    from rank_values_digits [OF this] e d1 show ?thesis
      by (auto intro!: band_encode)
  next
    case high
    with checkHighCard_shape [of s] card_values_digits [of s] len show ?thesis
      by (auto intro!: band_encode)
  qed
qed

subsection \<open>The strength of the direct classifier lies in the band of its category\<close>

lemma uniqueValuesAsc_set:
  "set (uniqueValuesAsc cs) = (\<lambda>c. rankToValue (Card.rank c) True) ` set cs"
  by (simp add: uniqueValuesAsc_def)

lemma uniqueValues_range: "v \<in> set (uniqueValuesAsc cs) \<Longrightarrow> 2 \<le> v \<and> v \<le> 14"
  using rankToValue_bounds by (auto simp: uniqueValuesAsc_set)

lemma straightScan_mem:
  "straightScan prev run best xs = Some h \<Longrightarrow> best = Some h \<or> h \<in> set xs"
  by (induction xs arbitrary: prev run best) (auto split: if_splits)

lemma findStraightHigh_mem: "findStraightHigh vs = Some h \<Longrightarrow> h \<in> set vs"
proof -
  assume a: "findStraightHigh vs = Some h"
  then have "vs \<noteq> []" by (auto simp: findStraightHigh_def split: if_splits)
  with a show ?thesis
    by (cases vs) (auto simp: findStraightHigh_def Let_def split: if_splits dest!: straightScan_mem)
qed

lemma truthyE: "truthy x \<Longrightarrow> \<exists>v. x = Some v \<and> v \<noteq> 0"
  by (cases x) (auto simp: truthy_def)

lemma orElse_digit:
  assumes "\<And>v. x = Some v \<Longrightarrow> 0 \<le> v \<and> v \<le> 14" "0 \<le> d" "d \<le> 14"
  shows "0 \<le> orElse x d \<and> orElse x d \<le> 14"
  using assms by (cases x) (auto simp: orElse_def)

lemma nthOpt_mem: "nthOpt xs i = Some v \<Longrightarrow> v \<in> set xs"
  by (auto simp: nthOpt_def split: if_splits)

lemma if_chain: "(c \<Longrightarrow> P a) \<Longrightarrow> (\<not> c \<Longrightarrow> P b) \<Longrightarrow> P (if c then a else b)"
  by simp

lemma evaluateSevenCards_inBand: "inBand (evaluateSevenCards cs)"
proof -
  define U where "U = rev (uniqueValuesAsc cs)"
  define SV where "SV = (\<lambda>s. remdups (map (\<lambda>c. rankToValue (Card.rank c) True) (bySuit cs s)))"
  have U: "0 \<le> v \<and> v \<le> 14" if "v \<in> set U" for v
    using that uniqueValues_range [of v cs] by (auto simp: U_def)
  have SVr: "0 \<le> v \<and> v \<le> 14" if "v \<in> set (SV s)" for v s
    using that by (auto simp: SV_def rankToValue_digit)
  have fU: "0 \<le> orElse (find P U) d \<and> orElse (find P U) d \<le> 14" if "0 \<le> d" "d \<le> 14" for P d
    by (rule orElse_digit) (use that U in \<open>auto dest!: find_SomeD\<close>)
  have qU: "0 \<le> v \<and> v \<le> 14" if "find P U = Some v" for P v
    using find_SomeD [OF that] U by auto
  have nU: "0 \<le> orElse (nthOpt (take n (filter P U)) i) 0 \<and> orElse (nthOpt (take n (filter P U)) i) 0 \<le> 14"
    for P n i
    by (rule orElse_digit) (use U in \<open>auto dest!: nthOpt_mem in_set_takeD\<close>)
  have hdU: "0 \<le> hd (filter P U) \<and> hd (filter P U) \<le> 14" if "length (filter P U) \<ge> 1" for P
  proof -
    from that have "filter P U \<noteq> []" by auto
    then have "hd (filter P U) \<in> set (filter P U)" by (rule hd_in_set)
    then show ?thesis using U by auto
  qed
  have hdU2: "0 \<le> hd (filter Q (filter P U)) \<and> hd (filter Q (filter P U)) \<le> 14"
    if "length (filter Q (filter P U)) \<ge> 1" for P Q
    using hdU [of "\<lambda>x. P x \<and> Q x"] that by (simp add: conj_commute)
  have nthU: "0 \<le> filter P U ! i \<and> filter P U ! i \<le> 14" if "i < length (filter P U)" for P i
  proof -
    from that have "filter P U ! i \<in> set (filter P U)" by (rule nth_mem)
    then show ?thesis using U by auto
  qed
  have nth0a: "0 \<le> filter P U ! 0 \<and> filter P U ! 0 \<le> 14" if "2 \<le> length (filter P U)" for P
    by (rule nthU) (use that in linarith)
  have nth0b: "0 \<le> filter P U ! 0 \<and> filter P U ! 0 \<le> 14" if "length (filter P U) = Suc 0" for P
    by (rule nthU) (use that in linarith)
  have nth1: "0 \<le> filter P U ! Suc 0 \<and> filter P U ! Suc 0 \<le> 14" if "2 \<le> length (filter P U)" for P
    by (rule nthU) (use that in linarith)
  have sh: "0 \<le> h \<and> h \<le> 14" if "findStraightHigh (sort (SV s)) = Some h" for h s
    using findStraightHigh_mem [OF that] SVr by auto
  have sh2: "0 \<le> h \<and> h \<le> 14" if "findStraightHigh (uniqueValuesAsc cs) = Some h" for h
    using findStraightHigh_mem [OF that] uniqueValues_range by fastforce
  have top5: "\<forall>x \<in> set (take 5 (rev (sort (SV s)))). 0 \<le> x \<and> x \<le> 14" for s
    using SVr by (auto dest!: in_set_takeD)
  have highs: "\<forall>x \<in> set (take 5 U). 0 \<le> x \<and> x \<le> 14"
    using U by (auto dest!: in_set_takeD)
  show ?thesis
    unfolding evaluateSevenCards_def Let_def U_def [symmetric] SV_def [symmetric]
    apply (rule if_chain)
    subgoal
      by (auto dest!: truthyE intro!: inBandI simp: encodeInts_def split: option.splits dest: sh)
    apply (rule if_chain)
    subgoal
      using fU [of 2]
      by (auto dest!: truthyE dest: qU intro!: band_encode [of "[a, b]" for a b, unfolded encodeInts_2])
    apply (rule if_chain)
    subgoal
      using hdU hdU2
      by (auto intro!: band_encode [of "[a, b]" for a b, unfolded encodeInts_2])
    apply (rule if_chain)
    subgoal
      using hdU nthU
      by (auto intro!: band_encode [of "[a, b]" for a b, unfolded encodeInts_2])
    apply (rule if_chain)
    subgoal
      using top5 by (auto intro!: band_encode)
    apply (rule if_chain)
    subgoal
      by (auto dest!: truthyE intro!: inBandI dest: sh2)
    apply (rule if_chain)
    subgoal
      using hdU nU by (auto intro!: band_encode)
    apply (rule if_chain)
    subgoal
      using nth0a [of "\<lambda>v. 2 \<le> rankCountOf cs v"] nth1 [of "\<lambda>v. 2 \<le> rankCountOf cs v"]
        fU [of 0]
      by (auto intro!: band_encode)
    apply (rule if_chain)
    subgoal
      using nth0b [of "\<lambda>v. 2 \<le> rankCountOf cs v"] nU by (auto intro!: band_encode)
    subgoal
      using highs by (auto intro!: band_encode)
    done
qed

lemma evaluateHand_inBand: "evaluateHand cs = Inr e \<Longrightarrow> inBand e"
  by (auto simp: evaluateHand_def split: if_splits
      dest: evaluateFiveCards_inBand intro: evaluateSevenCards_inBand)

text \<open>
  Claim C3: for any two inputs that \<^verbatim>\<open>evaluateHand\<close> accepts (five cards or more),
  if the first is assigned a strictly higher category than the second, then the value
  of the first is strictly greater than the value of the second, whatever the kickers:
  no kicker code reaches the category digit.
\<close>

theorem category_dominates_kickers:
  assumes "evaluateHand cs1 = Inr e1" and "evaluateHand cs2 = Inr e2"
      and "rankNum (HandEvaluation.rank e1) > rankNum (HandEvaluation.rank e2)"
  shows "num_gt (value e1) (value e2)"
proof -
  from inBandD [OF evaluateHand_inBand [OF assms(1)]] obtain v1 where
    v1: "value e1 = Num v1" "rankNum (HandEvaluation.rank e1) * 1000000000 \<le> v1" by blast
  from inBandD [OF evaluateHand_inBand [OF assms(2)]] obtain v2 where
    v2: "value e2 = Num v2" "v2 < rankNum (HandEvaluation.rank e2) * 1000000000 + 1000000000" by blast
  from assms(3) have "rankNum (HandEvaluation.rank e2) * 1000000000 + 1000000000
                       \<le> rankNum (HandEvaluation.rank e1) * 1000000000" by simp
  with v1 v2 show ?thesis by simp
qed


theorem category_dominates_kickers_witness:
  "evaluateHand wheel = Inr \<lparr>rank = STRAIGHT, value = Num 5000000005\<rparr>
   \<and> evaluateHand tripleAces = Inr \<lparr>rank = THREE_OF_A_KIND, value = Num 4000003357\<rparr>
   \<and> num_gt (Num 5000000005) (Num 4000003357)"
proof -
  have a: "evaluateHand wheel = Inr \<lparr>rank = STRAIGHT, value = Num 5000000005\<rparr>"
    by code_simp
  have b: "evaluateHand tripleAces = Inr \<lparr>rank = THREE_OF_A_KIND, value = Num 4000003357\<rparr>"
    by code_simp
  from category_dominates_kickers [OF a b] a b show ?thesis by simp
qed

section \<open>The wheel\<close>

lemma sort_map_insertCard:
  "sort (map f (insertCard b c ds)) = insort (f c) (sort (map f ds))"
  for f :: "Card \<Rightarrow> int"
  by (induction ds) (auto simp: insort_left_comm)

lemma sort_map_sortCards: "sort (map f (sortCards cs b)) = sort (map f cs)"
  for f :: "Card \<Rightarrow> int"
  unfolding sortCards_def by (induction cs) (auto simp: sort_map_insertCard)

lemma set_insertCard: "set (insertCard b c ds) = insert c (set ds)"
  by (induction ds) auto

lemma set_sortCards: "set (sortCards cs b) = set cs"
  unfolding sortCards_def by (induction cs) (auto simp: set_insertCard)

lemma distinct_map_outer: "distinct (map (\<lambda>c. g (f c)) xs) \<Longrightarrow> distinct (map f xs)"
  by (induction xs) auto

lemma rankCount_distinct: "distinct (map Card.rank cs) \<Longrightarrow> rankCount cs r \<le> 1"
  unfolding rankCount_def by (induction cs) (auto simp: filter_empty_conv comp_def image_iff)

lemma six_high_straight_value:
  assumes len: "length cs = 5"
    and vals: "sort (map (\<lambda>c. rankToValue (Card.rank c) True) cs) = [2, 3, 4, 5, 6]"
  shows "evaluateHand cs = Inr \<lparr>rank = STRAIGHT, value = Num 5000000006\<rparr>
       \<or> evaluateHand cs = Inr \<lparr>rank = STRAIGHT_FLUSH, value = Num 9000000006\<rparr>"
proof -
  let ?v = "\<lambda>c. rankToValue (Card.rank c) True"
  let ?s = "sortCards cs True"
  have sv: "sort (map ?v ?s) = [2, 3, 4, 5, 6]"
    using vals by (simp only: sort_map_sortCards)
  have "distinct (sort (map ?v ?s))" unfolding sv by simp
  then have "distinct (map ?v ?s)" by simp
  then have dr: "distinct (map Card.rank ?s)" by (rule distinct_map_outer)
  have cnt: "rankCount ?s r \<noteq> 4" "rankCount ?s r \<noteq> 3" for r
    using rankCount_distinct [OF dr, of r] by auto
  have st: "checkStraight ?s = Some \<lparr>rank = STRAIGHT, value = Num 5000000006\<rparr>"
    unfolding checkStraight_def Let_def sv by (simp add: lastNum_def CATEGORY_BASE_def)
  have "set (map ?v ?s) = set (sort (map ?v ?s))" by simp
  also have "\<dots> = {2, 3, 4, 5, 6}" unfolding sv by simp
  finally have setv: "set (map ?v ?s) = {2, 3, 4, 5, 6}" .
  have "RA \<notin> set (map Card.rank ?s)"
  proof
    assume "RA \<in> set (map Card.rank ?s)"
    then obtain c where "c \<in> set ?s" "Card.rank c = RA" by auto
    then have "14 \<in> set (map ?v ?s)" by force
    with setv show False by simp
  qed
  then have rf: "checkRoyalFlush ?s = None" by (simp add: checkRoyalFlush_def)
  have q: "checkFourOfAKind ?s = None"
    by (auto simp: checkFourOfAKind_alt cnt find_None_iff split: option.splits)
  have fh: "checkFullHouse ?s = None"
    by (auto simp: checkFullHouse_alt cnt find_None_iff split: option.splits)
  have fl: "checkFlush ?s = None" using st by (simp add: checkFlush_def)
  have sf: "checkStraightFlush ?s =
              (if isFlush ?s then Some \<lparr>rank = STRAIGHT_FLUSH, value = Num 9000000006\<rparr> else None)"
    using st by (simp add: checkStraightFlush_def Let_def CATEGORY_BASE_def)
  have "evaluateHand cs = evaluateFiveCards cs" using len by (simp add: evaluateHand_def)
  also have "\<dots> = Inr (if isFlush ?s then \<lparr>rank = STRAIGHT_FLUSH, value = Num 9000000006\<rparr>
                        else \<lparr>rank = STRAIGHT, value = Num 5000000006\<rparr>)"
    unfolding evaluateFiveCards_def Let_def using len
    by (simp add: rf sf q fh fl st firstHit_simps)
  finally show ?thesis by auto
qed

text \<open>
  Claim C9: \<^verbatim>\<open>evaluateHand\<close> on A\<spadesuit> 2\<spadesuit> 3\<heartsuit> 4\<diamondsuit> 5\<clubsuit> returns category
  Straight with 5 as the effective high card (value \<open>5 * CATEGORY_BASE + 5\<close>); every
  five cards with the values 2, 3, 4, 5, 6, that is every six-high straight (also when it
  is a straight flush), evaluate to a strictly greater value; and every hand that
  \<^verbatim>\<open>evaluateHand\<close> puts in a category below Straight (three of a kind, two pair, pair,
  high card: the hands that a straight beats in the category order) has a strictly smaller
  value.
\<close>

theorem wheel_is_five_high_straight:
  "evaluateHand wheel = Inr \<lparr>rank = STRAIGHT, value = Num (rankNum STRAIGHT * CATEGORY_BASE + 5)\<rparr>
   \<and> (\<forall>cs. length cs = 5
            \<and> sort (map (\<lambda>c. rankToValue (Card.rank c) True) cs) = [2, 3, 4, 5, 6]
        \<longrightarrow> (\<exists>e. evaluateHand cs = Inr e
                 \<and> (HandEvaluation.rank e = STRAIGHT \<or> HandEvaluation.rank e = STRAIGHT_FLUSH)
                 \<and> num_gt (value e) (Num (rankNum STRAIGHT * CATEGORY_BASE + 5))))
   \<and> (\<forall>cs e. evaluateHand cs = Inr e \<and> rankNum (HandEvaluation.rank e) < rankNum STRAIGHT
        \<longrightarrow> num_gt (Num (rankNum STRAIGHT * CATEGORY_BASE + 5)) (value e))"
proof (intro conjI allI impI)
  show "evaluateHand wheel = Inr \<lparr>rank = STRAIGHT, value = Num (rankNum STRAIGHT * CATEGORY_BASE + 5)\<rparr>"
    by code_simp
next
  fix cs
  assume "length cs = 5 \<and> sort (map (\<lambda>c. rankToValue (Card.rank c) True) cs) = [2, 3, 4, 5, 6]"
  then have "evaluateHand cs = Inr \<lparr>rank = STRAIGHT, value = Num 5000000006\<rparr>
       \<or> evaluateHand cs = Inr \<lparr>rank = STRAIGHT_FLUSH, value = Num 9000000006\<rparr>"
    using six_high_straight_value by blast
  then show "\<exists>e. evaluateHand cs = Inr e
                 \<and> (HandEvaluation.rank e = STRAIGHT \<or> HandEvaluation.rank e = STRAIGHT_FLUSH)
                 \<and> num_gt (value e) (Num (rankNum STRAIGHT * CATEGORY_BASE + 5))"
    by (auto simp: CATEGORY_BASE_def)
next
  fix cs e
  assume a: "evaluateHand cs = Inr e \<and> rankNum (HandEvaluation.rank e) < rankNum STRAIGHT"
  from inBandD [OF evaluateHand_inBand [of cs e]] a obtain v where
    v: "value e = Num v" "v < rankNum (HandEvaluation.rank e) * 1000000000 + 1000000000" by blast
  from a have "rankNum (HandEvaluation.rank e) * 1000000000 + 1000000000 \<le> 5000000000" by simp
  with v show "num_gt (Num (rankNum STRAIGHT * CATEGORY_BASE + 5)) (value e)"
    by (simp add: CATEGORY_BASE_def)
qed

theorem wheel_is_five_high_straight_witness:
  "evaluateHand sixHighStraight = Inr \<lparr>rank = STRAIGHT, value = Num 5000000006\<rparr>
   \<and> num_gt (Num 5000000006) (Num 5000000005)
   \<and> evaluateHand tripleAces = Inr \<lparr>rank = THREE_OF_A_KIND, value = Num 4000003357\<rparr>
   \<and> num_gt (Num 5000000005) (Num 4000003357)"
proof -
  have six: "evaluateHand sixHighStraight = Inr \<lparr>rank = STRAIGHT, value = Num 5000000006\<rparr>"
    by code_simp
  have pre: "length sixHighStraight = 5
     \<and> sort (map (\<lambda>c. rankToValue (Card.rank c) True) sixHighStraight) = [2, 3, 4, 5, 6]"
    by code_simp
  have low: "evaluateHand tripleAces = Inr \<lparr>rank = THREE_OF_A_KIND, value = Num 4000003357\<rparr>"
    by code_simp
  note hi = wheel_is_five_high_straight [THEN conjunct2, THEN conjunct1, rule_format,
      of sixHighStraight, OF pre]
  note lo = wheel_is_five_high_straight [THEN conjunct2, THEN conjunct2, rule_format,
      of tripleAces "\<lparr>rank = THREE_OF_A_KIND, value = Num 4000003357\<rparr>"]
  from hi lo six low show ?thesis by (auto simp: CATEGORY_BASE_def)
qed

section \<open>The direct classifier and the best five-card subset\<close>

subsection \<open>What the straight scan finds\<close>

lemma straightScan_spec:
  assumes "finite W" and "sorted_wrt (<) (p # xs)" and "set xs = {y \<in> W. p < y}" and "p \<in> W"
    and "1 \<le> r" and "\<forall>k < r. p - int k \<in> W" and "p - int r \<notin> W"
    and "best = bestRunUpTo W p"
  shows "straightScan p r best xs = bestRun W"
  using assms
proof (induction xs arbitrary: p r best)
  case Nil
  then have "{h \<in> W. h \<le> p \<and> runAt W h} = {h \<in> W. runAt W h}" by auto
  with Nil show ?case by (simp add: bestRun_def bestRunUpTo_def)
next
  case (Cons x xs)
  from Cons.prems(2) have px: "p < x" and sx: "sorted_wrt (<) (x # xs)" by auto
  from Cons.prems(3) have xW: "x \<in> W" by auto
  from Cons.prems(2,3) have gap: "\<And>y. y \<in> W \<Longrightarrow> p < y \<Longrightarrow> x \<le> y"
    by (metis (no_types, lifting) list.set_intros(1) mem_Collect_eq order_less_imp_le
        order_refl set_ConsD sorted_wrt.simps(2))
  have rest: "set xs = {y \<in> W. x < y}"
  proof -
    have "set xs = set (x # xs) - {x}" using Cons.prems(2) by auto
    also have "\<dots> = {y \<in> W. p < y} - {x}" using Cons.prems(3) by simp
    also have "\<dots> = {y \<in> W. x < y}" using gap px by force
    finally show ?thesis .
  qed
  let ?H = "\<lambda>q. {h \<in> W. h \<le> q \<and> runAt W h}"
  have fin: "finite (?H q)" for q using Cons.prems(1) by simp
  have mid: "h \<le> p \<or> h = x" if "h \<in> W" "h \<le> x" for h
    using gap [of h] that by (cases "p < h") auto
  have Hx: "?H x = ?H p \<union> (if runAt W x then {x} else {})"
    using px xW by (auto dest: mid)
  show ?case
  proof (cases "x = p + 1")
    case True
    have inv1: "\<forall>k < r + 1. x - int k \<in> W"
    proof (intro allI impI)
      fix k assume k: "k < r + 1"
      show "x - int k \<in> W"
      proof (cases k)
        case 0
        then show ?thesis using xW by simp
      next
        case (Suc j)
        with k have "j < r" by simp
        with Cons.prems(6) have "p - int j \<in> W" by simp
        then show ?thesis using True Suc by (simp add: algebra_simps)
      qed
    qed
    have inv2: "x - int (r + 1) \<notin> W" using Cons.prems(7) True by (simp add: algebra_simps)
    have run: "runAt W x \<longleftrightarrow> 5 \<le> r + 1"
    proof
      assume ra: "runAt W x"
      show "5 \<le> r + 1"
      proof (rule ccontr)
        assume "\<not> 5 \<le> r + 1"
        then have "int (r + 1) \<in> {0..4}" by auto
        with ra have "x - int (r + 1) \<in> W" unfolding runAt_def by blast
        with inv2 show False by simp
      qed
    next
      assume r5: "5 \<le> r + 1"
      show "runAt W x" unfolding runAt_def
      proof
        fix k :: int assume k: "k \<in> {0..4}"
        then have "nat k < r + 1" using r5 by auto
        with inv1 have "x - int (nat k) \<in> W" by blast
        with k show "x - k \<in> W" by simp
      qed
    qed
    have best': "(if r + 1 \<ge> 5 then Some x else best) = bestRunUpTo W x"
    proof (cases "5 \<le> r + 1")
      case True
      with run have ra: "runAt W x" by simp
      have "Max (?H x) = x"
      proof (rule Max_eqI [OF fin])
        show "x \<in> ?H x" using xW ra by simp
      qed auto
      moreover have "?H x \<noteq> {}" using xW ra by auto
      ultimately show ?thesis using True by (simp add: bestRunUpTo_def)
    next
      case False
      with run have "\<not> runAt W x" by simp
      with Hx have "?H x = ?H p" by simp
      with False Cons.prems(8) show ?thesis by (simp add: bestRunUpTo_def)
    qed
    have "straightScan p r best (x # xs)
            = straightScan x (r + 1) (if r + 1 \<ge> 5 then Some x else best) xs"
      using True by simp
    also have "\<dots> = bestRun W"
      by (rule Cons.IH [OF Cons.prems(1) sx rest xW _ inv1 inv2 best']) simp
    finally show ?thesis .
  next
    case False
    with px have far: "p + 1 < x" by simp
    have nox: "x - 1 \<notin> W"
    proof
      assume "x - 1 \<in> W"
      moreover from far have "p < x - 1" by simp
      ultimately have "x \<le> x - 1" by (rule gap)
      then show False by simp
    qed
    then have nr: "\<not> runAt W x" unfolding runAt_def by (auto intro: bexI [of _ 1])
    with Hx have same: "?H x = ?H p" by simp
    have best': "best = bestRunUpTo W x"
      using Cons.prems(8) same by (simp add: bestRunUpTo_def)
    have "straightScan p r best (x # xs) = straightScan x 1 best xs"
      using False px by simp
    also have "\<dots> = bestRun W"
      by (rule Cons.IH [OF Cons.prems(1) sx rest xW _ _ _ best']) (use xW nox in auto)
    finally show ?thesis .
  qed
qed

lemma wheelSet_bounds:
  assumes "\<forall>v \<in> S. 2 \<le> v \<and> v \<le> 14" and "x \<in> wheelSet S"
  shows "1 \<le> x \<and> x \<le> 14 \<and> (x \<noteq> 1 \<longrightarrow> x \<in> S) \<and> (x = 1 \<longrightarrow> 14 \<in> S)"
  using assms unfolding wheelSet_def by (auto split: if_splits)

lemma run_needs_five:
  assumes fin: "finite S" and rng: "\<forall>v \<in> S. 2 \<le> v \<and> v \<le> 14"
    and h: "h \<in> wheelSet S" and run: "runAt (wheelSet S) h"
  shows "5 \<le> card S"
proof -
  from run have mem: "h - 4 \<in> wheelSet S" "h - 3 \<in> wheelSet S" "h - 2 \<in> wheelSet S"
    "h - 1 \<in> wheelSet S" unfolding runAt_def by auto
  note b = wheelSet_bounds [OF rng]
  from b [OF mem(1)] have h5: "5 \<le> h" by simp
  define T where "T = (if h = 5 then {2, 3, 4, 5, 14} else {h - 4, h - 3, h - 2, h - 1, h})"
  have sub: "T \<subseteq> S"
  proof (cases "h = 5")
    case True
    with b [OF mem(1)] b [OF mem(2)] b [OF mem(3)] b [OF mem(4)] b [OF h]
    show ?thesis unfolding T_def by auto
  next
    case False
    with h5 have "5 < h" by simp
    with b [OF mem(1)] b [OF mem(2)] b [OF mem(3)] b [OF mem(4)] b [OF h] False
    show ?thesis unfolding T_def by auto
  qed
  have "card T = 5" unfolding T_def by auto
  with card_mono [OF fin sub] show ?thesis by simp
qed

lemma findStraightHigh_spec:
  assumes srt: "sorted_wrt (<) vs" and rng: "\<forall>v \<in> set vs. 2 \<le> v \<and> v \<le> 14"
  shows "findStraightHigh vs = bestRun (wheelSet (set vs))"
proof (cases "length vs < 5")
  case True
  have "{h \<in> wheelSet (set vs). runAt (wheelSet (set vs)) h} = {}"
  proof (rule ccontr)
    assume "{h \<in> wheelSet (set vs). runAt (wheelSet (set vs)) h} \<noteq> {}"
    then obtain h where "h \<in> wheelSet (set vs)" "runAt (wheelSet (set vs)) h" by auto
    from run_needs_five [OF _ rng this] have "5 \<le> card (set vs)" by simp
    with card_length [of vs] True show False by simp
  qed
  with True show ?thesis by (simp add: findStraightHigh_def bestRun_def)
next
  case False
  define w where "w = (if 14 \<in> set vs then 1 # vs else vs)"
  let ?W = "wheelSet (set vs)"
  have setw: "set w = ?W" unfolding w_def wheelSet_def by auto
  have sw: "sorted_wrt (<) w" unfolding w_def using srt rng by auto
  from False have "w \<noteq> []" unfolding w_def by auto
  then obtain p xs where w: "w = p # xs" by (cases w) auto
  from sw w have lt: "\<forall>y \<in> set xs. p < y" by simp
  from sw w have dx: "p \<notin> set xs" by auto
  have fin: "finite ?W" unfolding setw [symmetric] by simp
  have pW: "p \<in> ?W" unfolding setw [symmetric] w by simp
  have xs: "set xs = {y \<in> ?W. p < y}" unfolding setw [symmetric] w using lt by auto
  have low: "p - 1 \<notin> ?W"
  proof
    assume "p - 1 \<in> ?W"
    then have "p - 1 = p \<or> p - 1 \<in> set xs" unfolding setw [symmetric] w by simp
    with lt show False by auto
  qed
  have H: "{h \<in> ?W. h \<le> p \<and> runAt ?W h} = {}"
  proof (rule ccontr)
    assume "{h \<in> ?W. h \<le> p \<and> runAt ?W h} \<noteq> {}"
    then obtain h where h: "h \<in> ?W" "h \<le> p" "runAt ?W h" by auto
    from h(1,2) lt have "h = p" unfolding setw [symmetric] w by auto
    with h(3) have "p - 1 \<in> ?W" unfolding runAt_def by auto
    with low show False ..
  qed
  have "findStraightHigh vs = straightScan p 1 None xs"
    using False w unfolding findStraightHigh_def w_def [symmetric] by (simp add: Let_def)
  also have "\<dots> = bestRun ?W"
    by (rule straightScan_spec [OF fin _ xs pW])
       (use sw w pW low H in \<open>auto simp: bestRunUpTo_def\<close>)
  finally show ?thesis .
qed

lemma bestRun_Some:
  assumes "finite W" and "bestRun W = Some h"
  shows "h \<in> W \<and> runAt W h \<and> (\<forall>h' \<in> W. runAt W h' \<longrightarrow> h' \<le> h)"
proof -
  let ?H = "{h \<in> W. runAt W h}"
  from assms(2) have ne: "?H \<noteq> {}" and h: "h = Max ?H"
    by (auto simp: bestRun_def split: if_splits)
  have fin: "finite ?H" using assms(1) by simp
  from Max_in [OF fin ne] h have "h \<in> ?H" by simp
  moreover have "h' \<le> h" if "h' \<in> ?H" for h' using Max_ge [OF fin that] h by simp
  ultimately show ?thesis by auto
qed

lemma bestRun_lower:
  assumes "finite W" and "h \<in> W" and "runAt W h"
  shows "\<exists>h'. bestRun W = Some h' \<and> h \<le> h'"
proof -
  let ?H = "{h \<in> W. runAt W h}"
  have fin: "finite ?H" using assms(1) by simp
  from assms have "h \<in> ?H" by simp
  then have "?H \<noteq> {}" "h \<le> Max ?H" using Max_ge [OF fin] by auto
  then show ?thesis by (simp add: bestRun_def)
qed

lemma wheelSet_mono: "S \<subseteq> T \<Longrightarrow> wheelSet S \<subseteq> wheelSet T"
  unfolding wheelSet_def by auto

lemma runAt_mono: "W \<subseteq> W' \<Longrightarrow> runAt W h \<Longrightarrow> runAt W' h"
  unfolding runAt_def by auto

lemma bestRun_mono:
  assumes "finite T" and "S \<subseteq> T" and "bestRun (wheelSet S) = Some h"
  shows "\<exists>h'. bestRun (wheelSet T) = Some h' \<and> h \<le> h'"
proof -
  have fT: "finite (wheelSet T)" using assms(1) by (simp add: wheelSet_def)
  have fS: "finite (wheelSet S)"
    using finite_subset [OF assms(2,1)] by (simp add: wheelSet_def)
  from bestRun_Some [OF fS assms(3)] have "h \<in> wheelSet S" "runAt (wheelSet S) h" by auto
  with wheelSet_mono [OF assms(2)] have "h \<in> wheelSet T" "runAt (wheelSet T) h"
    by (auto intro: runAt_mono)
  from bestRun_lower [OF fT this] show ?thesis .
qed

subsection \<open>The pieces of the direct classifier\<close>

lemma evaluateSevenCards_pieces:
  "evaluateSevenCards cs =
     (if truthy (sfHigh cs) then
        \<lparr>rank = (if the (sfHigh cs) = 14 then ROYAL_FLUSH else STRAIGHT_FLUSH),
         value = Num (rankNum (if the (sfHigh cs) = 14 then ROYAL_FLUSH else STRAIGHT_FLUSH)
                        * 1000000000 + the (sfHigh cs))\<rparr>
      else if truthy (quadOf cs) then
        \<lparr>rank = FOUR_OF_A_KIND,
         value = Num (8000000000 + (the (quadOf cs) * 15
                    + orElse (find (\<lambda>v. v \<noteq> the (quadOf cs)) (valuesDesc cs)) 2))\<rparr>
      else if cFH cs then
        \<lparr>rank = FULL_HOUSE,
         value = Num (7000000000 + (hd (tripsDesc cs) * 15
                    + hd (filter (\<lambda>v. v \<noteq> hd (tripsDesc cs)) (pairsDesc cs))))\<rparr>
      else if length (tripsDesc cs) \<ge> 2 then
        \<lparr>rank = FULL_HOUSE,
         value = Num (7000000000 + (hd (tripsDesc cs) * 15 + tripsDesc cs ! 1))\<rparr>
      else if flushSuitOf cs \<noteq> None then
        \<lparr>rank = FLUSH,
         value = Num (6000000000
                      + encodeInts (take 5 (rev (sort (suitValues cs (the (flushSuitOf cs)))))))\<rparr>
      else if truthy (findStraightHigh (uniqueValuesAsc cs)) then
        \<lparr>rank = STRAIGHT, value = Num (5000000000 + the (findStraightHigh (uniqueValuesAsc cs)))\<rparr>
      else if tripsDesc cs \<noteq> [] then
        \<lparr>rank = THREE_OF_A_KIND,
         value = Num (4000000000
                      + encodeInts [hd (tripsDesc cs),
                          orElse (nthOpt (take 2 (filter (\<lambda>v. v \<noteq> hd (tripsDesc cs)) (valuesDesc cs))) 0) 0,
                          orElse (nthOpt (take 2 (filter (\<lambda>v. v \<noteq> hd (tripsDesc cs)) (valuesDesc cs))) 1) 0])\<rparr>
      else if length (pairsDesc cs) \<ge> 2 then
        \<lparr>rank = TWO_PAIR,
         value = Num (3000000000
                      + encodeInts [pairsDesc cs ! 0, pairsDesc cs ! 1,
                          orElse (find (\<lambda>v. v \<noteq> pairsDesc cs ! 0 \<and> v \<noteq> pairsDesc cs ! 1)
                                       (valuesDesc cs)) 0])\<rparr>
      else if length (pairsDesc cs) = 1 then
        \<lparr>rank = PAIR,
         value = Num (2000000000
                      + encodeInts [pairsDesc cs ! 0,
                          orElse (nthOpt (take 3 (filter (\<lambda>v. v \<noteq> pairsDesc cs ! 0) (valuesDesc cs))) 0) 0,
                          orElse (nthOpt (take 3 (filter (\<lambda>v. v \<noteq> pairsDesc cs ! 0) (valuesDesc cs))) 1) 0,
                          orElse (nthOpt (take 3 (filter (\<lambda>v. v \<noteq> pairsDesc cs ! 0) (valuesDesc cs))) 2) 0])\<rparr>
      else
        \<lparr>rank = HIGH_CARD, value = Num (1000000000 + encodeInts (take 5 (valuesDesc cs)))\<rparr>)"
  unfolding evaluateSevenCards_def Let_def sfHigh_def quadOf_def cFH_def tripsDesc_def pairsDesc_def
    valuesDesc_def suitValues_def
  by (simp add: encodeInts_def Suc_le_eq cong: if_cong)

lemma uniqueValuesAsc_strict: "sorted_wrt (<) (uniqueValuesAsc cs)"
  unfolding uniqueValuesAsc_def by (simp add: strict_sorted_iff)

lemma valuesDesc_strict: "sorted_wrt (>) (valuesDesc cs)"
  unfolding valuesDesc_def using uniqueValuesAsc_strict [of cs]
  by (simp add: sorted_wrt_rev)

lemma valuesDesc_set: "set (valuesDesc cs) = cardVal ` set cs"
  unfolding valuesDesc_def cardVal_def by (simp add: uniqueValuesAsc_set)

lemma cardVal_range: "2 \<le> cardVal c \<and> cardVal c \<le> 14"
  unfolding cardVal_def using rankToValue_bounds by simp

lemma valuesDesc_range: "v \<in> set (valuesDesc cs) \<Longrightarrow> 2 \<le> v \<and> v \<le> 14"
  unfolding valuesDesc_set using cardVal_range by auto

lemma tripsDesc_strict: "sorted_wrt (>) (tripsDesc cs)"
  unfolding tripsDesc_def by (rule sorted_wrt_filter [OF valuesDesc_strict])

lemma pairsDesc_strict: "sorted_wrt (>) (pairsDesc cs)"
  unfolding pairsDesc_def by (rule sorted_wrt_filter [OF valuesDesc_strict])

lemma suitValues_set: "set (suitValues cs s) = cardVal ` {c \<in> set cs. suit c = s}"
  unfolding suitValues_def bySuit_def cardVal_def by auto

lemma suitValues_strict: "sorted_wrt (<) (sort (suitValues cs s))"
  unfolding suitValues_def by (simp add: strict_sorted_iff)

lemma suitValues_desc: "sorted_wrt (>) (rev (sort (suitValues cs s)))"
  using suitValues_strict [of cs s] by (simp add: sorted_wrt_rev)

lemma suitValues_range: "v \<in> set (suitValues cs s) \<Longrightarrow> 2 \<le> v \<and> v \<le> 14"
  unfolding suitValues_set using cardVal_range by auto

lemma findStraightHigh_values:
  "findStraightHigh (uniqueValuesAsc cs) = bestRun (wheelSet (cardVal ` set cs))"
  using findStraightHigh_spec [OF uniqueValuesAsc_strict, of cs] uniqueValues_range [of _ cs]
  by (simp add: uniqueValuesAsc_set cardVal_def [abs_def])

lemma findStraightHigh_suit:
  "findStraightHigh (sort (suitValues cs s))
     = bestRun (wheelSet (cardVal ` {c \<in> set cs. suit c = s}))"
  using findStraightHigh_spec [OF suitValues_strict, of cs s] suitValues_range [of _ cs s]
  by (simp add: suitValues_set)

lemma bestRun_pos:
  assumes "finite S" and "\<forall>v \<in> S. 2 \<le> v \<and> v \<le> 14" and "bestRun (wheelSet S) = Some h"
  shows "5 \<le> h \<and> h \<le> 14"
proof -
  have fin: "finite (wheelSet S)" using assms(1) by (simp add: wheelSet_def)
  from bestRun_Some [OF fin assms(3)] have h: "h \<in> wheelSet S" "runAt (wheelSet S) h" by auto
  then have "h - 4 \<in> wheelSet S" unfolding runAt_def by auto
  from wheelSet_bounds [OF assms(2) this] wheelSet_bounds [OF assms(2) h(1)] show ?thesis by simp
qed

lemma truthy_Some: "truthy (Some h) = (h \<noteq> 0)"
  by (simp add: truthy_def)

lemma truthy_None: "truthy None = False"
  by (simp add: truthy_def)

lemma sfHigh_pos:
  assumes "sfHigh cs = Some h"
  shows "5 \<le> h \<and> h \<le> 14"
proof -
  from assms obtain s where "bestRun (wheelSet (cardVal ` {c \<in> set cs. suit c = s})) = Some h"
    unfolding sfHigh_def findStraightHigh_suit by (auto split: option.splits)
  then show ?thesis
    by (rule bestRun_pos [rotated 2]) (auto simp: cardVal_range)
qed

lemma straight_pos: "findStraightHigh (uniqueValuesAsc cs) = Some h \<Longrightarrow> 5 \<le> h \<and> h \<le> 14"
  unfolding findStraightHigh_values
  by (rule bestRun_pos [where S = "cardVal ` set cs"]) (auto simp: cardVal_range)

lemma quadOf_Some: "quadOf cs = Some q \<Longrightarrow> q \<in> set (valuesDesc cs) \<and> rankCountOf cs q = 4"
  unfolding quadOf_def by (auto dest: find_SomeD)

lemma E7_sf:
  assumes "sfHigh cs = Some h"
  shows "evaluateSevenCards cs =
           \<lparr>rank = (if h = 14 then ROYAL_FLUSH else STRAIGHT_FLUSH),
            value = Num ((if h = 14 then 10 else 9) * 1000000000 + h)\<rparr>"
  using assms sfHigh_pos [OF assms]
  by (subst evaluateSevenCards_pieces) (simp add: truthy_Some)

lemma E7_quad:
  assumes "sfHigh cs = None" and "quadOf cs = Some q"
  shows "evaluateSevenCards cs =
           \<lparr>rank = FOUR_OF_A_KIND,
            value = Num (8000000000 + (q * 15 + orElse (find (\<lambda>v. v \<noteq> q) (valuesDesc cs)) 2))\<rparr>"
  using assms valuesDesc_range [of q cs] quadOf_Some [OF assms(2)]
  by (subst evaluateSevenCards_pieces) (simp add: truthy_Some truthy_None)

lemma E7_fh:
  assumes "sfHigh cs = None" and "quadOf cs = None" and "cFH cs"
  shows "evaluateSevenCards cs =
           \<lparr>rank = FULL_HOUSE,
            value = Num (7000000000 + (hd (tripsDesc cs) * 15
                    + hd (filter (\<lambda>v. v \<noteq> hd (tripsDesc cs)) (pairsDesc cs))))\<rparr>"
  using assms by (subst evaluateSevenCards_pieces) (simp add: truthy_None)

lemma trips_are_pairs: "set (tripsDesc cs) \<subseteq> set (pairsDesc cs)"
  unfolding tripsDesc_def pairsDesc_def by auto

lemma no_second_trips:
  assumes "\<not> cFH cs"
  shows "length (tripsDesc cs) \<le> 1"
proof (rule ccontr)
  assume "\<not> length (tripsDesc cs) \<le> 1"
  then obtain a b rest where t: "tripsDesc cs = a # b # rest"
    by (cases "tripsDesc cs"; cases "tl (tripsDesc cs)") auto
  with tripsDesc_strict [of cs] have "b \<noteq> a" by auto
  moreover from t trips_are_pairs [of cs] have "b \<in> set (pairsDesc cs)" by auto
  ultimately have "b \<in> set (filter (\<lambda>v. v \<noteq> hd (tripsDesc cs)) (pairsDesc cs))"
    using t by simp
  then have "filter (\<lambda>v. v \<noteq> hd (tripsDesc cs)) (pairsDesc cs) \<noteq> []" by force
  then have "cFH cs" unfolding cFH_def using t by simp
  with assms show False ..
qed

lemma E7_flush:
  assumes "sfHigh cs = None" and "quadOf cs = None" and "\<not> cFH cs" and "flushSuitOf cs = Some s"
  shows "evaluateSevenCards cs =
           \<lparr>rank = FLUSH,
            value = Num (6000000000 + encodeInts (take 5 (rev (sort (suitValues cs s)))))\<rparr>"
  using assms no_second_trips [OF assms(3)]
  by (subst evaluateSevenCards_pieces) (simp add: truthy_None)

lemma sfHigh_no_flush: "flushSuitOf cs = None \<Longrightarrow> sfHigh cs = None"
  by (simp add: sfHigh_def)

lemma E7_straight:
  assumes "quadOf cs = None" and "\<not> cFH cs" and "flushSuitOf cs = None"
    and "findStraightHigh (uniqueValuesAsc cs) = Some h"
  shows "evaluateSevenCards cs = \<lparr>rank = STRAIGHT, value = Num (5000000000 + h)\<rparr>"
  using assms no_second_trips [OF assms(2)] sfHigh_no_flush [OF assms(3)] straight_pos [OF assms(4)]
  by (subst evaluateSevenCards_pieces) (simp add: truthy_None truthy_Some)

lemma E7_trips:
  assumes "quadOf cs = None" and "\<not> cFH cs" and "flushSuitOf cs = None"
    and "findStraightHigh (uniqueValuesAsc cs) = None" and "tripsDesc cs \<noteq> []"
  shows "evaluateSevenCards cs =
           \<lparr>rank = THREE_OF_A_KIND,
            value = Num (4000000000
                      + encodeInts [hd (tripsDesc cs),
                          orElse (nthOpt (take 2 (filter (\<lambda>v. v \<noteq> hd (tripsDesc cs)) (valuesDesc cs))) 0) 0,
                          orElse (nthOpt (take 2 (filter (\<lambda>v. v \<noteq> hd (tripsDesc cs)) (valuesDesc cs))) 1) 0])\<rparr>"
  using assms no_second_trips [OF assms(2)] sfHigh_no_flush [OF assms(3)]
  by (subst evaluateSevenCards_pieces) (simp add: truthy_None)

lemma E7_twopair:
  assumes "quadOf cs = None" and "\<not> cFH cs" and "flushSuitOf cs = None"
    and "findStraightHigh (uniqueValuesAsc cs) = None" and "tripsDesc cs = []"
    and "2 \<le> length (pairsDesc cs)"
  shows "evaluateSevenCards cs =
           \<lparr>rank = TWO_PAIR,
            value = Num (3000000000
                      + encodeInts [pairsDesc cs ! 0, pairsDesc cs ! 1,
                          orElse (find (\<lambda>v. v \<noteq> pairsDesc cs ! 0 \<and> v \<noteq> pairsDesc cs ! 1)
                                       (valuesDesc cs)) 0])\<rparr>"
  using assms sfHigh_no_flush [OF assms(3)]
  by (subst evaluateSevenCards_pieces) (simp add: truthy_None)

lemma E7_pair:
  assumes "quadOf cs = None" and "\<not> cFH cs" and "flushSuitOf cs = None"
    and "findStraightHigh (uniqueValuesAsc cs) = None" and "tripsDesc cs = []"
    and "length (pairsDesc cs) = 1"
  shows "evaluateSevenCards cs =
           \<lparr>rank = PAIR,
            value = Num (2000000000
                      + encodeInts [pairsDesc cs ! 0,
                          orElse (nthOpt (take 3 (filter (\<lambda>v. v \<noteq> pairsDesc cs ! 0) (valuesDesc cs))) 0) 0,
                          orElse (nthOpt (take 3 (filter (\<lambda>v. v \<noteq> pairsDesc cs ! 0) (valuesDesc cs))) 1) 0,
                          orElse (nthOpt (take 3 (filter (\<lambda>v. v \<noteq> pairsDesc cs ! 0) (valuesDesc cs))) 2) 0])\<rparr>"
  using assms sfHigh_no_flush [OF assms(3)]
  by (subst evaluateSevenCards_pieces) (simp add: truthy_None)

lemma E7_high:
  assumes "quadOf cs = None" and "flushSuitOf cs = None"
    and "findStraightHigh (uniqueValuesAsc cs) = None" and "pairsDesc cs = []"
  shows "evaluateSevenCards cs =
           \<lparr>rank = HIGH_CARD, value = Num (1000000000 + encodeInts (take 5 (valuesDesc cs)))\<rparr>"
proof -
  from assms(4) trips_are_pairs [of cs] have t: "tripsDesc cs = []" by auto
  then have "\<not> cFH cs" by (simp add: cFH_def)
  with assms t sfHigh_no_flush [OF assms(2)] show ?thesis
    by (subst evaluateSevenCards_pieces) (simp add: truthy_None)
qed

lemma strength7_band:
  "value (evaluateSevenCards cs) = Num (strength7 cs)"
  "rankNum (HandEvaluation.rank (evaluateSevenCards cs)) * 1000000000 \<le> strength7 cs"
  "strength7 cs < rankNum (HandEvaluation.rank (evaluateSevenCards cs)) * 1000000000 + 1000000000"
  using inBandD [OF evaluateSevenCards_inBand [of cs]] by (auto simp: strength7_def)

subsection \<open>Descending lists and the kicker code\<close>

lemma desc_nth_mono:
  "sorted_wrt (>) xs \<Longrightarrow> i \<le> j \<Longrightarrow> j < length xs \<Longrightarrow> xs ! j \<le> (xs ! i :: int)"
  by (cases "i = j") (auto simp: sorted_wrt_iff_nth_less intro: less_imp_le)

lemma desc_pointwise:
  fixes xs ys :: "int list"
  assumes "sorted_wrt (>) xs" and "sorted_wrt (>) ys" and "set xs \<subseteq> set ys"
  shows "length xs \<le> length ys \<and> (\<forall>i < length xs. xs ! i \<le> ys ! i)"
  using assms
proof (induction ys arbitrary: xs)
  case Nil
  then show ?case by simp
next
  case (Cons y ys)
  show ?case
  proof (cases xs)
    case Nil
    then show ?thesis by simp
  next
    case (Cons x xs')
    from Cons.prems(2) have sy: "sorted_wrt (>) ys" and ymax: "\<forall>z \<in> set ys. z < y" by auto
    from Cons.prems(1) Cons have sx: "sorted_wrt (>) xs'" and xmax: "\<forall>z \<in> set xs'. z < x" by auto
    show ?thesis
    proof (cases "x = y")
      case True
      have "set xs' \<subseteq> set ys"
      proof
        fix z assume z: "z \<in> set xs'"
        with xmax True have "z \<noteq> y" by auto
        with z Cons.prems(3) Cons show "z \<in> set ys" by auto
      qed
      from Cons.IH [OF sx sy this] True Cons show ?thesis
        by (auto simp: nth_Cons split: nat.splits)
    next
      case False
      from Cons.prems(3) Cons have "x \<in> set (y # ys)" by auto
      with False have xin: "x \<in> set ys" by simp
      with ymax have xy: "x < y" by simp
      have "set xs \<subseteq> set ys"
      proof
        fix z assume "z \<in> set xs"
        with Cons xmax have "z \<le> x" by auto
        with xy have "z \<noteq> y" by simp
        with \<open>z \<in> set xs\<close> Cons.prems(3) show "z \<in> set ys" by auto
      qed
      from Cons.IH [OF Cons.prems(1) sy this]
      have len: "length xs \<le> length ys" and pw: "\<forall>i < length xs. xs ! i \<le> ys ! i" by auto
      have "xs ! i \<le> (y # ys) ! i" if i: "i < length xs" for i
      proof (cases i)
        case 0
        with pw i have "xs ! 0 \<le> ys ! 0" by simp
        moreover from i len have "ys ! 0 \<in> set ys" by (cases ys) auto
        ultimately show ?thesis using ymax 0 by force
      next
        case (Suc j)
        from pw i have "xs ! i \<le> ys ! i" by simp
        also have "ys ! i \<le> ys ! j" using desc_nth_mono [OF sy, of j i] Suc i len by simp
        finally show ?thesis using Suc by simp
      qed
      with len show ?thesis by auto
    qed
  qed
qed

lemma desc_hd_ge:
  fixes xs :: "int list"
  shows "sorted_wrt (>) xs \<Longrightarrow> x \<in> set xs \<Longrightarrow> x \<le> hd xs"
  by (cases xs) auto

lemma find_as_filter: "find P xs = (case filter P xs of [] \<Rightarrow> None | x # _ \<Rightarrow> Some x)"
  by (induction xs) auto

lemma find_desc_ge:
  fixes xs :: "int list"
  assumes "sorted_wrt (>) xs" and "x \<in> set xs" and "P x"
  shows "\<exists>y. find P xs = Some y \<and> x \<le> y \<and> P y \<and> y \<in> set xs"
proof -
  from assms have ne: "filter P xs \<noteq> []" by (auto simp: filter_empty_conv)
  then obtain y ys where f: "filter P xs = y # ys" by (cases "filter P xs") auto
  have srt: "sorted_wrt (>) (filter P xs)" by (rule sorted_wrt_filter [OF assms(1)])
  from assms have "x \<in> set (filter P xs)" by simp
  with srt have "x \<le> hd (filter P xs)" by (rule desc_hd_ge)
  then have xy: "x \<le> y" using f by simp
  have "y \<in> set (filter P xs)" using f by simp
  then have py: "P y" "y \<in> set xs" by simp_all
  have "find P xs = Some y" using f by (simp add: find_as_filter)
  with xy py show ?thesis by blast
qed

lemma pad_nth: "i < length K \<Longrightarrow> pad K i = K ! i"
  by (auto simp: pad_def nthOpt_def orElse_def)

lemma pad_beyond: "length K \<le> i \<Longrightarrow> pad K i = 0"
  by (simp add: pad_def nthOpt_def orElse_def)

lemma pad_take: "i < n \<Longrightarrow> pad (take n K) i = pad K i"
  by (auto simp: pad_def nthOpt_def)

lemma pad_mono:
  assumes "length K \<le> length F" and "\<forall>i < length K. K ! i \<le> F ! i" and "\<forall>x \<in> set F. 0 \<le> x"
  shows "pad K i \<le> pad F i"
proof (cases "i < length K")
  case True
  with assms show ?thesis by (simp add: pad_nth)
next
  case False
  then have "pad K i = 0" by (simp add: pad_beyond)
  moreover have "0 \<le> pad F i"
    using assms(3) by (cases "i < length F") (auto simp: pad_nth pad_beyond)
  ultimately show ?thesis by simp
qed

lemma pad_range:
  assumes "\<forall>x \<in> set K. 0 \<le> x \<and> x \<le> 14"
  shows "0 \<le> pad K i \<and> pad K i \<le> 14"
  using assms by (cases "i < length K") (auto simp: pad_nth pad_beyond)

lemma foldl_code_ge:
  fixes a :: int
  shows "0 \<le> a \<Longrightarrow> \<forall>x \<in> set xs. 0 \<le> x \<Longrightarrow> a \<le> foldl (\<lambda>acc v. acc * 15 + v) a xs"
proof (induction xs arbitrary: a)
  case Nil
  then show ?case by simp
next
  case (Cons x xs)
  then have "a \<le> a * 15 + x" by simp
  also have "\<dots> \<le> foldl (\<lambda>acc v. acc * 15 + v) (a * 15 + x) xs"
    using Cons.prems by (intro Cons.IH) auto
  finally show ?case by simp
qed

lemma foldl_code_mono:
  fixes a b :: int
  assumes "a \<le> b" and "0 \<le> b" and "length xs \<le> length ys"
    and "\<forall>i < length xs. xs ! i \<le> ys ! i" and "\<forall>y \<in> set ys. 0 \<le> y"
  shows "foldl (\<lambda>acc v. acc * 15 + v) a xs \<le> foldl (\<lambda>acc v. acc * 15 + v) b ys"
  using assms
proof (induction xs arbitrary: a b ys)
  case Nil
  with foldl_code_ge [of b ys] show ?case by simp
next
  case (Cons x xs)
  from Cons.prems(3) obtain y ys' where ys: "ys = y # ys'" by (cases ys) auto
  from Cons.prems(4) ys have xy: "x \<le> y" by auto
  from Cons.prems(4) ys have pw: "\<forall>i < length xs. xs ! i \<le> ys' ! i" by auto
  have "foldl (\<lambda>acc v. acc * 15 + v) (a * 15 + x) xs \<le> foldl (\<lambda>acc v. acc * 15 + v) (b * 15 + y) ys'"
    by (rule Cons.IH) (use Cons.prems xy pw ys in auto)
  then show ?case by (simp add: ys)
qed

lemma encodeInts_desc_mono:
  assumes "sorted_wrt (>) A" and "sorted_wrt (>) B" and "set A \<subseteq> set B"
    and "\<forall>y \<in> set B. 0 \<le> y" and "length A \<le> n"
  shows "encodeInts A \<le> encodeInts (take n B)"
proof -
  from desc_pointwise [OF assms(1-3)]
  have len: "length A \<le> length B" and pw: "\<forall>i < length A. A ! i \<le> B ! i" by auto
  have "foldl (\<lambda>acc v. acc * 15 + v) 0 A \<le> foldl (\<lambda>acc v. acc * 15 + v) 0 (take n B)"
    by (rule foldl_code_mono) (use len pw assms(4,5) in \<open>auto dest: in_set_takeD\<close>)
  then show ?thesis by (simp add: encodeInts_def)
qed

subsection \<open>What a hand is worth at least\<close>

lemma strengthI:
  "evaluateSevenCards cs = \<lparr>rank = r, value = Num v\<rparr> \<Longrightarrow> strength7 cs = v"
  by (simp add: strength7_def)

lemma rank_sf: "sfHigh cs = Some h \<Longrightarrow> 9 \<le> rankNum (HandEvaluation.rank (evaluateSevenCards cs))"
  by (simp add: E7_sf)

lemma rank_quad: "quadOf cs = Some q \<Longrightarrow> 8 \<le> rankNum (HandEvaluation.rank (evaluateSevenCards cs))"
  by (cases "sfHigh cs") (auto simp: E7_quad dest: rank_sf)

lemma rank_fh: "cFH cs \<Longrightarrow> 7 \<le> rankNum (HandEvaluation.rank (evaluateSevenCards cs))"
  by (cases "sfHigh cs"; cases "quadOf cs") (auto simp: E7_fh dest: rank_sf rank_quad)

lemma rank_flush:
  "flushSuitOf cs = Some s \<Longrightarrow> 6 \<le> rankNum (HandEvaluation.rank (evaluateSevenCards cs))"
  by (cases "sfHigh cs"; cases "quadOf cs"; cases "cFH cs")
     (auto simp: E7_flush dest: rank_sf rank_quad rank_fh)

lemma rank_straight:
  assumes "findStraightHigh (uniqueValuesAsc cs) = Some h"
  shows "5 \<le> rankNum (HandEvaluation.rank (evaluateSevenCards cs))"
proof (cases "flushSuitOf cs")
  case None
  with assms show ?thesis
    by (cases "quadOf cs"; cases "cFH cs") (auto simp: E7_straight dest: rank_quad rank_fh)
next
  case (Some s)
  from rank_flush [OF this] show ?thesis by simp
qed

lemma rank_trips:
  assumes "tripsDesc cs \<noteq> []"
  shows "4 \<le> rankNum (HandEvaluation.rank (evaluateSevenCards cs))"
proof (cases "flushSuitOf cs")
  case None
  show ?thesis
  proof (cases "findStraightHigh (uniqueValuesAsc cs)")
    case no: None
    with assms None show ?thesis
      by (cases "quadOf cs"; cases "cFH cs") (auto simp: E7_trips dest: rank_quad rank_fh)
  next
    case (Some h)
    from rank_straight [OF this] show ?thesis by simp
  qed
next
  case (Some s)
  from rank_flush [OF this] show ?thesis by simp
qed

lemma rank_twopair:
  assumes "2 \<le> length (pairsDesc cs)"
  shows "3 \<le> rankNum (HandEvaluation.rank (evaluateSevenCards cs))"
proof (cases "tripsDesc cs = []")
  case t: True
  then have nfh: "\<not> cFH cs" by (simp add: cFH_def)
  show ?thesis
  proof (cases "flushSuitOf cs")
    case None
    show ?thesis
    proof (cases "findStraightHigh (uniqueValuesAsc cs)")
      case no: None
      with assms None t nfh show ?thesis
        by (cases "quadOf cs") (auto simp: E7_twopair dest: rank_quad)
    next
      case (Some h)
      from rank_straight [OF this] show ?thesis by simp
    qed
  next
    case (Some s)
    from rank_flush [OF this] show ?thesis by simp
  qed
next
  case False
  from rank_trips [OF this] show ?thesis by simp
qed

lemma rank_pair:
  assumes "pairsDesc cs \<noteq> []"
  shows "2 \<le> rankNum (HandEvaluation.rank (evaluateSevenCards cs))"
proof (cases "2 \<le> length (pairsDesc cs)")
  case True
  from rank_twopair [OF this] show ?thesis by simp
next
  case one: False
  from assms have "length (pairsDesc cs) \<noteq> 0" by simp
  with one have l1: "length (pairsDesc cs) = 1" by linarith
  show ?thesis
  proof (cases "tripsDesc cs = []")
    case t: True
    then have nfh: "\<not> cFH cs" by (simp add: cFH_def)
    show ?thesis
    proof (cases "flushSuitOf cs")
      case None
      show ?thesis
      proof (cases "findStraightHigh (uniqueValuesAsc cs)")
        case no: None
        with l1 None t nfh show ?thesis
          by (cases "quadOf cs") (auto simp: E7_pair dest: rank_quad)
      next
        case (Some h)
        from rank_straight [OF this] show ?thesis by simp
      qed
    next
      case (Some s)
      from rank_flush [OF this] show ?thesis by simp
    qed
  next
    case False
    from rank_trips [OF this] show ?thesis by simp
  qed
qed

lemma below_rank:
  "strength7 cs < (n + 1) * 1000000000 \<Longrightarrow> rankNum (HandEvaluation.rank (evaluateSevenCards cs)) \<le> n"
  using strength7_band(2) [of cs] by (simp add: algebra_simps)

lemma below_9: "strength7 cs < 9000000000 \<Longrightarrow> sfHigh cs = None"
  using below_rank [of cs 8] rank_sf [of cs] by (cases "sfHigh cs") auto

lemma below_8: "strength7 cs < 8000000000 \<Longrightarrow> sfHigh cs = None \<and> quadOf cs = None"
  using below_rank [of cs 7] rank_quad [of cs] below_9 [of cs] by (cases "quadOf cs") auto

lemma below_7: "strength7 cs < 7000000000 \<Longrightarrow> quadOf cs = None \<and> \<not> cFH cs"
  using below_rank [of cs 6] rank_fh [of cs] below_8 [of cs] by auto

lemma below_6: "strength7 cs < 6000000000 \<Longrightarrow> quadOf cs = None \<and> \<not> cFH cs \<and> flushSuitOf cs = None"
  using below_rank [of cs 5] rank_flush [of cs] below_7 [of cs] by (cases "flushSuitOf cs") auto

lemma below_5:
  "strength7 cs < 5000000000 \<Longrightarrow> quadOf cs = None \<and> \<not> cFH cs \<and> flushSuitOf cs = None
     \<and> findStraightHigh (uniqueValuesAsc cs) = None"
  using below_rank [of cs 4] rank_straight [of cs] below_6 [of cs]
  by (cases "findStraightHigh (uniqueValuesAsc cs)") auto

lemma below_4:
  "strength7 cs < 4000000000 \<Longrightarrow> quadOf cs = None \<and> \<not> cFH cs \<and> flushSuitOf cs = None
     \<and> findStraightHigh (uniqueValuesAsc cs) = None \<and> tripsDesc cs = []"
  using below_rank [of cs 3] rank_trips [of cs] below_5 [of cs] by auto

lemma below_3:
  "strength7 cs < 3000000000 \<Longrightarrow> quadOf cs = None \<and> \<not> cFH cs \<and> flushSuitOf cs = None
     \<and> findStraightHigh (uniqueValuesAsc cs) = None \<and> tripsDesc cs = []
     \<and> length (pairsDesc cs) \<le> 1"
proof -
  assume a: "strength7 cs < 3000000000"
  have "\<not> 2 \<le> length (pairsDesc cs)"
    using below_rank [of cs 2] rank_twopair [of cs] a by auto
  then have "length (pairsDesc cs) \<le> 1" by linarith
  with below_4 [of cs] a show ?thesis by simp
qed

lemma below_2:
  "strength7 cs < 2000000000 \<Longrightarrow> quadOf cs = None \<and> flushSuitOf cs = None
     \<and> findStraightHigh (uniqueValuesAsc cs) = None \<and> pairsDesc cs = []"
  using below_rank [of cs 1] rank_pair [of cs] below_3 [of cs] by auto

lemma count_in_values: "1 \<le> rankCountOf cs v \<Longrightarrow> v \<in> set (valuesDesc cs)"
proof -
  assume "1 \<le> rankCountOf cs v"
  then have "filter (\<lambda>c. rankToValue (Card.rank c) True = v) cs \<noteq> []"
    unfolding rankCountOf_def by auto
  then obtain c where "c \<in> set cs" "cardVal c = v"
    unfolding cardVal_def by (auto simp: filter_empty_conv)
  then show ?thesis unfolding valuesDesc_set by auto
qed

lemma in_tripsDesc: "3 \<le> rankCountOf cs v \<Longrightarrow> v \<in> set (tripsDesc cs)"
  unfolding tripsDesc_def using count_in_values [of cs v] by simp

lemma in_pairsDesc: "2 \<le> rankCountOf cs v \<Longrightarrow> v \<in> set (pairsDesc cs)"
  unfolding pairsDesc_def using count_in_values [of cs v] by simp

lemma tripsDesc_mem: "v \<in> set (tripsDesc cs) \<Longrightarrow> 3 \<le> rankCountOf cs v \<and> 2 \<le> v \<and> v \<le> 14"
  unfolding tripsDesc_def using valuesDesc_range [of v cs] by simp

lemma pairsDesc_mem: "v \<in> set (pairsDesc cs) \<Longrightarrow> 2 \<le> rankCountOf cs v \<and> 2 \<le> v \<and> v \<le> 14"
  unfolding pairsDesc_def using valuesDesc_range [of v cs] by simp

lemma kicker_or:
  assumes "d = 0 \<or> d = 2"
  shows "d \<le> orElse (find P (valuesDesc cs)) d"
    and "orElse (find P (valuesDesc cs)) d \<le> 14"
    and "k \<in> set (valuesDesc cs) \<Longrightarrow> P k \<Longrightarrow> k \<le> orElse (find P (valuesDesc cs)) d"
proof -
  show "d \<le> orElse (find P (valuesDesc cs)) d"
    using assms
    by (cases "find P (valuesDesc cs)") (auto simp: orElse_def dest!: find_SomeD dest: valuesDesc_range)
  show "orElse (find P (valuesDesc cs)) d \<le> 14"
    using assms
    by (cases "find P (valuesDesc cs)") (auto simp: orElse_def dest!: find_SomeD dest: valuesDesc_range)
  show "k \<le> orElse (find P (valuesDesc cs)) d" if "k \<in> set (valuesDesc cs)" "P k"
  proof -
    from find_desc_ge [of "valuesDesc cs" k P, OF valuesDesc_strict that] obtain y where
      y: "find P (valuesDesc cs) = Some y" "k \<le> y" "y \<in> set (valuesDesc cs)" by blast
    with valuesDesc_range [of y cs] have "y \<noteq> 0" by auto
    with y show ?thesis by (simp add: orElse_def)
  qed
qed

lemma L_quad:
  assumes q: "rankCountOf cs q = 4" and kv: "kv = 2 \<or> kv \<in> set (valuesDesc cs) \<and> kv \<noteq> q"
  shows "8000000000 + (q * 15 + kv) \<le> strength7 cs"
proof (cases "strength7 cs < 9000000000")
  case False
  from q count_in_values [of cs q] valuesDesc_range [of q cs] have "q \<le> 14" by simp
  moreover from kv valuesDesc_range [of kv cs] have "kv \<le> 14" by auto
  ultimately show ?thesis using False by simp
next
  case True
  then have sf: "sfHigh cs = None" by (rule below_9)
  from q count_in_values [of cs q] have qin: "q \<in> set (valuesDesc cs)" by simp
  from find_desc_ge [OF valuesDesc_strict qin, of "\<lambda>v. rankCountOf cs v = 4"] q
  obtain q' where q': "quadOf cs = Some q'" "q \<le> q'" unfolding quadOf_def by blast
  let ?k = "orElse (find (\<lambda>v. v \<noteq> q') (valuesDesc cs)) 2"
  have d2: "(2::int) = 0 \<or> (2::int) = 2" by simp
  note ko = kicker_or [OF d2, where P = "\<lambda>v. v \<noteq> q'" and cs = cs]
  from strengthI [OF E7_quad [OF sf q'(1)]] have st: "strength7 cs = 8000000000 + (q' * 15 + ?k)" .
  have k2: "2 \<le> ?k" using ko(1) .
  show ?thesis
  proof (cases "q' = q")
    case same: True
    have "kv \<le> ?k"
    proof (cases "kv = 2")
      case True
      with k2 show ?thesis by simp
    next
      case False
      with kv have "kv \<in> set (valuesDesc cs)" "kv \<noteq> q'" using same by auto
      then show ?thesis by (rule ko(3))
    qed
    with st same show ?thesis by simp
  next
    case False
    with q'(2) have "q + 1 \<le> q'" by simp
    moreover from kv valuesDesc_range [of kv cs] have "kv \<le> 14" by auto
    ultimately show ?thesis using st k2 by simp
  qed
qed

lemma L_fh:
  assumes t: "3 \<le> rankCountOf cs t" and p: "2 \<le> rankCountOf cs p" and ne: "p \<noteq> t"
  shows "7000000000 + (t * 15 + p) \<le> strength7 cs"
proof (cases "strength7 cs < 8000000000")
  case False
  from in_tripsDesc [OF t] tripsDesc_mem [of t cs] have "t \<le> 14" by simp
  moreover from in_pairsDesc [OF p] pairsDesc_mem [of p cs] have "p \<le> 14" by simp
  ultimately show ?thesis using False by simp
next
  case True
  then have sf: "sfHigh cs = None" and nq: "quadOf cs = None" using below_8 by auto
  let ?t = "hd (tripsDesc cs)"
  let ?c = "filter (\<lambda>v. v \<noteq> ?t) (pairsDesc cs)"
  from in_tripsDesc [OF t] have tin: "t \<in> set (tripsDesc cs)" .
  then have tne: "tripsDesc cs \<noteq> []" by auto
  from desc_hd_ge [OF tripsDesc_strict tin] have tt: "t \<le> ?t" .
  from t have t2: "2 \<le> rankCountOf cs t" by simp
  have pin: "p \<in> set (pairsDesc cs)" "t \<in> set (pairsDesc cs)"
    using in_pairsDesc [OF p] in_pairsDesc [OF t2] by auto
  from ne pin have "p \<in> set ?c \<or> t \<in> set ?c" by auto
  then have cne: "?c \<noteq> []" by (auto simp: filter_empty_conv)
  with tne have fh: "cFH cs" by (simp add: cFH_def)
  from strengthI [OF E7_fh [OF sf nq fh]] have st: "strength7 cs = 7000000000 + (?t * 15 + hd ?c)" .
  have cs: "sorted_wrt (>) ?c" by (rule sorted_wrt_filter [OF pairsDesc_strict])
  from cne have "hd ?c \<in> set ?c" by (rule hd_in_set)
  then have "hd ?c \<in> set (pairsDesc cs)" using filter_is_subset [of _ "pairsDesc cs"] by blast
  with pairsDesc_mem [of "hd ?c" cs] have c2: "2 \<le> hd ?c" by simp
  from in_pairsDesc [OF p] pairsDesc_mem [of p cs] have p14: "p \<le> 14" by simp
  show ?thesis
  proof (cases "?t = t")
    case True
    with ne pin have "p \<in> set ?c" by simp
    from desc_hd_ge [OF cs this] st True show ?thesis by simp
  next
    case False
    with tt have "t + 1 \<le> ?t" by simp
    with st c2 p14 show ?thesis by simp
  qed
qed

lemma valuesDesc_digits: "\<forall>v \<in> set (valuesDesc cs). 0 \<le> v \<and> v \<le> 14"
  by (auto dest: valuesDesc_range)

lemma suitValues_digits: "\<forall>v \<in> set (suitValues cs s). 0 \<le> v \<and> v \<le> 14"
  by (auto dest: suitValues_range)

lemma digits_subset: "set A \<subseteq> B \<Longrightarrow> \<forall>v \<in> B. 0 \<le> v \<and> v \<le> (14::int) \<Longrightarrow> \<forall>v \<in> set A. 0 \<le> v \<and> v \<le> 14"
  by blast

lemma digits_subset_diff:
  "set A \<subseteq> B - X \<Longrightarrow> \<forall>v \<in> B. 0 \<le> v \<and> v \<le> (14::int) \<Longrightarrow> \<forall>v \<in> set A. 0 \<le> v \<and> v \<le> 14"
  by blast

lemma L_flush:
  assumes fs: "flushSuitOf cs = Some s" and A: "sorted_wrt (>) A" "set A \<subseteq> set (suitValues cs s)"
    "length A \<le> 5"
  shows "6000000000 + encodeInts A \<le> strength7 cs"
proof (cases "strength7 cs < 7000000000")
  case False
  have "\<forall>x \<in> set A. 0 \<le> x \<and> x \<le> 14" by (rule digits_subset [OF A(2) suitValues_digits])
  from encodeInts_bounds(2) [OF this A(3)] False show ?thesis by (simp add: CATEGORY_BASE_def)
next
  case True
  then have b: "sfHigh cs = None" "quadOf cs = None" "\<not> cFH cs"
    using below_8 [of cs] below_7 [of cs] by auto
  from strengthI [OF E7_flush [OF b fs]]
  have st: "strength7 cs = 6000000000 + encodeInts (take 5 (rev (sort (suitValues cs s))))" .
  have "encodeInts A \<le> encodeInts (take 5 (rev (sort (suitValues cs s))))"
    by (rule encodeInts_desc_mono [OF A(1) suitValues_desc _ _ A(3)])
       (use A(2) suitValues_digits [of cs s] in auto)
  with st show ?thesis by simp
qed

lemma L_straight:
  assumes "findStraightHigh (uniqueValuesAsc cs) = Some h'" and "h \<le> h'"
  shows "5000000000 + h \<le> strength7 cs"
proof (cases "strength7 cs < 6000000000")
  case False
  with straight_pos [OF assms(1)] assms(2) show ?thesis by simp
next
  case True
  from below_6 [OF this] have b: "quadOf cs = None" "\<not> cFH cs" "flushSuitOf cs = None" by auto
  from strengthI [OF E7_straight [OF b assms(1)]] assms(2) show ?thesis by simp
qed

lemma filter_desc_pointwise:
  assumes "sorted_wrt (>) K" and "set K \<subseteq> set (valuesDesc cs) - X"
  shows "pad K i \<le> pad (filter (\<lambda>v. v \<notin> X) (valuesDesc cs)) i"
proof -
  let ?F = "filter (\<lambda>v. v \<notin> X) (valuesDesc cs)"
  have sF: "sorted_wrt (>) ?F" by (rule sorted_wrt_filter [OF valuesDesc_strict])
  have sub: "set K \<subseteq> set ?F" using assms(2) by auto
  from desc_pointwise [OF assms(1) sF sub]
  show ?thesis by (intro pad_mono) (use valuesDesc_digits [of cs] in auto)
qed

lemma pad_values_range:
  "0 \<le> pad (filter P (valuesDesc cs)) i \<and> pad (filter P (valuesDesc cs)) i \<le> 14"
  by (rule pad_range) (use valuesDesc_digits [of cs] in auto)

lemma E7_trips_pad:
  assumes "quadOf cs = None" and "\<not> cFH cs" and "flushSuitOf cs = None"
    and "findStraightHigh (uniqueValuesAsc cs) = None" and "tripsDesc cs \<noteq> []"
  shows "strength7 cs = 4000000000
           + encodeInts [hd (tripsDesc cs),
               pad (filter (\<lambda>v. v \<notin> {hd (tripsDesc cs)}) (valuesDesc cs)) 0,
               pad (filter (\<lambda>v. v \<notin> {hd (tripsDesc cs)}) (valuesDesc cs)) 1]"
  using strengthI [OF E7_trips [OF assms]]
  by (simp add: pad_def [symmetric] pad_take)

lemma E7_pair_pad:
  assumes "quadOf cs = None" and "\<not> cFH cs" and "flushSuitOf cs = None"
    and "findStraightHigh (uniqueValuesAsc cs) = None" and "tripsDesc cs = []"
    and "pairsDesc cs = [p]"
  shows "strength7 cs = 2000000000
           + encodeInts [p, pad (filter (\<lambda>v. v \<notin> {p}) (valuesDesc cs)) 0,
               pad (filter (\<lambda>v. v \<notin> {p}) (valuesDesc cs)) 1,
               pad (filter (\<lambda>v. v \<notin> {p}) (valuesDesc cs)) 2]"
proof -
  from assms(6) have l: "length (pairsDesc cs) = 1" by simp
  from strengthI [OF E7_pair [OF assms(1-5) l]] assms(6)
  show ?thesis by (simp add: pad_def [symmetric] pad_take)
qed

lemma L_trips:
  assumes t: "3 \<le> rankCountOf cs t" and K: "sorted_wrt (>) K" "set K \<subseteq> set (valuesDesc cs) - {t}"
  shows "4000000000 + encodeInts [t, pad K 0, pad K 1] \<le> strength7 cs"
proof -
  have kr: "0 \<le> pad K i \<and> pad K i \<le> 14" for i
    by (rule pad_range) (rule digits_subset_diff [OF K(2) valuesDesc_digits])
  from in_tripsDesc [OF t] have tin: "t \<in> set (tripsDesc cs)" .
  with tripsDesc_mem [of t cs] have t14: "2 \<le> t" "t \<le> 14" by auto
  show ?thesis
  proof (cases "strength7 cs < 5000000000")
    case False
    with t14 kr [of 0] kr [of 1] show ?thesis by (simp add: encodeInts_3)
  next
    case True
    from below_5 [OF this] have b: "quadOf cs = None" "\<not> cFH cs" "flushSuitOf cs = None"
      "findStraightHigh (uniqueValuesAsc cs) = None" by auto
    from tin have ne: "tripsDesc cs \<noteq> []" by auto
    let ?t = "hd (tripsDesc cs)"
    let ?F = "filter (\<lambda>v. v \<notin> {?t}) (valuesDesc cs)"
    note st = E7_trips_pad [OF b ne]
    from desc_hd_ge [OF tripsDesc_strict tin] have tt: "t \<le> ?t" .
    note fr = pad_values_range [of "\<lambda>v. v \<notin> {?t}" cs]
    show ?thesis
    proof (cases "?t = t")
      case True
      from filter_desc_pointwise [OF K(1), of cs "{t}"] K(2)
      have "pad K i \<le> pad ?F i" for i using True by simp
      from this [of 0] this [of 1] st True show ?thesis by (simp add: encodeInts_3)
    next
      case False
      with tt have "t + 1 \<le> ?t" by simp
      with st kr [of 0] kr [of 1] fr [of 0] fr [of 1] show ?thesis by (simp add: encodeInts_3)
    qed
  qed
qed

lemma L_twopair:
  assumes p1: "2 \<le> rankCountOf cs p1" and p2: "2 \<le> rankCountOf cs p2" and lt: "p2 < p1"
    and kv: "kv = 0 \<or> kv \<in> set (valuesDesc cs) \<and> kv \<noteq> p1 \<and> kv \<noteq> p2"
  shows "3000000000 + encodeInts [p1, p2, kv] \<le> strength7 cs"
proof -
  from in_pairsDesc [OF p1] in_pairsDesc [OF p2]
  have pin: "p1 \<in> set (pairsDesc cs)" "p2 \<in> set (pairsDesc cs)" .
  with pairsDesc_mem [of p1 cs] pairsDesc_mem [of p2 cs]
  have r: "2 \<le> p1" "p1 \<le> 14" "2 \<le> p2" "p2 \<le> 14" by auto
  from kv valuesDesc_range [of kv cs] have kr: "0 \<le> kv" "kv \<le> 14" by auto
  show ?thesis
  proof (cases "strength7 cs < 4000000000")
    case False
    with r kr show ?thesis by (simp add: encodeInts_3)
  next
    case True
    from below_4 [OF this] have b: "quadOf cs = None" "\<not> cFH cs" "flushSuitOf cs = None"
      "findStraightHigh (uniqueValuesAsc cs) = None" "tripsDesc cs = []" by auto
    let ?P = "pairsDesc cs"
    have "sorted_wrt (>) [p1, p2]" using lt by simp
    from desc_pointwise [OF this pairsDesc_strict, of cs] pin
    have len: "2 \<le> length ?P" and pw: "p1 \<le> ?P ! 0" "p2 \<le> ?P ! 1" by auto
    let ?k = "orElse (find (\<lambda>v. v \<noteq> ?P ! 0 \<and> v \<noteq> ?P ! 1) (valuesDesc cs)) 0"
    from strengthI [OF E7_twopair [OF b len]]
    have st: "strength7 cs = 3000000000 + encodeInts [?P ! 0, ?P ! 1, ?k]" .
    have d0: "(0::int) = 0 \<or> (0::int) = 2" by simp
    note ko = kicker_or [OF d0, where P = "\<lambda>v. v \<noteq> ?P ! 0 \<and> v \<noteq> ?P ! 1" and cs = cs]
    from len have "1 < length ?P" by linarith
    then have "?P ! 1 \<in> set ?P" by (rule nth_mem)
    with pairsDesc_mem [of "?P ! 1" cs] have q2: "2 \<le> ?P ! 1" by simp
    show ?thesis
    proof (cases "?P ! 0 = p1 \<and> ?P ! 1 = p2")
      case True
      have "kv \<le> ?k"
      proof (cases "kv = 0")
        case True
        with ko(1) show ?thesis by simp
      next
        case False
        with kv True show ?thesis by (intro ko(3)) auto
      qed
      with st True show ?thesis by (simp add: encodeInts_3)
    next
      case False
      with pw have "p1 + 1 \<le> ?P ! 0 \<or> (?P ! 0 = p1 \<and> p2 + 1 \<le> ?P ! 1)" by auto
      then show ?thesis
      proof
        assume "p1 + 1 \<le> ?P ! 0"
        with st r kr q2 ko(1) show ?thesis by (simp add: encodeInts_3)
      next
        assume "?P ! 0 = p1 \<and> p2 + 1 \<le> ?P ! 1"
        with st r kr ko(1) show ?thesis by (simp add: encodeInts_3)
      qed
    qed
  qed
qed

lemma L_pair:
  assumes p: "2 \<le> rankCountOf cs p" and K: "sorted_wrt (>) K" "set K \<subseteq> set (valuesDesc cs) - {p}"
  shows "2000000000 + encodeInts [p, pad K 0, pad K 1, pad K 2] \<le> strength7 cs"
proof -
  have kr: "0 \<le> pad K i \<and> pad K i \<le> 14" for i
    by (rule pad_range) (rule digits_subset_diff [OF K(2) valuesDesc_digits])
  from in_pairsDesc [OF p] have pin: "p \<in> set (pairsDesc cs)" .
  with pairsDesc_mem [of p cs] have p14: "2 \<le> p" "p \<le> 14" by auto
  show ?thesis
  proof (cases "strength7 cs < 3000000000")
    case False
    with p14 kr [of 0] kr [of 1] kr [of 2] show ?thesis by (simp add: encodeInts_4)
  next
    case True
    from below_3 [OF this] have b: "quadOf cs = None" "\<not> cFH cs" "flushSuitOf cs = None"
      "findStraightHigh (uniqueValuesAsc cs) = None" "tripsDesc cs = []"
      and l: "length (pairsDesc cs) \<le> 1" by auto
    from pin l have one: "pairsDesc cs = [p]"
      by (cases "pairsDesc cs") auto
    note st = E7_pair_pad [OF b one]
    from filter_desc_pointwise [OF K(1), of cs "{p}"] K(2)
    have "pad K i \<le> pad (filter (\<lambda>v. v \<notin> {p}) (valuesDesc cs)) i" for i by simp
    from this [of 0] this [of 1] this [of 2] st show ?thesis by (simp add: encodeInts_4)
  qed
qed

lemma L_high:
  assumes A: "sorted_wrt (>) A" "set A \<subseteq> set (valuesDesc cs)" "length A \<le> 5"
  shows "1000000000 + encodeInts A \<le> strength7 cs"
proof (cases "strength7 cs < 2000000000")
  case False
  have "\<forall>x \<in> set A. 0 \<le> x \<and> x \<le> 14" by (rule digits_subset [OF A(2) valuesDesc_digits])
  from encodeInts_bounds(2) [OF this A(3)] False show ?thesis by (simp add: CATEGORY_BASE_def)
next
  case True
  from below_2 [OF this] have b: "quadOf cs = None" "flushSuitOf cs = None"
    "findStraightHigh (uniqueValuesAsc cs) = None" "pairsDesc cs = []" by auto
  from strengthI [OF E7_high [OF b]]
  have st: "strength7 cs = 1000000000 + encodeInts (take 5 (valuesDesc cs))" .
  have "encodeInts A \<le> encodeInts (take 5 (valuesDesc cs))"
    by (rule encodeInts_desc_mono [OF A(1) valuesDesc_strict A(2) _ A(3)])
       (use valuesDesc_digits [of cs] in auto)
  with st show ?thesis by simp
qed

subsection \<open>A hand is worth at least as much as each of its parts\<close>

lemma rankCountOf_card:
  "distinct cs \<Longrightarrow> rankCountOf cs v = card {c \<in> set cs. cardVal c = v}"
  unfolding rankCountOf_def cardVal_def
  by (simp add: distinct_length_filter Int_def conj_commute)

lemma count_mono:
  assumes "distinct xs" and "distinct ys" and "set xs \<subseteq> set ys"
  shows "rankCountOf xs v \<le> rankCountOf ys v"
  unfolding rankCountOf_card [OF assms(1)] rankCountOf_card [OF assms(2)]
  by (rule card_mono) (use assms(3) in auto)

lemma card_of_value_suit:
  assumes "cardVal c = cardVal d" and "suit c = suit d"
  shows "c = d"
proof -
  from assms(1) have "Card.rank c = Card.rank d"
    unfolding cardVal_def by (rule rankToValue_inj)
  with assms(2) show ?thesis by (cases c; cases d) simp
qed

lemma count_le_4:
  assumes "distinct cs"
  shows "rankCountOf cs v \<le> 4"
proof -
  let ?S = "{c \<in> set cs. cardVal c = v}"
  have inj: "inj_on suit ?S"
    by (rule inj_onI) (auto intro: card_of_value_suit)
  have "suit ` ?S \<subseteq> {hearts, diamonds, clubs, spades}"
  proof
    fix s :: Suit assume "s \<in> suit ` ?S"
    show "s \<in> {hearts, diamonds, clubs, spades}" by (cases s) auto
  qed
  then have "card (suit ` ?S) \<le> card {hearts, diamonds, clubs, spades}"
    by (intro card_mono) auto
  also have "\<dots> = 4" by simp
  finally show ?thesis
    unfolding rankCountOf_card [OF assms] using card_image [OF inj] by simp
qed

lemma values_mono: "set xs \<subseteq> set ys \<Longrightarrow> set (valuesDesc xs) \<subseteq> set (valuesDesc ys)"
  unfolding valuesDesc_set by auto

lemma suitValues_mono: "set xs \<subseteq> set ys \<Longrightarrow> set (suitValues xs s) \<subseteq> set (suitValues ys s)"
  unfolding suitValues_set by auto

lemma bySuit_length_mono:
  assumes "distinct xs" and "distinct ys" and "set xs \<subseteq> set ys"
  shows "length (bySuit xs s) \<le> length (bySuit ys s)"
  unfolding bySuit_def distinct_length_filter [OF assms(1)] distinct_length_filter [OF assms(2)]
  by (rule card_mono) (use assms(3) in auto)

lemma two_suits: "s \<noteq> s' \<Longrightarrow> length (bySuit cs s) + length (bySuit cs s') \<le> length cs"
  unfolding bySuit_def by (induction cs) auto

lemma flushSuitOf_Some: "flushSuitOf cs = Some s \<Longrightarrow> 5 \<le> length (bySuit cs s)"
  unfolding flushSuitOf_def by (blast dest: find_SomeD)

lemma hd_filter_mem: "filter P xs \<noteq> [] \<Longrightarrow> hd (filter P xs) \<in> set xs \<and> P (hd (filter P xs))"
proof -
  assume "filter P xs \<noteq> []"
  then have "hd (filter P xs) \<in> set (filter P xs)" by (rule hd_in_set)
  then show ?thesis by simp
qed

lemma flush_unique:
  assumes five: "5 \<le> length (bySuit cs s)" and len: "length cs \<le> 9"
  shows "flushSuitOf cs = Some s"
proof -
  have other: "\<not> 5 \<le> length (bySuit cs s')" if "s' \<noteq> s" for s'
    using two_suits [of s s' cs] that five len by auto
  show ?thesis
    unfolding flushSuitOf_def using five other
    by (cases s) (simp_all)
qed

lemma flush_mono:
  assumes "distinct xs" and "distinct ys" and "set xs \<subseteq> set ys" and "length ys \<le> 9"
    and "flushSuitOf xs = Some s"
  shows "flushSuitOf ys = Some s"
  using bySuit_length_mono [OF assms(1-3), of s] flushSuitOf_Some [OF assms(5)]
  by (intro flush_unique [OF _ assms(4)]) simp

lemma straight_mono:
  assumes "set xs \<subseteq> set ys" and "findStraightHigh (uniqueValuesAsc xs) = Some h"
  shows "\<exists>h'. findStraightHigh (uniqueValuesAsc ys) = Some h' \<and> h \<le> h'"
  using assms(2) unfolding findStraightHigh_values
  by (intro bestRun_mono [where S = "cardVal ` set xs"]) (use assms(1) in auto)

lemma suit_straight_mono:
  assumes "set xs \<subseteq> set ys" and "findStraightHigh (sort (suitValues xs s)) = Some h"
  shows "\<exists>h'. findStraightHigh (sort (suitValues ys s)) = Some h' \<and> h \<le> h'"
  using assms(2) unfolding findStraightHigh_suit
  by (intro bestRun_mono [where S = "cardVal ` {c \<in> set xs. suit c = s}"]) (use assms(1) in auto)

lemma kicker_cases:
  assumes "d = 0 \<or> d = 2"
  shows "orElse (find P (valuesDesc cs)) d = d
       \<or> orElse (find P (valuesDesc cs)) d \<in> set (valuesDesc cs) \<and> P (orElse (find P (valuesDesc cs)) d)"
proof (cases "find P (valuesDesc cs)")
  case None
  then show ?thesis by (simp add: orElse_def)
next
  case (Some k)
  from find_SomeD [OF this] valuesDesc_range [of k cs] have "k \<in> set (valuesDesc cs)" "P k" "k \<noteq> 0"
    by auto
  with Some show ?thesis by (simp add: orElse_def)
qed

lemma strength_mono:
  assumes dx: "distinct xs" and dy: "distinct ys" and sub: "set xs \<subseteq> set ys" and len: "length ys \<le> 9"
  shows "strength7 xs \<le> strength7 ys"
proof -
  note cm = count_mono [OF dx dy sub]
  note vm = values_mono [OF sub]
  show ?thesis
  proof (cases "sfHigh xs")
    case (Some h)
    then obtain s where s: "flushSuitOf xs = Some s"
      and h: "findStraightHigh (sort (suitValues xs s)) = Some h"
      by (auto simp: sfHigh_def split: option.splits)
    from flush_mono [OF dx dy sub len s] have sy: "flushSuitOf ys = Some s" .
    from suit_straight_mono [OF sub h] obtain h' where
      h': "findStraightHigh (sort (suitValues ys s)) = Some h'" "h \<le> h'" by blast
    from sy h' have sfy: "sfHigh ys = Some h'" by (simp add: sfHigh_def)
    from sfHigh_pos [OF sfy] h'(2)
    show ?thesis unfolding strengthI [OF E7_sf [OF Some]] strengthI [OF E7_sf [OF sfy]] by auto
  next
    case sf: None
    show ?thesis
    proof (cases "quadOf xs")
      case (Some q)
      from quadOf_Some [OF this] have "rankCountOf xs q = 4" by simp
      with cm [of q] count_le_4 [OF dy, of q] have q4: "rankCountOf ys q = 4" by simp
      have d2: "(2::int) = 0 \<or> (2::int) = 2" by simp
      let ?k = "orElse (find (\<lambda>v. v \<noteq> q) (valuesDesc xs)) 2"
      from kicker_cases [OF d2, of "\<lambda>v. v \<noteq> q" xs] vm
      have "?k = 2 \<or> ?k \<in> set (valuesDesc ys) \<and> ?k \<noteq> q" by auto
      from L_quad [OF q4 this] show ?thesis unfolding strengthI [OF E7_quad [OF sf Some]] .
    next
      case nq: None
      show ?thesis
      proof (cases "cFH xs")
        case True
        let ?t = "hd (tripsDesc xs)"
        let ?c = "filter (\<lambda>v. v \<noteq> ?t) (pairsDesc xs)"
        from True have tne: "tripsDesc xs \<noteq> []" and cne: "?c \<noteq> []" by (auto simp: cFH_def)
        from tne have "?t \<in> set (tripsDesc xs)" by simp
        moreover note hd_filter_mem [OF cne]
        ultimately have "3 \<le> rankCountOf xs ?t" "2 \<le> rankCountOf xs (hd ?c)" "hd ?c \<noteq> ?t"
          using tripsDesc_mem [of ?t xs] pairsDesc_mem [of "hd ?c" xs] by auto
        with cm [of ?t] cm [of "hd ?c"]
        have "3 \<le> rankCountOf ys ?t" "2 \<le> rankCountOf ys (hd ?c)" "hd ?c \<noteq> ?t" by auto
        from L_fh [OF this] show ?thesis unfolding strengthI [OF E7_fh [OF sf nq True]] .
      next
        case nfh: False
        show ?thesis
        proof (cases "flushSuitOf xs")
          case (Some s)
          let ?A = "take 5 (rev (sort (suitValues xs s)))"
          have "sorted_wrt (>) ?A" by (rule sorted_wrt_take [OF suitValues_desc])
          moreover have "set ?A \<subseteq> set (rev (sort (suitValues xs s)))" by (rule set_take_subset)
          then have "set ?A \<subseteq> set (suitValues ys s)"
            using suitValues_mono [OF sub, of s] by auto
          moreover have "length ?A \<le> 5" by simp
          ultimately show ?thesis
            unfolding strengthI [OF E7_flush [OF sf nq nfh Some]]
            by (rule L_flush [OF flush_mono [OF dx dy sub len Some]])
        next
          case nfl: None
          show ?thesis
          proof (cases "findStraightHigh (uniqueValuesAsc xs)")
            case (Some h)
            from straight_mono [OF sub Some] obtain h' where
              "findStraightHigh (uniqueValuesAsc ys) = Some h'" "h \<le> h'" by blast
            from L_straight [OF this] show ?thesis
              unfolding strengthI [OF E7_straight [OF nq nfh nfl Some]] .
          next
            case nst: None
            show ?thesis
            proof (cases "tripsDesc xs = []")
              case False
              let ?t = "hd (tripsDesc xs)"
              let ?F = "filter (\<lambda>v. v \<notin> {?t}) (valuesDesc xs)"
              from False have "?t \<in> set (tripsDesc xs)" by simp
              with tripsDesc_mem [of ?t xs] cm [of ?t] have t: "3 \<le> rankCountOf ys ?t" by simp
              have "sorted_wrt (>) ?F" by (rule sorted_wrt_filter [OF valuesDesc_strict])
              moreover have "set ?F \<subseteq> set (valuesDesc ys) - {?t}" using vm by auto
              ultimately show ?thesis
                unfolding E7_trips_pad [OF nq nfh nfl nst False] by (rule L_trips [OF t])
            next
              case nt: True
              show ?thesis
              proof (cases "2 \<le> length (pairsDesc xs)")
                case True
                let ?P = "pairsDesc xs"
                from True have l01: "0 < length ?P" "1 < length ?P" by linarith+
                have mem: "?P ! 0 \<in> set ?P" "?P ! 1 \<in> set ?P"
                  by (rule nth_mem [OF l01(1)], rule nth_mem [OF l01(2)])
                from l01 pairsDesc_strict [of xs] have lt: "?P ! 1 < ?P ! 0"
                  by (simp add: sorted_wrt_iff_nth_less)
                from mem pairsDesc_mem [of "?P ! 0" xs] pairsDesc_mem [of "?P ! 1" xs]
                  cm [of "?P ! 0"] cm [of "?P ! 1"]
                have c: "2 \<le> rankCountOf ys (?P ! 0)" "2 \<le> rankCountOf ys (?P ! 1)" by auto
                have d0: "(0::int) = 0 \<or> (0::int) = 2" by simp
                let ?k = "orElse (find (\<lambda>v. v \<noteq> ?P ! 0 \<and> v \<noteq> ?P ! 1) (valuesDesc xs)) 0"
                from kicker_cases [OF d0, of "\<lambda>v. v \<noteq> ?P ! 0 \<and> v \<noteq> ?P ! 1" xs] vm
                have "?k = 0 \<or> ?k \<in> set (valuesDesc ys) \<and> ?k \<noteq> ?P ! 0 \<and> ?k \<noteq> ?P ! 1" by auto
                from L_twopair [OF c lt this] show ?thesis
                  unfolding strengthI [OF E7_twopair [OF nq nfh nfl nst nt True]] .
              next
                case few: False
                show ?thesis
                proof (cases "pairsDesc xs")
                  case Nil
                  let ?A = "take 5 (valuesDesc xs)"
                  have "sorted_wrt (>) ?A" by (rule sorted_wrt_take [OF valuesDesc_strict])
                  moreover have "set ?A \<subseteq> set (valuesDesc xs)" by (rule set_take_subset)
                  then have "set ?A \<subseteq> set (valuesDesc ys)" using vm by auto
                  moreover have "length ?A \<le> 5" by simp
                  ultimately show ?thesis
                    unfolding strengthI [OF E7_high [OF nq nfl nst Nil]] by (rule L_high)
                next
                  case (Cons p rest)
                  with few have one: "pairsDesc xs = [p]" by (cases rest) auto
                  let ?F = "filter (\<lambda>v. v \<notin> {p}) (valuesDesc xs)"
                  from one have "p \<in> set (pairsDesc xs)" by simp
                  with pairsDesc_mem [of p xs] cm [of p] have p: "2 \<le> rankCountOf ys p" by simp
                  have "sorted_wrt (>) ?F" by (rule sorted_wrt_filter [OF valuesDesc_strict])
                  moreover have "set ?F \<subseteq> set (valuesDesc ys) - {p}" using vm by auto
                  ultimately show ?thesis
                    unfolding E7_pair_pad [OF nq nfh nfl nst nt one] by (rule L_pair [OF p])
                qed
              qed
            qed
          qed
        qed
      qed
    qed
  qed
qed

subsection \<open>Five cards that carry the strength of a hand\<close>

lemma combination_filter:
  "length (filter P xs) = k \<Longrightarrow> filter P xs \<in> set (generateCombinations xs k)"
proof (induction xs arbitrary: k)
  case Nil
  then show ?case by simp
next
  case (Cons x xs)
  show ?case
  proof (cases k)
    case 0
    with Cons.prems show ?thesis by simp
  next
    case (Suc j)
    show ?thesis
    proof (cases "P x")
      case True
      with Cons.prems Suc have "length (filter P xs) = j" by simp
      from Cons.IH [OF this] True Suc show ?thesis by simp
    next
      case False
      with Cons.prems have "length (filter P xs) = k" by simp
      from Cons.IH [OF this] False Suc show ?thesis by simp
    qed
  qed
qed

lemma combination_mem:
  "zs \<in> set (generateCombinations xs k) \<Longrightarrow>
     length zs = k \<and> set zs \<subseteq> set xs \<and> (distinct xs \<longrightarrow> distinct zs)"
proof (induction xs k arbitrary: zs rule: generateCombinations.induct)
  case (1 xs)
  then show ?case by simp
next
  case (2 k)
  then show ?case by simp
next
  case (3 x xs k)
  from "3.prems" consider
    (a) ws where "zs = x # ws" "ws \<in> set (generateCombinations xs k)"
    | (b) "zs \<in> set (generateCombinations xs (Suc k))" by auto
  then show ?case
  proof cases
    case a
    from "3.IH"(1) [OF a(2)] a(1) show ?thesis by auto
  next
    case b
    from "3.IH"(2) [OF b] show ?thesis by auto
  qed
qed

lemma extend_to_five:
  assumes dy: "distinct ys" and sub: "PC \<subseteq> set ys" and c5: "card PC \<le> 5" and l5: "5 \<le> length ys"
  shows "\<exists>zs \<in> set (generateCombinations ys 5). PC \<subseteq> set zs \<and> distinct zs \<and> length zs = 5"
proof -
  have fin: "finite PC" using sub by (rule finite_subset) simp
  have "card (set ys - PC) = length ys - card PC"
    using dy sub fin by (simp add: card_Diff_subset distinct_card)
  with l5 c5 have "5 - card PC \<le> card (set ys - PC)" by simp
  from obtain_subset_with_card_n [OF this] obtain T where
    T: "T \<subseteq> set ys - PC" "card T = 5 - card PC" "finite T" by blast
  let ?Q = "PC \<union> T"
  have "card ?Q = card PC + card T"
    using T(1,3) fin by (intro card_Un_disjoint) auto
  with T(2) c5 have cq: "card ?Q = 5" by simp
  let ?zs = "filter (\<lambda>c. c \<in> ?Q) ys"
  have setz: "set ?zs = ?Q" using sub T(1) by auto
  have dz: "distinct ?zs" using dy by simp
  from distinct_card [OF dz] setz cq have lz: "length ?zs = 5" by simp
  from combination_filter [OF lz] setz dz lz show ?thesis by (intro bexI [of _ ?zs]) auto
qed

lemma cards_for_values:
  assumes "A \<subseteq> cardVal ` Y" and "finite A"
  shows "\<exists>S. S \<subseteq> Y \<and> finite S \<and> card S = card A \<and> cardVal ` S = A"
proof -
  from assms(1) have "\<forall>a \<in> A. \<exists>c. c \<in> Y \<and> cardVal c = a" by auto
  from bchoice [OF this] obtain f where f: "\<forall>a \<in> A. f a \<in> Y \<and> cardVal (f a) = a" by blast
  have inj: "inj_on f A"
    by (rule inj_onI) (metis f)
  have "cardVal ` (f ` A) = A" using f by force
  moreover have "f ` A \<subseteq> Y" using f by auto
  moreover have "card (f ` A) = card A" by (rule card_image [OF inj])
  ultimately show ?thesis using assms(2) by (intro exI [of _ "f ` A"]) auto
qed

lemma cards_for_count:
  assumes "distinct ys" and "n \<le> rankCountOf ys v"
  shows "\<exists>S. S \<subseteq> set ys \<and> finite S \<and> card S = n \<and> (\<forall>c \<in> S. cardVal c = v)"
proof -
  from assms have "n \<le> card {c \<in> set ys. cardVal c = v}" by (simp add: rankCountOf_card)
  from obtain_subset_with_card_n [OF this] obtain S where
    "S \<subseteq> {c \<in> set ys. cardVal c = v}" "card S = n" "finite S" by blast
  then show ?thesis by (intro exI [of _ S]) auto
qed

lemma count_from_cards:
  assumes "distinct zs" and "S \<subseteq> set zs" and "\<forall>c \<in> S. cardVal c = v"
  shows "card S \<le> rankCountOf zs v"
  unfolding rankCountOf_card [OF assms(1)]
  by (rule card_mono) (use assms(2,3) in auto)

lemma values_from_cards: "S \<subseteq> set zs \<Longrightarrow> cardVal ` S \<subseteq> set (valuesDesc zs)"
  unfolding valuesDesc_set by auto

lemma suit_values_from_cards:
  "S \<subseteq> set zs \<Longrightarrow> \<forall>c \<in> S. suit c = s \<Longrightarrow> cardVal ` S \<subseteq> set (suitValues zs s)"
  unfolding suitValues_set by auto

lemma suit_count_from_cards:
  assumes "distinct zs" and "S \<subseteq> set zs" and "\<forall>c \<in> S. suit c = s"
  shows "card S \<le> length (bySuit zs s)"
  unfolding bySuit_def distinct_length_filter [OF assms(1)]
  by (rule card_mono) (use assms(2,3) in auto)

lemma card_Un_values:
  assumes "finite S" and "finite T" and "\<forall>c \<in> S. \<forall>d \<in> T. cardVal c \<noteq> cardVal d"
  shows "card (S \<union> T) = card S + card T"
  by (rule card_Un_disjoint [OF assms(1,2)]) (use assms(3) in auto)

lemma carriedI:
  assumes "PC \<subseteq> set ys" and "card PC \<le> 5"
    and "\<And>zs. distinct zs \<Longrightarrow> PC \<subseteq> set zs \<Longrightarrow> length zs \<le> 9 \<Longrightarrow> strength7 ys \<le> strength7 zs"
  shows "carried ys"
  unfolding carried_def using assms by blast

lemma suitValues_length:
  assumes "distinct ys"
  shows "length (suitValues ys s) = length (bySuit ys s)"
proof -
  have "inj_on cardVal (set (bySuit ys s))"
    by (rule inj_onI) (auto simp: bySuit_def intro: card_of_value_suit)
  moreover have "distinct (bySuit ys s)" using assms by (simp add: bySuit_def)
  ultimately have "distinct (map cardVal (bySuit ys s))" by (simp add: distinct_map)
  then show ?thesis
    unfolding suitValues_def cardVal_def [abs_def, symmetric] by (simp add: distinct_remdups_id)
qed

lemma run_cards:
  assumes run: "h \<in> wheelSet (cardVal ` Y)" "runAt (wheelSet (cardVal ` Y)) h"
  shows "\<exists>S. S \<subseteq> Y \<and> finite S \<and> card S = 5
           \<and> (\<forall>Z. S \<subseteq> Z \<longrightarrow> h \<in> wheelSet (cardVal ` Z) \<and> runAt (wheelSet (cardVal ` Z)) h)"
proof -
  let ?V = "cardVal ` Y"
  let ?g = "\<lambda>w::int. if w = 1 then 14 else w"
  have rng: "\<forall>v \<in> ?V. 2 \<le> v \<and> v \<le> 14" using cardVal_range by auto
  note b = wheelSet_bounds [OF rng]
  have mem: "w \<in> wheelSet ?V" if "w \<in> {h - 4..h}" for w
  proof -
    from that have "h - w \<in> {0..4}" by auto
    with run(2) have "h - (h - w) \<in> wheelSet ?V" unfolding runAt_def by blast
    then show ?thesis by simp
  qed
  from b [OF mem [of "h - 4"]] b [OF run(1)] have h: "5 \<le> h" "h \<le> 14" by auto
  let ?A = "?g ` {h - 4..h}"
  have sub: "?A \<subseteq> ?V"
  proof
    fix a assume "a \<in> ?A"
    then obtain w where w: "w \<in> {h - 4..h}" "a = ?g w" by (rule imageE) (rule that)
    from b [OF mem [OF w(1)]] w(2) show "a \<in> ?V" by auto
  qed
  have inj: "inj_on ?g {h - 4..h}"
    by (rule inj_onI) (use h in \<open>auto split: if_splits\<close>)
  have cA: "card ?A = 5" using card_image [OF inj] by simp
  from cards_for_values [OF sub] obtain S where
    S: "S \<subseteq> Y" "finite S" "card S = card ?A" "cardVal ` S = ?A" by auto
  have up: "h \<in> wheelSet (cardVal ` Z) \<and> runAt (wheelSet (cardVal ` Z)) h" if "S \<subseteq> Z" for Z
  proof -
    from that have "cardVal ` S \<subseteq> cardVal ` Z" by (rule image_mono)
    then have AZ: "?A \<subseteq> cardVal ` Z" unfolding S(4) .
    have inW: "w \<in> wheelSet (cardVal ` Z)" if "w \<in> {h - 4..h}" for w
    proof -
      from that have "?g w \<in> cardVal ` Z" using AZ by blast
      then show ?thesis unfolding wheelSet_def by (auto split: if_splits)
    qed
    have "runAt (wheelSet (cardVal ` Z)) h"
      unfolding runAt_def by (auto intro!: inW)
    moreover have "h \<in> wheelSet (cardVal ` Z)" by (rule inW) simp
    ultimately show ?thesis by simp
  qed
  from S cA up show ?thesis by (intro exI [of _ S]) auto
qed

lemma carried_sf:
  assumes dy: "distinct ys" and sf: "sfHigh ys = Some h"
  shows "carried ys"
proof -
  from sf obtain s where s: "flushSuitOf ys = Some s"
    and h: "findStraightHigh (sort (suitValues ys s)) = Some h"
    by (auto simp: sfHigh_def split: option.splits)
  let ?Y = "{c \<in> set ys. suit c = s}"
  have fin: "finite (wheelSet (cardVal ` ?Y))" by (simp add: wheelSet_def)
  from h have "bestRun (wheelSet (cardVal ` ?Y)) = Some h" by (simp add: findStraightHigh_suit)
  from bestRun_Some [OF fin this] have "h \<in> wheelSet (cardVal ` ?Y)" "runAt (wheelSet (cardVal ` ?Y)) h"
    by auto
  from run_cards [OF this] obtain S where S: "S \<subseteq> ?Y" "finite S" "card S = 5"
    and up: "\<And>Z. S \<subseteq> Z \<Longrightarrow> h \<in> wheelSet (cardVal ` Z) \<and> runAt (wheelSet (cardVal ` Z)) h"
    by blast
  show ?thesis
  proof (rule carriedI [of S])
    show "S \<subseteq> set ys" using S(1) by auto
    show "card S \<le> 5" using S(3) by simp
  next
    fix zs assume dz: "distinct zs" and sub: "S \<subseteq> set zs" and len: "length zs \<le> 9"
    let ?Z = "{c \<in> set zs. suit c = s}"
    from S(1) sub have SZ: "S \<subseteq> ?Z" by auto
    have "card S \<le> length (bySuit zs s)"
      by (rule suit_count_from_cards [OF dz sub]) (use S(1) in auto)
    with S(3) have "5 \<le> length (bySuit zs s)" by simp
    from flush_unique [OF this len] have fz: "flushSuitOf zs = Some s" .
    have finZ: "finite (wheelSet (cardVal ` ?Z))" by (simp add: wheelSet_def)
    from up [OF SZ] bestRun_lower [OF finZ] obtain h' where
      h': "bestRun (wheelSet (cardVal ` ?Z)) = Some h'" "h \<le> h'" by blast
    with fz have sfz: "sfHigh zs = Some h'" by (simp add: sfHigh_def findStraightHigh_suit)
    from sfHigh_pos [OF sfz] h'(2)
    show "strength7 ys \<le> strength7 zs"
      unfolding strengthI [OF E7_sf [OF sf]] strengthI [OF E7_sf [OF sfz]] by auto
  qed
qed

lemma carried_straight:
  assumes dy: "distinct ys" and b: "quadOf ys = None" "\<not> cFH ys" "flushSuitOf ys = None"
    and st: "findStraightHigh (uniqueValuesAsc ys) = Some h"
  shows "carried ys"
proof -
  have fin: "finite (wheelSet (cardVal ` set ys))" by (simp add: wheelSet_def)
  from st have "bestRun (wheelSet (cardVal ` set ys)) = Some h" by (simp add: findStraightHigh_values)
  from bestRun_Some [OF fin this]
  have "h \<in> wheelSet (cardVal ` set ys)" "runAt (wheelSet (cardVal ` set ys)) h" by auto
  from run_cards [OF this] obtain S where S: "S \<subseteq> set ys" "finite S" "card S = 5"
    and up: "\<And>Z. S \<subseteq> Z \<Longrightarrow> h \<in> wheelSet (cardVal ` Z) \<and> runAt (wheelSet (cardVal ` Z)) h"
    by blast
  show ?thesis
  proof (rule carriedI [of S])
    show "S \<subseteq> set ys" by (rule S(1))
    show "card S \<le> 5" using S(3) by simp
  next
    fix zs assume dz: "distinct zs" and sub: "S \<subseteq> set zs" and len: "length zs \<le> 9"
    have finZ: "finite (wheelSet (cardVal ` set zs))" by (simp add: wheelSet_def)
    from up [OF sub] bestRun_lower [OF finZ] obtain h' where
      "bestRun (wheelSet (cardVal ` set zs)) = Some h'" "h \<le> h'" by blast
    then have "findStraightHigh (uniqueValuesAsc zs) = Some h'" "h \<le> h'"
      by (simp_all add: findStraightHigh_values)
    from L_straight [OF this]
    show "strength7 ys \<le> strength7 zs" unfolding strengthI [OF E7_straight [OF b st]] .
  qed
qed

lemma kicker_card:
  assumes "kv \<in> set (valuesDesc ys) \<or> kv = d"
  shows "\<exists>S. S \<subseteq> set ys \<and> finite S \<and> card S \<le> 1
           \<and> (\<forall>c \<in> S. cardVal c = kv)
           \<and> (\<forall>zs. S \<subseteq> set zs \<longrightarrow> kv = d \<or> kv \<in> set (valuesDesc zs))"
proof (cases "kv \<in> set (valuesDesc ys)")
  case True
  then have "{kv} \<subseteq> cardVal ` set ys" by (simp add: valuesDesc_set)
  from cards_for_values [OF this] obtain S where
    S: "S \<subseteq> set ys" "finite S" "card S = card {kv}" "cardVal ` S = {kv}" by auto
  have "kv \<in> set (valuesDesc zs)" if "S \<subseteq> set zs" for zs
    using values_from_cards [OF that] S(4) by auto
  with S show ?thesis by (intro exI [of _ S]) auto
next
  case False
  with assms have "kv = d" by simp
  then show ?thesis by (intro exI [of _ "{}"]) auto
qed

lemma carried_quad:
  assumes dy: "distinct ys" and sf: "sfHigh ys = None" and q: "quadOf ys = Some q"
  shows "carried ys"
proof -
  let ?k = "orElse (find (\<lambda>v. v \<noteq> q) (valuesDesc ys)) 2"
  have d2: "(2::int) = 0 \<or> (2::int) = 2" by simp
  note kc = kicker_cases [OF d2, of "\<lambda>v. v \<noteq> q" ys]
  from quadOf_Some [OF q] have q4: "4 \<le> rankCountOf ys q" by simp
  from cards_for_count [OF dy q4] obtain S4 where
    S4: "S4 \<subseteq> set ys" "finite S4" "card S4 = 4" "\<forall>c \<in> S4. cardVal c = q" by blast
  from kc have "?k \<in> set (valuesDesc ys) \<or> ?k = 2" by auto
  from kicker_card [OF this] obtain S1 where
    S1: "S1 \<subseteq> set ys" "finite S1" "card S1 \<le> 1"
    and up: "\<And>zs. S1 \<subseteq> set zs \<Longrightarrow> ?k = 2 \<or> ?k \<in> set (valuesDesc zs)" by blast
  show ?thesis
  proof (rule carriedI [of "S4 \<union> S1"])
    show "S4 \<union> S1 \<subseteq> set ys" using S4(1) S1(1) by simp
    show "card (S4 \<union> S1) \<le> 5" using card_Un_le [of S4 S1] S4(3) S1(3) by simp
  next
    fix zs assume dz: "distinct zs" and sub: "S4 \<union> S1 \<subseteq> set zs" and len: "length zs \<le> 9"
    from count_from_cards [OF dz _ S4(4)] sub S4(3) count_le_4 [OF dz, of q]
    have z4: "rankCountOf zs q = 4" by simp
    from up [of zs] sub kc have "?k = 2 \<or> ?k \<in> set (valuesDesc zs) \<and> ?k \<noteq> q" by auto
    from L_quad [OF z4 this]
    show "strength7 ys \<le> strength7 zs" unfolding strengthI [OF E7_quad [OF sf q]] .
  qed
qed

lemma carried_fh:
  assumes dy: "distinct ys" and b: "sfHigh ys = None" "quadOf ys = None" and fh: "cFH ys"
  shows "carried ys"
proof -
  let ?t = "hd (tripsDesc ys)"
  let ?c = "filter (\<lambda>v. v \<noteq> ?t) (pairsDesc ys)"
  from fh have tne: "tripsDesc ys \<noteq> []" and cne: "?c \<noteq> []" by (auto simp: cFH_def)
  from tne have "?t \<in> set (tripsDesc ys)" by simp
  moreover note hd_filter_mem [OF cne]
  ultimately have f: "3 \<le> rankCountOf ys ?t" "2 \<le> rankCountOf ys (hd ?c)" "hd ?c \<noteq> ?t"
    using tripsDesc_mem [of ?t ys] pairsDesc_mem [of "hd ?c" ys] by auto
  from cards_for_count [OF dy f(1)] obtain S3 where
    S3: "S3 \<subseteq> set ys" "finite S3" "card S3 = 3" "\<forall>c \<in> S3. cardVal c = ?t" by blast
  from cards_for_count [OF dy f(2)] obtain S2 where
    S2: "S2 \<subseteq> set ys" "finite S2" "card S2 = 2" "\<forall>c \<in> S2. cardVal c = hd ?c" by blast
  show ?thesis
  proof (rule carriedI [of "S3 \<union> S2"])
    show "S3 \<union> S2 \<subseteq> set ys" using S3(1) S2(1) by simp
    show "card (S3 \<union> S2) \<le> 5" using card_Un_le [of S3 S2] S3(3) S2(3) by simp
  next
    fix zs assume dz: "distinct zs" and sub: "S3 \<union> S2 \<subseteq> set zs" and len: "length zs \<le> 9"
    from count_from_cards [OF dz _ S3(4)] sub S3(3) have z3: "3 \<le> rankCountOf zs ?t" by simp
    from count_from_cards [OF dz _ S2(4)] sub S2(3) have z2: "2 \<le> rankCountOf zs (hd ?c)" by simp
    from L_fh [OF z3 z2 f(3)]
    show "strength7 ys \<le> strength7 zs" unfolding strengthI [OF E7_fh [OF b fh]] .
  qed
qed

lemma carried_flush:
  assumes dy: "distinct ys" and b: "sfHigh ys = None" "quadOf ys = None" "\<not> cFH ys"
    and fl: "flushSuitOf ys = Some s"
  shows "carried ys"
proof -
  let ?D = "rev (sort (suitValues ys s))"
  let ?A = "take 5 ?D"
  let ?Y = "{c \<in> set ys. suit c = s}"
  from flushSuitOf_Some [OF fl] suitValues_length [OF dy, of s] have "5 \<le> length ?D" by simp
  then have lA: "length ?A = 5" by simp
  have sA: "sorted_wrt (>) ?A" by (rule sorted_wrt_take [OF suitValues_desc])
  then have dA: "distinct ?A" by (simp add: distinct_conv_nth sorted_wrt_iff_nth_less)
      (metis linorder_neqE_nat order_less_irrefl)
  have "set ?A \<subseteq> set ?D" by (rule set_take_subset)
  then have "set ?A \<subseteq> cardVal ` ?Y" by (simp add: suitValues_set)
  from cards_for_values [OF this] obtain S where
    S: "S \<subseteq> ?Y" "finite S" "card S = card (set ?A)" "cardVal ` S = set ?A" by auto
  from distinct_card [OF dA] lA S(3) have c5: "card S = 5" by simp
  show ?thesis
  proof (rule carriedI [of S])
    show "S \<subseteq> set ys" using S(1) by auto
    show "card S \<le> 5" using c5 by simp
  next
    fix zs assume dz: "distinct zs" and sub: "S \<subseteq> set zs" and len: "length zs \<le> 9"
    have all: "\<forall>c \<in> S. suit c = s" using S(1) by auto
    from suit_count_from_cards [OF dz sub all] c5 have "5 \<le> length (bySuit zs s)" by simp
    from flush_unique [OF this len] have fz: "flushSuitOf zs = Some s" .
    from suit_values_from_cards [OF sub all] S(4) have "set ?A \<subseteq> set (suitValues zs s)" by simp
    from L_flush [OF fz sA this] lA
    show "strength7 ys \<le> strength7 zs" unfolding strengthI [OF E7_flush [OF b fl]] by simp
  qed
qed

lemma kickers_cards:
  assumes "set K \<subseteq> set (valuesDesc ys) - X"
  shows "\<exists>S. S \<subseteq> set ys \<and> finite S \<and> card S \<le> length K
           \<and> (\<forall>zs. S \<subseteq> set zs \<longrightarrow> set K \<subseteq> set (valuesDesc zs) - X)"
proof -
  from assms have "set K \<subseteq> cardVal ` set ys" by (auto simp: valuesDesc_set)
  from cards_for_values [OF this] obtain S where
    S: "S \<subseteq> set ys" "finite S" "card S = card (set K)" "cardVal ` S = set K" by auto
  have "set K \<subseteq> set (valuesDesc zs) - X" if "S \<subseteq> set zs" for zs
    using values_from_cards [OF that] S(4) assms by auto
  moreover have "card S \<le> length K" using S(3) card_length [of K] by simp
  ultimately show ?thesis using S by (intro exI [of _ S]) auto
qed

lemma carried_trips:
  assumes dy: "distinct ys" and b: "quadOf ys = None" "\<not> cFH ys" "flushSuitOf ys = None"
    "findStraightHigh (uniqueValuesAsc ys) = None" and t: "tripsDesc ys \<noteq> []"
  shows "carried ys"
proof -
  let ?t = "hd (tripsDesc ys)"
  let ?F = "filter (\<lambda>v. v \<notin> {?t}) (valuesDesc ys)"
  let ?K = "take 2 ?F"
  from t have "?t \<in> set (tripsDesc ys)" by simp
  with tripsDesc_mem [of ?t ys] have c3: "3 \<le> rankCountOf ys ?t" by simp
  from cards_for_count [OF dy c3] obtain S3 where
    S3: "S3 \<subseteq> set ys" "finite S3" "card S3 = 3" "\<forall>c \<in> S3. cardVal c = ?t" by blast
  have sK: "sorted_wrt (>) ?K"
    by (rule sorted_wrt_take [OF sorted_wrt_filter [OF valuesDesc_strict]])
  have "set ?K \<subseteq> set ?F" by (rule set_take_subset)
  then have "set ?K \<subseteq> set (valuesDesc ys) - {?t}" by auto
  from kickers_cards [OF this] obtain SK where
    SK: "SK \<subseteq> set ys" "finite SK" "card SK \<le> length ?K"
    and up: "\<And>zs. SK \<subseteq> set zs \<Longrightarrow> set ?K \<subseteq> set (valuesDesc zs) - {?t}" by blast
  show ?thesis
  proof (rule carriedI [of "S3 \<union> SK"])
    show "S3 \<union> SK \<subseteq> set ys" using S3(1) SK(1) by simp
    have "length ?K \<le> 2" by simp
    with card_Un_le [of S3 SK] S3(3) SK(3) show "card (S3 \<union> SK) \<le> 5" by simp
  next
    fix zs assume dz: "distinct zs" and sub: "S3 \<union> SK \<subseteq> set zs" and len: "length zs \<le> 9"
    from count_from_cards [OF dz _ S3(4)] sub S3(3) have z3: "3 \<le> rankCountOf zs ?t" by simp
    from up [of zs] sub have "set ?K \<subseteq> set (valuesDesc zs) - {?t}" by simp
    from L_trips [OF z3 sK this]
    show "strength7 ys \<le> strength7 zs"
      unfolding E7_trips_pad [OF b t] by (simp add: pad_take)
  qed
qed

lemma carried_twopair:
  assumes dy: "distinct ys" and b: "quadOf ys = None" "\<not> cFH ys" "flushSuitOf ys = None"
    "findStraightHigh (uniqueValuesAsc ys) = None" "tripsDesc ys = []"
    and two: "2 \<le> length (pairsDesc ys)"
  shows "carried ys"
proof -
  let ?P = "pairsDesc ys"
  let ?k = "orElse (find (\<lambda>v. v \<noteq> ?P ! 0 \<and> v \<noteq> ?P ! 1) (valuesDesc ys)) 0"
  from two have l01: "0 < length ?P" "1 < length ?P" by linarith+
  have mem: "?P ! 0 \<in> set ?P" "?P ! 1 \<in> set ?P"
    by (rule nth_mem [OF l01(1)], rule nth_mem [OF l01(2)])
  from l01 pairsDesc_strict [of ys] have lt: "?P ! 1 < ?P ! 0"
    by (simp add: sorted_wrt_iff_nth_less)
  from mem pairsDesc_mem [of "?P ! 0" ys] pairsDesc_mem [of "?P ! 1" ys]
  have c: "2 \<le> rankCountOf ys (?P ! 0)" "2 \<le> rankCountOf ys (?P ! 1)" by auto
  from cards_for_count [OF dy c(1)] obtain Sa where
    Sa: "Sa \<subseteq> set ys" "finite Sa" "card Sa = 2" "\<forall>c \<in> Sa. cardVal c = ?P ! 0" by blast
  from cards_for_count [OF dy c(2)] obtain Sb where
    Sb: "Sb \<subseteq> set ys" "finite Sb" "card Sb = 2" "\<forall>c \<in> Sb. cardVal c = ?P ! 1" by blast
  have d0: "(0::int) = 0 \<or> (0::int) = 2" by simp
  note kc = kicker_cases [OF d0, of "\<lambda>v. v \<noteq> ?P ! 0 \<and> v \<noteq> ?P ! 1" ys]
  from kc have "?k \<in> set (valuesDesc ys) \<or> ?k = 0" by auto
  from kicker_card [OF this] obtain S1 where
    S1: "S1 \<subseteq> set ys" "finite S1" "card S1 \<le> 1"
    and up: "\<And>zs. S1 \<subseteq> set zs \<Longrightarrow> ?k = 0 \<or> ?k \<in> set (valuesDesc zs)" by blast
  show ?thesis
  proof (rule carriedI [of "Sa \<union> Sb \<union> S1"])
    show "Sa \<union> Sb \<union> S1 \<subseteq> set ys" using Sa(1) Sb(1) S1(1) by simp
    from card_Un_le [of "Sa \<union> Sb" S1] card_Un_le [of Sa Sb] Sa(3) Sb(3) S1(3)
    show "card (Sa \<union> Sb \<union> S1) \<le> 5" by simp
  next
    fix zs assume dz: "distinct zs" and sub: "Sa \<union> Sb \<union> S1 \<subseteq> set zs" and len: "length zs \<le> 9"
    from count_from_cards [OF dz _ Sa(4)] sub Sa(3) have za: "2 \<le> rankCountOf zs (?P ! 0)" by simp
    from count_from_cards [OF dz _ Sb(4)] sub Sb(3) have zb: "2 \<le> rankCountOf zs (?P ! 1)" by simp
    from up [of zs] sub kc
    have "?k = 0 \<or> ?k \<in> set (valuesDesc zs) \<and> ?k \<noteq> ?P ! 0 \<and> ?k \<noteq> ?P ! 1" by auto
    from L_twopair [OF za zb lt this]
    show "strength7 ys \<le> strength7 zs" unfolding strengthI [OF E7_twopair [OF b two]] .
  qed
qed

lemma carried_pair:
  assumes dy: "distinct ys" and b: "quadOf ys = None" "\<not> cFH ys" "flushSuitOf ys = None"
    "findStraightHigh (uniqueValuesAsc ys) = None" "tripsDesc ys = []"
    and one: "pairsDesc ys = [p]"
  shows "carried ys"
proof -
  let ?F = "filter (\<lambda>v. v \<notin> {p}) (valuesDesc ys)"
  let ?K = "take 3 ?F"
  from one have "p \<in> set (pairsDesc ys)" by simp
  with pairsDesc_mem [of p ys] have c2: "2 \<le> rankCountOf ys p" by simp
  from cards_for_count [OF dy c2] obtain S2 where
    S2: "S2 \<subseteq> set ys" "finite S2" "card S2 = 2" "\<forall>c \<in> S2. cardVal c = p" by blast
  have sK: "sorted_wrt (>) ?K"
    by (rule sorted_wrt_take [OF sorted_wrt_filter [OF valuesDesc_strict]])
  have "set ?K \<subseteq> set ?F" by (rule set_take_subset)
  then have "set ?K \<subseteq> set (valuesDesc ys) - {p}" by auto
  from kickers_cards [OF this] obtain SK where
    SK: "SK \<subseteq> set ys" "finite SK" "card SK \<le> length ?K"
    and up: "\<And>zs. SK \<subseteq> set zs \<Longrightarrow> set ?K \<subseteq> set (valuesDesc zs) - {p}" by blast
  show ?thesis
  proof (rule carriedI [of "S2 \<union> SK"])
    show "S2 \<union> SK \<subseteq> set ys" using S2(1) SK(1) by simp
    have "length ?K \<le> 3" by simp
    with card_Un_le [of S2 SK] S2(3) SK(3) show "card (S2 \<union> SK) \<le> 5" by simp
  next
    fix zs assume dz: "distinct zs" and sub: "S2 \<union> SK \<subseteq> set zs" and len: "length zs \<le> 9"
    from count_from_cards [OF dz _ S2(4)] sub S2(3) have z2: "2 \<le> rankCountOf zs p" by simp
    from up [of zs] sub have "set ?K \<subseteq> set (valuesDesc zs) - {p}" by simp
    from L_pair [OF z2 sK this]
    show "strength7 ys \<le> strength7 zs"
      unfolding E7_pair_pad [OF b one] by (simp add: pad_take)
  qed
qed

lemma carried_high:
  assumes dy: "distinct ys" and b: "quadOf ys = None" "flushSuitOf ys = None"
    "findStraightHigh (uniqueValuesAsc ys) = None" "pairsDesc ys = []"
  shows "carried ys"
proof -
  let ?A = "take 5 (valuesDesc ys)"
  have sA: "sorted_wrt (>) ?A" by (rule sorted_wrt_take [OF valuesDesc_strict])
  have "set ?A \<subseteq> set (valuesDesc ys)" by (rule set_take_subset)
  then have "set ?A \<subseteq> set (valuesDesc ys) - {}" by simp
  from kickers_cards [OF this] obtain S where
    S: "S \<subseteq> set ys" "finite S" "card S \<le> length ?A"
    and up: "\<And>zs. S \<subseteq> set zs \<Longrightarrow> set ?A \<subseteq> set (valuesDesc zs) - {}" by blast
  show ?thesis
  proof (rule carriedI [of S])
    show "S \<subseteq> set ys" by (rule S(1))
    have "length ?A \<le> 5" by simp
    with S(3) show "card S \<le> 5" by simp
  next
    fix zs assume dz: "distinct zs" and sub: "S \<subseteq> set zs" and len: "length zs \<le> 9"
    from up [OF sub] have "set ?A \<subseteq> set (valuesDesc zs)" by simp
    from L_high [OF sA this]
    show "strength7 ys \<le> strength7 zs" unfolding strengthI [OF E7_high [OF b]] by simp
  qed
qed

lemma strength_carried:
  assumes dy: "distinct ys"
  shows "carried ys"
proof (cases "sfHigh ys")
  case (Some h)
  from carried_sf [OF dy this] show ?thesis .
next
  case sf: None
  show ?thesis
  proof (cases "quadOf ys")
    case (Some q)
    from carried_quad [OF dy sf this] show ?thesis .
  next
    case nq: None
    show ?thesis
    proof (cases "cFH ys")
      case True
      from carried_fh [OF dy sf nq this] show ?thesis .
    next
      case nfh: False
      show ?thesis
      proof (cases "flushSuitOf ys")
        case (Some s)
        from carried_flush [OF dy sf nq nfh this] show ?thesis .
      next
        case nfl: None
        show ?thesis
        proof (cases "findStraightHigh (uniqueValuesAsc ys)")
          case (Some h)
          from carried_straight [OF dy nq nfh nfl this] show ?thesis .
        next
          case nst: None
          show ?thesis
          proof (cases "tripsDesc ys = []")
            case False
            from carried_trips [OF dy nq nfh nfl nst this] show ?thesis .
          next
            case nt: True
            show ?thesis
            proof (cases "2 \<le> length (pairsDesc ys)")
              case True
              from carried_twopair [OF dy nq nfh nfl nst nt this] show ?thesis .
            next
              case few: False
              show ?thesis
              proof (cases "pairsDesc ys")
                case Nil
                from carried_high [OF dy nq nfl nst this] show ?thesis .
              next
                case (Cons p rest)
                with few have "pairsDesc ys = [p]" by (cases rest) auto
                from carried_pair [OF dy nq nfh nfl nst nt this] show ?thesis .
              qed
            qed
          qed
        qed
      qed
    qed
  qed
qed

subsection \<open>Five cards: the two evaluators agree\<close>

lemma runAt_alt:
  "runAt W h = (h \<in> W \<and> h - 1 \<in> W \<and> h - 2 \<in> W \<and> h - 3 \<in> W \<and> h - 4 \<in> W)"
proof -
  have "{0..4::int} = {0, 1, 2, 3, 4}" by auto
  then show ?thesis unfolding runAt_def by auto
qed

lemma bestRun_eqI:
  assumes "finite W" and "h \<in> W" and "runAt W h" and "\<And>h'. h' \<in> W \<Longrightarrow> runAt W h' \<Longrightarrow> h' \<le> h"
  shows "bestRun W = Some h"
proof -
  from bestRun_lower [OF assms(1-3)] obtain h' where h': "bestRun W = Some h'" "h \<le> h'" by blast
  from bestRun_Some [OF assms(1) h'(1)] assms(4) have "h' \<le> h" by blast
  with h' show ?thesis by simp
qed

lemma bestRun_NoneI: "(\<And>h. h \<in> W \<Longrightarrow> \<not> runAt W h) \<Longrightarrow> bestRun W = None"
  unfolding bestRun_def by auto

lemma run_set:
  assumes rng: "\<forall>v \<in> S. 2 \<le> v \<and> v \<le> 14"
    and h: "h \<in> wheelSet S" and run: "runAt (wheelSet S) h"
  shows "5 \<le> h \<and> (if h = 5 then {2, 3, 4, 5, 14} else {h - 4, h - 3, h - 2, h - 1, h}) \<subseteq> S"
proof -
  from run have mem: "h - 4 \<in> wheelSet S" "h - 3 \<in> wheelSet S" "h - 2 \<in> wheelSet S"
    "h - 1 \<in> wheelSet S" unfolding runAt_def by auto
  note b = wheelSet_bounds [OF rng]
  from b [OF mem(1)] have h5: "5 \<le> h" by simp
  show ?thesis
  proof (cases "h = 5")
    case True
    with b [OF mem(1)] b [OF mem(2)] b [OF mem(3)] b [OF mem(4)] b [OF h]
    show ?thesis by auto
  next
    case False
    with h5 have "5 < h" by simp
    with b [OF mem(1)] b [OF mem(2)] b [OF mem(3)] b [OF mem(4)] b [OF h] False
    show ?thesis by auto
  qed
qed

lemma sort_eq_iff_set:
  fixes xs ys :: "int list"
  assumes "length xs = length ys" and "sorted ys" and "distinct ys"
  shows "sort xs = ys \<longleftrightarrow> set xs = set ys"
proof
  assume "sort xs = ys"
  then have "set (sort xs) = set ys" by simp
  then show "set xs = set ys" by simp
next
  assume s: "set xs = set ys"
  have "card (set xs) = length xs"
    unfolding s using assms(1,3) by (simp add: distinct_card)
  then have "distinct xs" by (rule card_distinct)
  then have "distinct (sort xs)" by simp
  then show "sort xs = ys"
    by (rule sorted_distinct_set_unique [OF sorted_sort _ assms(2,3)]) (simp add: s)
qed

lemma length5E: "length xs = 5 \<Longrightarrow> \<exists>a b c d e. xs = [a, b, c, d, e]"
  by (cases xs; cases "tl xs"; cases "tl (tl xs)"; cases "tl (tl (tl xs))";
      cases "tl (tl (tl (tl xs)))") auto

lemma consecutive5:
  "consecutive [a, b, c, d, e] \<longleftrightarrow> b = a + 1 \<and> c = a + 2 \<and> d = a + 3 \<and> e = a + 4"
  by auto

lemma aceLow_value:
  "(if Card.rank c = RA then 1 else rankToValue (Card.rank c) True)
     = (if cardVal c = 14 then 1 else cardVal c)"
  unfolding cardVal_def by (cases "Card.rank c") simp_all

lemma checkStraight_alt:
  "checkStraight s =
     (let vs = sort (map cardVal s) in
      if consecutive vs then Some \<lparr>rank = STRAIGHT, value = num_add (Num 5000000000) (lastNum vs)\<rparr>
      else if sort (map (\<lambda>c. if cardVal c = 14 then 1 else cardVal c) s) = [1, 2, 3, 4, 5]
           then Some \<lparr>rank = STRAIGHT, value = Num 5000000005\<rparr>
           else None)"
  unfolding checkStraight_def Let_def aceLow_value cardVal_def [abs_def] CATEGORY_BASE_def
  by simp

lemma checkStraight_spec:
  assumes len: "length s = 5"
  shows "checkStraight s =
           (case bestRun (wheelSet (cardVal ` set s)) of None \<Rightarrow> None
            | Some h \<Rightarrow> Some \<lparr>rank = STRAIGHT, value = Num (5000000000 + h)\<rparr>)"
proof -
  define S where "S = cardVal ` set s"
  define vs where "vs = sort (map cardVal s)"
  define al where "al = map (\<lambda>c. if cardVal c = 14 then 1 else cardVal c) s"
  let ?g = "\<lambda>v::int. if v = 14 then 1 else v"
  have lv: "length vs = 5" and sv: "sorted vs" and setv: "set vs = S"
    unfolding vs_def S_def using len by simp_all
  have lal: "length al = 5" unfolding al_def using len by simp
  have "al = map ?g (map cardVal s)" unfolding al_def by (simp add: comp_def)
  then have setal: "set al = ?g ` S" unfolding S_def by (simp only: set_map)
  have rng: "\<forall>v \<in> S. 2 \<le> v \<and> v \<le> 14" unfolding S_def using cardVal_range by auto
  have fin: "finite S" unfolding S_def by simp
  have finW: "finite (wheelSet S)" using fin by (simp add: wheelSet_def)
  have cardS: "card S \<le> 5" unfolding setv [symmetric] using card_length [of vs] lv by simp
  have vs_iff: "vs = ys \<longleftrightarrow> S = set ys" if "length ys = 5" "sorted ys" "distinct ys" for ys
    unfolding vs_def S_def using sort_eq_iff_set [of "map cardVal s" ys] that len by simp
  have al_iff: "sort al = [1, 2, 3, 4, 5] \<longleftrightarrow> ?g ` S = {1, 2, 3, 4, 5}"
    using sort_eq_iff_set [of al "[1, 2, 3, 4, 5]"] lal setal by simp
  have wheel_iff: "?g ` S = {1, 2, 3, 4, 5} \<longleftrightarrow> S = {2, 3, 4, 5, 14}"
  proof
    assume "S = {2, 3, 4, 5, 14}"
    then show "?g ` S = {1, 2, 3, 4, 5}" by auto
  next
    assume g: "?g ` S = {1, 2, 3, 4, 5}"
    have a: "v \<in> {2, 3, 4, 5, 14}" if "v \<in> S" for v
    proof -
      from that g have "?g v \<in> {1, 2, 3, 4, 5}" by blast
      with rng that show ?thesis by (auto split: if_splits)
    qed
    have b: "w \<in> S" if "w \<in> {2, 3, 4, 5}" for w
    proof -
      from that g have "w \<in> ?g ` S" by auto
      then obtain v where v: "v \<in> S" "w = ?g v" by blast
      with that show ?thesis by (auto split: if_splits)
    qed
    have c: "14 \<in> S"
    proof -
      from g have "1 \<in> ?g ` S" by auto
      then obtain v where v: "v \<in> S" "1 = ?g v" by blast
      with rng show ?thesis by (auto split: if_splits)
    qed
    show "S = {2, 3, 4, 5, 14}"
    proof (rule set_eqI, rule iffI)
      fix v assume "v \<in> S"
      then show "v \<in> {2, 3, 4, 5, 14}" by (rule a)
    next
      fix v :: int assume "v \<in> {2, 3, 4, 5, 14}"
      then have "v \<in> {2, 3, 4, 5} \<or> v = 14" by simp
      then show "v \<in> S"
      proof
        assume "v \<in> {2, 3, 4, 5}"
        then show ?thesis by (rule b)
      next
        assume "v = 14"
        with c show ?thesis by simp
      qed
    qed
  qed
  have runs: "S = (if h = 5 then {2, 3, 4, 5, 14} else {h - 4, h - 3, h - 2, h - 1, h})"
    if h: "h \<in> wheelSet S" "runAt (wheelSet S) h" for h
  proof -
    let ?T = "if h = 5 then {2, 3, 4, 5, 14} else {h - 4, h - 3, h - 2, h - 1, h}"
    from run_set [OF rng h] have sub: "?T \<subseteq> S" by simp
    have "card ?T = 5" by auto
    with cardS card_mono [OF fin sub] have "card ?T = card S" by simp
    from card_subset_eq [OF fin sub this] show ?thesis by simp
  qed
  from length5E [OF lv] obtain a b c d e where vs: "vs = [a, b, c, d, e]" by blast
  have cs: "checkStraight s =
      (if consecutive vs then Some \<lparr>rank = STRAIGHT, value = num_add (Num 5000000000) (lastNum vs)\<rparr>
       else if sort al = [1, 2, 3, 4, 5]
            then Some \<lparr>rank = STRAIGHT, value = Num 5000000005\<rparr> else None)"
    unfolding checkStraight_alt Let_def vs_def al_def ..
  show ?thesis
  proof (cases "consecutive vs")
    case True
    then have e: "b = a + 1" "c = a + 2" "d = a + 3" "e = a + 4" unfolding vs by auto
    have Seq: "S = {a, a + 1, a + 2, a + 3, a + 4}" unfolding setv [symmetric] vs e by auto
    from rng have a2: "2 \<le> a" unfolding Seq by simp
    have "bestRun (wheelSet S) = Some (a + 4)"
    proof (rule bestRun_eqI [OF finW])
      show "a + 4 \<in> wheelSet S" unfolding Seq wheelSet_def by simp
      show "runAt (wheelSet S) (a + 4)" unfolding runAt_alt Seq wheelSet_def by simp
      fix h' assume "h' \<in> wheelSet S"
      from wheelSet_bounds [OF rng this] a2 show "h' \<le> a + 4" unfolding Seq by auto
    qed
    with True show ?thesis
      unfolding cs S_def [symmetric] by (simp add: vs e lastNum_def)
  next
    case nc: False
    show ?thesis
    proof (cases "sort al = [1, 2, 3, 4, 5]")
      case True
      with al_iff wheel_iff have Seq: "S = {2, 3, 4, 5, 14}" by simp
      have "bestRun (wheelSet S) = Some 5"
      proof (rule bestRun_eqI [OF finW])
        show "5 \<in> wheelSet S" unfolding Seq wheelSet_def by simp
        show "runAt (wheelSet S) 5" unfolding runAt_alt Seq wheelSet_def by simp
        fix h' assume h': "h' \<in> wheelSet S" and r: "runAt (wheelSet S) h'"
        have W: "wheelSet S = {1, 2, 3, 4, 5, 14}" unfolding Seq wheelSet_def by auto
        from h' have "h' \<le> 5 \<or> h' = 14" unfolding W by auto
        moreover from r have "h' - 1 \<in> wheelSet S" unfolding runAt_alt by simp
        then have "h' \<noteq> 14" unfolding W by auto
        ultimately show "h' \<le> 5" by simp
      qed
      with nc True show ?thesis unfolding cs S_def [symmetric] by simp
    next
      case nw: False
      have "bestRun (wheelSet S) = None"
      proof (rule bestRun_NoneI)
        fix h assume h: "h \<in> wheelSet S"
        show "\<not> runAt (wheelSet S) h"
        proof
          assume r: "runAt (wheelSet S) h"
          note Seq = runs [OF h r]
          show False
          proof (cases "h = 5")
            case True
            with Seq al_iff wheel_iff nw show False by simp
          next
            case False
            with Seq have "S = set [h - 4, h - 3, h - 2, h - 1, h]" by simp
            with vs_iff [of "[h - 4, h - 3, h - 2, h - 1, h]"]
            have "vs = [h - 4, h - 3, h - 2, h - 1, h]" by simp
            with nc show False by simp
          qed
        qed
      qed
      with nc nw show ?thesis unfolding cs S_def [symmetric] by simp
    qed
  qed
qed

subsubsection \<open>Flushes among five cards\<close>

lemma filter_full:
  assumes "length xs \<le> length (filter P xs)"
  shows "filter P xs = xs"
proof -
  from sum_length_filter_compl [of P xs] assms
  have "length (filter (\<lambda>x. \<not> P x) xs) = 0" by linarith
  then have "filter (\<lambda>x. \<not> P x) xs = []" by (rule length_0_conv [THEN iffD1])
  then have "\<forall>x \<in> set xs. P x" by (simp add: filter_empty_conv)
  then show ?thesis by simp
qed

lemma isFlush_suit:
  assumes len: "length s = 5" and fl: "isFlush s"
  shows "flushSuitOf s = Some (suit (hd s))" and "bySuit s (suit (hd s)) = s"
proof -
  from fl have "\<forall>c \<in> set s. suit c = suit (hd s)" by (simp add: isFlush_def list_all_iff)
  then show b: "bySuit s (suit (hd s)) = s" unfolding bySuit_def by simp
  show "flushSuitOf s = Some (suit (hd s))"
    by (rule flush_unique) (simp_all add: b len)
qed

lemma flushSuit_isFlush:
  assumes len: "length s = 5" and fl: "flushSuitOf s = Some t"
  shows "isFlush s"
proof -
  from flushSuitOf_Some [OF fl] len have "length s \<le> length (filter (\<lambda>c. suit c = t) s)"
    by (simp add: bySuit_def)
  from filter_full [OF this] have all: "\<forall>c \<in> set s. suit c = t"
    by (rule filter_id_conv [THEN iffD1])
  from len have "s \<noteq> []" by auto
  then have "hd s \<in> set s" by simp
  with all show ?thesis by (simp add: isFlush_def list_all_iff)
qed

lemma isFlush_iff: "length s = 5 \<Longrightarrow> isFlush s \<longleftrightarrow> flushSuitOf s \<noteq> None"
  using isFlush_suit(1) [of s] flushSuit_isFlush [of s] by auto

lemma bySuit_all: "bySuit s t = s \<Longrightarrow> {c \<in> set s. suit c = t} = set s"
proof -
  assume "bySuit s t = s"
  then have "\<forall>c \<in> set s. suit c = t"
    unfolding bySuit_def by (rule filter_id_conv [THEN iffD1])
  then show ?thesis by auto
qed

lemma sfHigh_five:
  assumes len: "length s = 5"
  shows "sfHigh s = (if isFlush s then bestRun (wheelSet (cardVal ` set s)) else None)"
proof (cases "isFlush s")
  case True
  note f = isFlush_suit [OF len True]
  note all = bySuit_all [OF f(2)]
  show ?thesis
    unfolding sfHigh_def f(1) option.case findStraightHigh_suit all using True by simp
next
  case False
  with isFlush_iff [OF len] show ?thesis by (simp add: sfHigh_def)
qed

lemma rank_of_value:
  "rankToValue r True = 10 \<longleftrightarrow> r = RT" "rankToValue r True = 11 \<longleftrightarrow> r = RJ"
  "rankToValue r True = 12 \<longleftrightarrow> r = RQ" "rankToValue r True = 13 \<longleftrightarrow> r = RK"
  "rankToValue r True = 14 \<longleftrightarrow> r = RA"
  by (cases r; simp)+

lemma rank_mem_value: "r \<in> Card.rank ` set s \<longleftrightarrow> rankToValue r True \<in> cardVal ` set s"
proof
  assume "r \<in> Card.rank ` set s"
  then show "rankToValue r True \<in> cardVal ` set s" unfolding cardVal_def by auto
next
  assume "rankToValue r True \<in> cardVal ` set s"
  then obtain c where c: "c \<in> set s" "rankToValue r True = rankToValue (Card.rank c) True"
    unfolding cardVal_def by auto
  from rankToValue_inj [OF c(2)] c(1) show "r \<in> Card.rank ` set s" by auto
qed

lemma royal_run:
  assumes fin: "finite S" and rng: "\<forall>v \<in> S. 2 \<le> v \<and> v \<le> 14"
  shows "bestRun (wheelSet S) = Some 14 \<longleftrightarrow> 10 \<in> S \<and> 11 \<in> S \<and> 12 \<in> S \<and> 13 \<in> S \<and> 14 \<in> S"
proof
  have finW: "finite (wheelSet S)" using fin by (simp add: wheelSet_def)
  {
    assume "bestRun (wheelSet S) = Some 14"
    from bestRun_Some [OF finW this] have "runAt (wheelSet S) 14" by simp
    then have m: "14 \<in> wheelSet S" "13 \<in> wheelSet S" "12 \<in> wheelSet S" "11 \<in> wheelSet S"
      "10 \<in> wheelSet S" unfolding runAt_alt by simp_all
    note b = wheelSet_bounds [OF rng]
    from b [OF m(1)] b [OF m(2)] b [OF m(3)] b [OF m(4)] b [OF m(5)]
    show "10 \<in> S \<and> 11 \<in> S \<and> 12 \<in> S \<and> 13 \<in> S \<and> 14 \<in> S" by simp
  }
  {
    assume a: "10 \<in> S \<and> 11 \<in> S \<and> 12 \<in> S \<and> 13 \<in> S \<and> 14 \<in> S"
    show "bestRun (wheelSet S) = Some 14"
    proof (rule bestRun_eqI [OF finW])
      show "14 \<in> wheelSet S" using a unfolding wheelSet_def by simp
      show "runAt (wheelSet S) 14" using a unfolding runAt_alt wheelSet_def by simp
      fix h' assume "h' \<in> wheelSet S"
      from wheelSet_bounds [OF rng this] show "h' \<le> 14" by simp
    qed
  }
qed

lemma checkRoyalFlush_spec:
  assumes len: "length s = 5"
  shows "checkRoyalFlush s =
           (if sfHigh s = Some 14 then Some \<lparr>rank = ROYAL_FLUSH, value = Num 10000000014\<rparr> else None)"
proof -
  have rng: "\<forall>v \<in> cardVal ` set s. 2 \<le> v \<and> v \<le> 14" using cardVal_range by auto
  have fin: "finite (cardVal ` set s)" by simp
  have "list_all (\<lambda>r. r \<in> set (map Card.rank s)) [RT, RJ, RQ, RK, RA]
          \<longleftrightarrow> 10 \<in> cardVal ` set s \<and> 11 \<in> cardVal ` set s \<and> 12 \<in> cardVal ` set s
              \<and> 13 \<in> cardVal ` set s \<and> 14 \<in> cardVal ` set s"
    using rank_mem_value [of RT s] rank_mem_value [of RJ s] rank_mem_value [of RQ s]
      rank_mem_value [of RK s] rank_mem_value [of RA s] by simp
  then have "list_all (\<lambda>r. r \<in> set (map Card.rank s)) [RT, RJ, RQ, RK, RA]
          \<longleftrightarrow> bestRun (wheelSet (cardVal ` set s)) = Some 14"
    unfolding royal_run [OF fin rng] .
  then show ?thesis
    unfolding checkRoyalFlush_def sfHigh_five [OF len] by (simp add: CATEGORY_BASE_def)
qed

lemma checkStraightFlush_spec:
  assumes len: "length s = 5"
  shows "checkStraightFlush s =
           (case sfHigh s of None \<Rightarrow> None
            | Some h \<Rightarrow> Some \<lparr>rank = STRAIGHT_FLUSH, value = Num (9000000000 + h)\<rparr>)"
  unfolding checkStraightFlush_def sfHigh_five [OF len] checkStraight_spec [OF len]
  by (simp add: Let_def CATEGORY_BASE_def split: option.splits)

lemma flush_values_distinct:
  assumes "distinct s" and "isFlush s"
  shows "distinct (map cardVal s)"
proof -
  from assms(2) have all: "\<forall>c \<in> set s. suit c = suit (hd s)" by (simp add: isFlush_def list_all_iff)
  have "inj_on cardVal (set s)"
    by (rule inj_onI) (use all in \<open>auto intro: card_of_value_suit\<close>)
  with assms(1) show ?thesis by (simp add: distinct_map)
qed

lemma checkFlush_spec:
  assumes ds: "distinct s" and len: "length s = 5"
  shows "checkFlush s =
           (if flushSuitOf s \<noteq> None \<and> sfHigh s = None
            then Some \<lparr>rank = FLUSH,
                       value = Num (6000000000
                         + encodeInts (take 5 (rev (sort (suitValues s (the (flushSuitOf s)))))))\<rparr>
            else None)"
proof (cases "isFlush s")
  case False
  with isFlush_iff [OF len] show ?thesis by (simp add: checkFlush_def)
next
  case True
  note f = isFlush_suit [OF len True]
  from flush_values_distinct [OF ds True]
  have sv: "suitValues s (suit (hd s)) = map cardVal s"
    unfolding suitValues_def f(2) cardVal_def [abs_def] by simp
  have st: "checkStraight s \<noteq> None \<longleftrightarrow> sfHigh s \<noteq> None"
    unfolding checkStraight_spec [OF len] sfHigh_five [OF len] using True
    by (simp split: option.splits)
  show ?thesis
  proof (cases "sfHigh s")
    case None
    with st have "checkStraight s = None" by simp
    with True None f(1) len show ?thesis
      unfolding checkFlush_def Let_def
      by (simp add: sv encode_map_Num CATEGORY_BASE_def cardVal_def [abs_def])
  next
    case (Some h)
    with st have "checkStraight s \<noteq> None" by simp
    with True Some show ?thesis unfolding checkFlush_def by simp
  qed
qed

subsubsection \<open>Rank counts among five cards\<close>

lemma rankCount_value: "rankCount s r = rankCountOf s (rankToValue r True)"
  unfolding rankCount_def rankCountOf_def
  by (induction s) (auto dest: rankToValue_inj)

lemma key_value_mem: "r \<in> set (rankKeys s) \<Longrightarrow> rankToValue r True \<in> set (valuesDesc s)"
  unfolding rankKeys_set valuesDesc_set by (rule rank_mem_value [THEN iffD1])

lemma value_key: "v \<in> set (valuesDesc s) \<Longrightarrow> \<exists>r \<in> set (rankKeys s). rankToValue r True = v"
  unfolding valuesDesc_set rankKeys_set cardVal_def by auto

lemma desc_unique:
  fixes xs ys :: "int list"
  assumes "sorted_wrt (>) xs" and "sorted_wrt (>) ys" and "set xs = set ys"
  shows "xs = ys"
proof -
  have "sorted_wrt (<) (rev xs)" "sorted_wrt (<) (rev ys)"
    using assms(1,2) by (simp_all add: sorted_wrt_rev)
  then have "sorted (rev xs)" "distinct (rev xs)" "sorted (rev ys)" "distinct (rev ys)"
    by (simp_all add: strict_sorted_iff)
  from sorted_distinct_set_unique [OF this] assms(3) have "rev xs = rev ys" by simp
  then show ?thesis by simp
qed

lemma keys_filter_values:
  assumes "\<And>r. r \<in> set (rankKeys s) \<Longrightarrow> P r \<longleftrightarrow> Q (rankToValue r True)"
  shows "rev (sort (map (\<lambda>r. rankToValue r True) (filter P (rankKeys s)))) = filter Q (valuesDesc s)"
proof (rule desc_unique)
  let ?xs = "map (\<lambda>r. rankToValue r True) (filter P (rankKeys s))"
  have "inj_on (\<lambda>r. rankToValue r True) (set (filter P (rankKeys s)))"
    by (rule inj_onI) (rule rankToValue_inj)
  then have "distinct ?xs" using rankKeys_distinct [of s] by (simp add: distinct_map)
  then have "sorted_wrt (<) (sort ?xs)" by (simp add: strict_sorted_iff)
  then show "sorted_wrt (>) (rev (sort ?xs))" by (simp add: sorted_wrt_rev)
  show "sorted_wrt (>) (filter Q (valuesDesc s))"
    by (rule sorted_wrt_filter [OF valuesDesc_strict])
  show "set (rev (sort ?xs)) = set (filter Q (valuesDesc s))"
  proof (rule set_eqI, rule iffI)
    fix v assume "v \<in> set (rev (sort ?xs))"
    then obtain r where r: "r \<in> set (rankKeys s)" "P r" "v = rankToValue r True" by auto
    with assms [OF r(1)] key_value_mem [OF r(1)] show "v \<in> set (filter Q (valuesDesc s))" by simp
  next
    fix v assume "v \<in> set (filter Q (valuesDesc s))"
    then have v: "v \<in> set (valuesDesc s)" "Q v" by simp_all
    from value_key [OF v(1)] obtain r where r: "r \<in> set (rankKeys s)" "rankToValue r True = v"
      by blast
    with assms [OF r(1)] v(2) have "P r" by simp
    with r show "v \<in> set (rev (sort ?xs))" by auto
  qed
qed

lemma indicator_sum_le:
  "distinct xs \<Longrightarrow> sum_list (map (\<lambda>v. if a = v then 1 else 0) xs) \<le> (1::nat)"
  by (induction xs) auto

lemma rankCountOf_Cons:
  "rankCountOf (c # s) v = (if cardVal c = v then 1 else 0) + rankCountOf s v"
  by (simp add: rankCountOf_def cardVal_def)

lemma cnt_sum: "distinct xs \<Longrightarrow> sum_list (map (rankCountOf s) xs) \<le> length s"
proof (induction s)
  case Nil
  then show ?case by (simp add: rankCountOf_def)
next
  case (Cons c s)
  have "sum_list (map (rankCountOf (c # s)) xs)
          = sum_list (map (\<lambda>v. if cardVal c = v then 1 else 0) xs)
            + sum_list (map (rankCountOf s) xs)"
    unfolding rankCountOf_Cons by (simp add: sum_list_addf)
  with indicator_sum_le [OF Cons.prems, of "cardVal c"] Cons.IH [OF Cons.prems]
  show ?case by simp
qed

lemma mem_nonempty: "x \<in> set xs \<Longrightarrow> xs \<noteq> []"
  by auto

lemma key_with_count:
  assumes "r \<in> set (rankKeys s)" and "rankCountOf s (rankToValue r True) = n"
  shows "filter (\<lambda>r. rankCount s r = n) (rankKeys s) \<noteq> []"
proof -
  from assms have "r \<in> set (filter (\<lambda>r. rankCount s r = n) (rankKeys s))"
    by (simp add: rankCount_value)
  then show ?thesis by (rule mem_nonempty)
qed

lemma cnt_pos: "v \<in> set (valuesDesc s) \<Longrightarrow> 1 \<le> rankCountOf s v"
proof -
  assume "v \<in> set (valuesDesc s)"
  then obtain c where c: "c \<in> set s" "cardVal c = v" unfolding valuesDesc_set by auto
  then have "c \<in> set (filter (\<lambda>c. rankToValue (Card.rank c) True = v) s)"
    by (simp add: cardVal_def)
  then have "filter (\<lambda>c. rankToValue (Card.rank c) True = v) s \<noteq> []" by (rule mem_nonempty)
  then show ?thesis
    unfolding rankCountOf_def
    by (cases "filter (\<lambda>c. rankToValue (Card.rank c) True = v) s") auto
qed

lemma trips_in_values: "v \<in> set (tripsDesc s) \<Longrightarrow> v \<in> set (valuesDesc s)"
  by (simp add: tripsDesc_def)

lemma pairs_in_values: "v \<in> set (pairsDesc s) \<Longrightarrow> v \<in> set (valuesDesc s)"
  by (simp add: pairsDesc_def)

lemma value_nonzero: "v \<in> set (valuesDesc s) \<Longrightarrow> v \<noteq> 0"
  using valuesDesc_range [of v s] by auto

lemma checkFourOfAKind_spec:
  assumes len: "length s = 5"
  shows "checkFourOfAKind s =
           (case quadOf s of None \<Rightarrow> None
            | Some q \<Rightarrow> Some \<lparr>rank = FOUR_OF_A_KIND,
                value = Num (8000000000
                  + (q * 15 + orElse (find (\<lambda>v. v \<noteq> q) (valuesDesc s)) 2))\<rparr>)"
proof (cases "quadOf s")
  case None
  then have no: "\<forall>v \<in> set (valuesDesc s). rankCountOf s v \<noteq> 4"
    by (simp add: quadOf_def find_None_iff)
  have "find (\<lambda>r. rankCount s r = 4) (rankKeys s) = None"
    unfolding find_None_iff using no key_value_mem [of _ s] by (auto simp: rankCount_value)
  with None show ?thesis by (simp add: checkFourOfAKind_alt)
next
  case (Some q)
  from quadOf_Some [OF Some] have q: "q \<in> set (valuesDesc s)" "rankCountOf s q = 4" by auto
  from value_key [OF q(1)] obtain rq where rq: "rq \<in> set (rankKeys s)" "rankToValue rq True = q"
    by blast
  with q(2) have "filter (\<lambda>r. rankCount s r = 4) (rankKeys s) \<noteq> []"
    by (intro key_with_count [of rq]) simp_all
  from find_filter_ne [OF this] obtain r4
    where "find (\<lambda>r. rankCount s r = 4) (rankKeys s) = Some r4" ..
  then obtain e where e: "checkFourOfAKind s = Some e" by (simp add: checkFourOfAKind_alt)
  from checkFourOfAKind_shape [OF len e] obtain q' k where
    sh: "rankCount s q' = 4" "q' \<in> set (rankKeys s)" "k \<in> set (rankKeys s)" "k \<noteq> q'"
        "e = \<lparr>rank = FOUR_OF_A_KIND,
              value = Num (8000000000 + (rankToValue q' True * 15 + rankToValue k True))\<rparr>"
    by blast
  have qq: "rankToValue q' True = q"
  proof (rule ccontr)
    assume "rankToValue q' True \<noteq> q"
    then have "distinct [rankToValue q' True, q]" by simp
    from cnt_sum [OF this, of s] sh(1) q(2) len show False by (simp add: rankCount_value)
  qed
  have kne: "rankToValue k True \<noteq> q"
  proof
    assume "rankToValue k True = q"
    with qq have "rankToValue k True = rankToValue q' True" by simp
    from rankToValue_inj [OF this] sh(4) show False by simp
  qed
  note kV = key_value_mem [OF sh(3)]
  with kne have "filter (\<lambda>v. v \<noteq> q) (valuesDesc s) \<noteq> []" by (auto simp: filter_empty_conv)
  from find_filter_ne [OF this] obtain k' where k': "find (\<lambda>v. v \<noteq> q) (valuesDesc s) = Some k'" ..
  from find_SomeD [OF k'] have k'V: "k' \<in> set (valuesDesc s)" "k' \<noteq> q" by auto
  have kk: "k' = rankToValue k True"
  proof (rule ccontr)
    assume "k' \<noteq> rankToValue k True"
    with kne k'V have "distinct [q, k', rankToValue k True]" by auto
    from cnt_sum [OF this, of s] q(2) cnt_pos [OF k'V(1)] cnt_pos [OF kV] len show False by simp
  qed
  from value_nonzero [OF k'V(1)] have "orElse (Some k') 2 = k'" by (simp add: orElse_def)
  with Some e sh(5) qq k' kk show ?thesis by simp
qed

lemma checkFullHouse_spec:
  assumes len: "length s = 5"
  shows "checkFullHouse s =
           (if cFH s
            then Some \<lparr>rank = FULL_HOUSE,
                  value = Num (7000000000 + (hd (tripsDesc s) * 15
                        + hd (filter (\<lambda>v. v \<noteq> hd (tripsDesc s)) (pairsDesc s))))\<rparr>
            else None)"
proof (cases "cFH s")
  case True
  let ?t = "hd (tripsDesc s)"
  let ?c = "filter (\<lambda>v. v \<noteq> ?t) (pairsDesc s)"
  let ?p = "hd ?c"
  from True have tne: "tripsDesc s \<noteq> []" and cne: "?c \<noteq> []" by (auto simp: cFH_def)
  from tne have tm: "?t \<in> set (tripsDesc s)" by simp
  from hd_filter_mem [OF cne] have pm: "?p \<in> set (pairsDesc s)" "?p \<noteq> ?t" by auto
  from tripsDesc_mem [OF tm] pairsDesc_mem [OF pm(1)]
  have c: "3 \<le> rankCountOf s ?t" "2 \<le> rankCountOf s ?p" by auto
  from pm(2) have "distinct [?t, ?p]" by simp
  from cnt_sum [OF this, of s] len c have ce: "rankCountOf s ?t = 3" "rankCountOf s ?p = 2"
    by simp_all
  from value_key [OF trips_in_values [OF tm]] obtain rt
    where rt: "rt \<in> set (rankKeys s)" "rankToValue rt True = ?t" by blast
  from value_key [OF pairs_in_values [OF pm(1)]] obtain rp
    where rp: "rp \<in> set (rankKeys s)" "rankToValue rp True = ?p" by blast
  from rt ce(1) have "filter (\<lambda>r. rankCount s r = 3) (rankKeys s) \<noteq> []"
    by (intro key_with_count [of rt]) simp_all
  from find_filter_ne [OF this] obtain r3
    where f3: "find (\<lambda>r. rankCount s r = 3) (rankKeys s) = Some r3" ..
  from find_SomeD [OF f3] have c3: "rankCountOf s (rankToValue r3 True) = 3"
    by (simp add: rankCount_value)
  have v3: "rankToValue r3 True = ?t"
  proof (rule ccontr)
    assume "rankToValue r3 True \<noteq> ?t"
    then have "distinct [rankToValue r3 True, ?t]" by simp
    from cnt_sum [OF this, of s] c3 ce(1) len show False by simp
  qed
  from rp ce(2) have "filter (\<lambda>r. rankCount s r = 2) (rankKeys s) \<noteq> []"
    by (intro key_with_count [of rp]) simp_all
  from find_filter_ne [OF this] obtain r2
    where f2: "find (\<lambda>r. rankCount s r = 2) (rankKeys s) = Some r2" ..
  from find_SomeD [OF f2] have c2: "rankCountOf s (rankToValue r2 True) = 2"
    by (simp add: rankCount_value)
  from c2 ce(1) have n2: "rankToValue r2 True \<noteq> ?t" by auto
  have v2: "rankToValue r2 True = ?p"
  proof (rule ccontr)
    assume "rankToValue r2 True \<noteq> ?p"
    with n2 pm(2) have "distinct [?t, ?p, rankToValue r2 True]" by auto
    from cnt_sum [OF this, of s] c2 ce len show False by simp
  qed
  from True show ?thesis
    by (simp add: checkFullHouse_alt f3 f2 v3 v2 encode_def CATEGORY_BASE_def)
next
  case False
  have "checkFullHouse s = None"
  proof (rule ccontr)
    assume "checkFullHouse s \<noteq> None"
    then obtain e where "checkFullHouse s = Some e" by auto
    from checkFullHouse_shape [OF this] obtain t p where
      f: "find (\<lambda>r. rankCount s r = 3) (rankKeys s) = Some t"
         "find (\<lambda>r. rankCount s r = 2) (rankKeys s) = Some p" by blast
    from find_SomeD [OF f(1)] find_SomeD [OF f(2)]
    have c: "rankCountOf s (rankToValue t True) = 3" "rankCountOf s (rankToValue p True) = 2"
      by (simp_all add: rankCount_value)
    from c(1) in_tripsDesc [of s "rankToValue t True"] have tne: "tripsDesc s \<noteq> []" by auto
    then have "hd (tripsDesc s) \<in> set (tripsDesc s)" by simp
    from tripsDesc_mem [OF this] have "3 \<le> rankCountOf s (hd (tripsDesc s))" by simp
    with c(2) have "rankToValue p True \<noteq> hd (tripsDesc s)" by auto
    moreover from c(2) in_pairsDesc [of s "rankToValue p True"]
    have "rankToValue p True \<in> set (pairsDesc s)" by simp
    ultimately have "filter (\<lambda>v. v \<noteq> hd (tripsDesc s)) (pairsDesc s) \<noteq> []"
      by (auto simp: filter_empty_conv)
    with tne have "cFH s" by (simp add: cFH_def)
    with False show False ..
  qed
  with False show ?thesis by simp
qed

lemma no_trips_key:
  assumes "tripsDesc s = []"
  shows "find (\<lambda>r. rankCount s r = 3) (rankKeys s) = None"
proof -
  have "rankCount s r \<noteq> 3" for r
  proof
    assume "rankCount s r = 3"
    then have "3 \<le> rankCountOf s (rankToValue r True)" by (simp add: rankCount_value)
    from in_tripsDesc [OF this] assms show False by simp
  qed
  then show ?thesis by (simp add: find_None_iff)
qed

lemma checkThreeOfAKind_spec:
  assumes ds: "distinct s" and len: "length s = 5" and nq: "quadOf s = None" and nfh: "\<not> cFH s"
  shows "checkThreeOfAKind s =
           (if tripsDesc s \<noteq> []
            then Some \<lparr>rank = THREE_OF_A_KIND,
                  value = Num (4000000000
                      + encodeInts [hd (tripsDesc s),
                          orElse (nthOpt (take 2 (filter (\<lambda>v. v \<noteq> hd (tripsDesc s)) (valuesDesc s))) 0) 0,
                          orElse (nthOpt (take 2 (filter (\<lambda>v. v \<noteq> hd (tripsDesc s)) (valuesDesc s))) 1) 0])\<rparr>
            else None)"
proof (cases "tripsDesc s = []")
  case True
  from no_trips_key [OF True] have "checkThreeOfAKind s = None"
    by (simp add: checkThreeOfAKind_None)
  with True show ?thesis by simp
next
  case False
  let ?t = "hd (tripsDesc s)"
  let ?F = "filter (\<lambda>v. v \<noteq> ?t) (valuesDesc s)"
  from False have tm: "?t \<in> set (tripsDesc s)" by simp
  note tV = trips_in_values [OF tm]
  from nq tV have "rankCountOf s ?t \<noteq> 4" by (simp add: quadOf_def find_None_iff)
  with tripsDesc_mem [OF tm] count_le_4 [OF ds, of ?t] have c3: "rankCountOf s ?t = 3" by simp
  from value_key [OF tV] obtain rt where rt: "rt \<in> set (rankKeys s)" "rankToValue rt True = ?t"
    by blast
  with c3 have "filter (\<lambda>r. rankCount s r = 3) (rankKeys s) \<noteq> []"
    by (intro key_with_count [of rt]) simp_all
  from find_filter_ne [OF this] have "find (\<lambda>r. rankCount s r = 3) (rankKeys s) \<noteq> None" by auto
  then have "checkThreeOfAKind s \<noteq> None" by (simp add: checkThreeOfAKind_None)
  then obtain e where e: "checkThreeOfAKind s = Some e" by auto
  have fh: "checkFullHouse s = None" using nfh by (simp add: checkFullHouse_spec [OF len])
  from checkThreeOfAKind_shape [OF len fh e] obtain t' k1 k2 where
    sh: "find (\<lambda>r. rankCount s r = 3) (rankKeys s) = Some t'"
        "rev (sort (map (\<lambda>r. rankToValue r True) (filter (\<lambda>r. r \<noteq> t') (rankKeys s)))) = [k1, k2]"
        "e = \<lparr>rank = THREE_OF_A_KIND,
              value = Num (4000000000 + encodeInts [rankToValue t' True, k1, k2])\<rparr>"
    by blast
  from find_SomeD [OF sh(1)] have "3 \<le> rankCountOf s (rankToValue t' True)"
    by (simp add: rankCount_value)
  from in_tripsDesc [OF this] have m: "rankToValue t' True \<in> set (tripsDesc s)" .
  from no_second_trips [OF nfh] False obtain x where "tripsDesc s = [x]"
    by (cases "tripsDesc s"; cases "tl (tripsDesc s)") auto
  with m have tt: "rankToValue t' True = ?t" by simp
  have "rev (sort (map (\<lambda>r. rankToValue r True) (filter (\<lambda>r. r \<noteq> t') (rankKeys s)))) = ?F"
  proof (rule keys_filter_values)
    fix r
    show "r \<noteq> t' \<longleftrightarrow> rankToValue r True \<noteq> ?t"
      unfolding tt [symmetric] using rankToValue_inj [of r t'] by auto
  qed
  with sh(2) have F: "?F = [k1, k2]" by simp
  then have "k1 \<in> set ?F" "k2 \<in> set ?F" by simp_all
  then have "k1 \<in> set (valuesDesc s)" "k2 \<in> set (valuesDesc s)" by simp_all
  then have nz: "k1 \<noteq> 0" "k2 \<noteq> 0" by (auto dest: value_nonzero)
  from False e sh(3) tt nz show ?thesis
    unfolding F by (simp add: nthOpt_def orElse_def)
qed

lemma pairs_exact:
  assumes "tripsDesc s = []"
  shows "rankCountOf s v = 2 \<longleftrightarrow> 2 \<le> rankCountOf s v"
proof -
  have "\<not> 3 \<le> rankCountOf s v" using in_tripsDesc [of s v] assms by auto
  then show ?thesis by auto
qed

lemma pair_keys:
  assumes "tripsDesc s = []"
  shows "rev (sort (map (\<lambda>r. rankToValue r True) (filter (\<lambda>r. rankCount s r = 2) (rankKeys s))))
           = pairsDesc s"
  unfolding pairsDesc_def
  by (rule keys_filter_values) (simp add: rankCount_value pairs_exact [OF assms])

lemma nth_desc_distinct:
  fixes xs :: "int list"
  assumes "sorted_wrt (>) xs" and "i < j" and "j < length xs"
  shows "xs ! i \<noteq> xs ! j"
  using sorted_wrt_nth_less [OF assms] by simp

lemma pairs_at_most_two:
  assumes len: "length s = 5"
  shows "length (pairsDesc s) \<le> 2"
proof (rule ccontr)
  let ?P = "pairsDesc s"
  assume "\<not> length ?P \<le> 2"
  then have l: "0 < length ?P" "1 < length ?P" "2 < length ?P" by linarith+
  note st = pairsDesc_strict [of s]
  have d: "distinct [?P ! 0, ?P ! 1, ?P ! 2]"
    using nth_desc_distinct [OF st, of 0 1] nth_desc_distinct [OF st, of 0 2]
      nth_desc_distinct [OF st, of 1 2] l by simp
  have m: "?P ! 0 \<in> set ?P" "?P ! 1 \<in> set ?P" "?P ! 2 \<in> set ?P"
    using l by (simp_all only: nth_mem)
  from pairsDesc_mem [OF m(1)] pairsDesc_mem [OF m(2)] pairsDesc_mem [OF m(3)]
    cnt_sum [OF d, of s] len
  show False by simp
qed

lemma checkTwoPair_spec:
  assumes len: "length s = 5" and nt: "tripsDesc s = []"
  shows "checkTwoPair s =
           (if 2 \<le> length (pairsDesc s)
            then Some \<lparr>rank = TWO_PAIR,
                  value = Num (3000000000
                      + encodeInts [pairsDesc s ! 0, pairsDesc s ! 1,
                          orElse (find (\<lambda>v. v \<noteq> pairsDesc s ! 0 \<and> v \<noteq> pairsDesc s ! 1)
                                       (valuesDesc s)) 0])\<rparr>
            else None)"
proof -
  let ?P = "pairsDesc s"
  let ?K = "filter (\<lambda>r. rankCount s r = 2) (rankKeys s)"
  note pk = pair_keys [OF nt]
  have "length (rev (sort (map (\<lambda>r. rankToValue r True) ?K))) = length ?K" by simp
  then have lk: "length ?K = length ?P" unfolding pk by simp
  show ?thesis
  proof (cases "2 \<le> length ?P")
    case False
    with lk have "length ?K \<noteq> 2" by simp
    then have "checkTwoPair s = None" by (simp add: checkTwoPair_None)
    with False show ?thesis by simp
  next
    case True
    with pairs_at_most_two [OF len] have l2: "length ?P = 2" by simp
    with lk have "checkTwoPair s \<noteq> None" by (simp add: checkTwoPair_None)
    then obtain e where e: "checkTwoPair s = Some e" by auto
    from checkTwoPair_shape [OF len e] obtain p1 p2 k where
      sh: "rev (sort (map (\<lambda>r. rankToValue r True) ?K)) = [p1, p2]"
          "find (\<lambda>r. rankCount s r = 1) (rankKeys s) = Some k"
          "e = \<lparr>rank = TWO_PAIR,
                value = Num (3000000000 + encodeInts [p1, p2, rankToValue k True])\<rparr>"
      by blast
    from sh(1) have P: "?P = [p1, p2]" unfolding pk .
    from pairsDesc_strict [of s] have ne: "p1 \<noteq> p2" unfolding P by simp
    have c: "2 \<le> rankCountOf s p1" "2 \<le> rankCountOf s p2"
      using pairsDesc_mem [of p1 s] pairsDesc_mem [of p2 s] unfolding P by simp_all
    from find_SomeD [OF sh(2)] have k: "k \<in> set (rankKeys s)"
      "rankCountOf s (rankToValue k True) = 1" by (simp_all add: rankCount_value)
    note kV = key_value_mem [OF k(1)]
    from k(2) c have kn: "rankToValue k True \<noteq> p1" "rankToValue k True \<noteq> p2" by auto
    with kV have "rankToValue k True \<in> set (filter (\<lambda>v. v \<noteq> p1 \<and> v \<noteq> p2) (valuesDesc s))"
      by simp
    then have "filter (\<lambda>v. v \<noteq> p1 \<and> v \<noteq> p2) (valuesDesc s) \<noteq> []" by (rule mem_nonempty)
    from find_filter_ne [OF this] obtain k'
      where k': "find (\<lambda>v. v \<noteq> p1 \<and> v \<noteq> p2) (valuesDesc s) = Some k'" ..
    from find_SomeD [OF k'] have k'V: "k' \<in> set (valuesDesc s)" "k' \<noteq> p1" "k' \<noteq> p2" by auto
    have kk: "k' = rankToValue k True"
    proof (rule ccontr)
      assume "k' \<noteq> rankToValue k True"
      with kn k'V ne have "distinct [p1, p2, k', rankToValue k True]" by auto
      from cnt_sum [OF this, of s] c cnt_pos [OF k'V(1)] k(2) len show False by simp
    qed
    from value_nonzero [OF k'V(1)] have "orElse (Some k') 0 = k'" by (simp add: orElse_def)
    with True e sh(3) k' kk show ?thesis unfolding P by simp
  qed
qed

lemma checkOnePair_spec:
  assumes len: "length s = 5" and nt: "tripsDesc s = []" and few: "length (pairsDesc s) < 2"
  shows "checkOnePair s =
           (if length (pairsDesc s) = 1
            then Some \<lparr>rank = PAIR,
                  value = Num (2000000000
                      + encodeInts [pairsDesc s ! 0,
                          orElse (nthOpt (take 3 (filter (\<lambda>v. v \<noteq> pairsDesc s ! 0) (valuesDesc s))) 0) 0,
                          orElse (nthOpt (take 3 (filter (\<lambda>v. v \<noteq> pairsDesc s ! 0) (valuesDesc s))) 1) 0,
                          orElse (nthOpt (take 3 (filter (\<lambda>v. v \<noteq> pairsDesc s ! 0) (valuesDesc s))) 2) 0])\<rparr>
            else None)"
proof (cases "length (pairsDesc s) = 1")
  case False
  with few have "length (pairsDesc s) = 0" by linarith
  then have np: "pairsDesc s = []" by simp
  have "rankCount s r \<noteq> 2" for r
  proof
    assume "rankCount s r = 2"
    then have "2 \<le> rankCountOf s (rankToValue r True)" by (simp add: rankCount_value)
    from in_pairsDesc [OF this] np show False by simp
  qed
  then have "find (\<lambda>r. rankCount s r = 2) (rankKeys s) = None" by (simp add: find_None_iff)
  then have "checkOnePair s = None" by (simp add: checkOnePair_alt)
  with False show ?thesis by simp
next
  case True
  then obtain p where P: "pairsDesc s = [p]"
    by (cases "pairsDesc s") auto
  let ?F = "filter (\<lambda>v. v \<noteq> p) (valuesDesc s)"
  have pm: "p \<in> set (pairsDesc s)" unfolding P by simp
  from pairsDesc_mem [OF pm] pairs_exact [OF nt, of p] have c2: "rankCountOf s p = 2" by simp
  from value_key [OF pairs_in_values [OF pm]] obtain rp
    where rp: "rp \<in> set (rankKeys s)" "rankToValue rp True = p" by blast
  with c2 have "filter (\<lambda>r. rankCount s r = 2) (rankKeys s) \<noteq> []"
    by (intro key_with_count [of rp]) simp_all
  from find_filter_ne [OF this] obtain r2
    where "find (\<lambda>r. rankCount s r = 2) (rankKeys s) = Some r2" ..
  then obtain e where e: "checkOnePair s = Some e" by (simp add: checkOnePair_alt Let_def)
  have three: "checkThreeOfAKind s = None"
    using no_trips_key [OF nt] by (simp add: checkThreeOfAKind_None)
  have tp: "checkTwoPair s = None" using few by (simp add: checkTwoPair_spec [OF len nt])
  from checkOnePair_shape [OF len three tp e] obtain p' k1 k2 k3 where
    sh: "find (\<lambda>r. rankCount s r = 2) (rankKeys s) = Some p'"
        "rev (sort (map (\<lambda>r. rankToValue r True) (filter (\<lambda>r. r \<noteq> p') (rankKeys s))))
           = [k1, k2, k3]"
        "e = \<lparr>rank = PAIR,
              value = Num (2000000000 + encodeInts [rankToValue p' True, k1, k2, k3])\<rparr>"
    by blast
  from find_SomeD [OF sh(1)] have "2 \<le> rankCountOf s (rankToValue p' True)"
    by (simp add: rankCount_value)
  from in_pairsDesc [OF this] have pp: "rankToValue p' True = p" unfolding P by simp
  have "rev (sort (map (\<lambda>r. rankToValue r True) (filter (\<lambda>r. r \<noteq> p') (rankKeys s)))) = ?F"
  proof (rule keys_filter_values)
    fix r
    show "r \<noteq> p' \<longleftrightarrow> rankToValue r True \<noteq> p"
      unfolding pp [symmetric] using rankToValue_inj [of r p'] by auto
  qed
  with sh(2) have F: "?F = [k1, k2, k3]" by simp
  then have "k1 \<in> set ?F" "k2 \<in> set ?F" "k3 \<in> set ?F" by simp_all
  then have "k1 \<in> set (valuesDesc s)" "k2 \<in> set (valuesDesc s)" "k3 \<in> set (valuesDesc s)"
    by simp_all
  then have nz: "k1 \<noteq> 0" "k2 \<noteq> 0" "k3 \<noteq> 0" by (auto dest: value_nonzero)
  from True e sh(3) pp nz show ?thesis
    unfolding P by (simp add: F nthOpt_def orElse_def)
qed

lemma distinct_if_counts:
  "(\<And>v. rankCountOf s v \<le> 1) \<Longrightarrow> distinct (map cardVal s)"
proof (induction s)
  case Nil
  then show ?case by simp
next
  case (Cons c s)
  have le: "rankCountOf s v \<le> 1" for v
    using Cons.prems [of v] unfolding rankCountOf_Cons by simp
  have "cardVal c \<notin> cardVal ` set s"
  proof
    assume "cardVal c \<in> cardVal ` set s"
    then have "cardVal c \<in> set (valuesDesc s)" by (simp add: valuesDesc_set)
    from cnt_pos [OF this] Cons.prems [of "cardVal c"] show False
      unfolding rankCountOf_Cons by simp
  qed
  with Cons.IH [OF le] show ?case by simp
qed

lemma checkHighCard_spec:
  assumes len: "length s = 5" and np: "pairsDesc s = []"
  shows "checkHighCard s =
           \<lparr>rank = HIGH_CARD, value = Num (1000000000 + encodeInts (take 5 (valuesDesc s)))\<rparr>"
proof -
  have "rankCountOf s v \<le> 1" for v
    using in_pairsDesc [of s v] np by (cases "2 \<le> rankCountOf s v") auto
  then have d: "distinct (map cardVal s)" by (rule distinct_if_counts)
  then have "valuesDesc s = rev (sort (map cardVal s))"
    unfolding valuesDesc_def uniqueValuesAsc_def cardVal_def [abs_def]
    by (simp add: distinct_remdups_id)
  moreover have "length (rev (sort (map cardVal s))) = 5" using len by simp
  ultimately have "take 5 (valuesDesc s) = rev (sort (map cardVal s))" by simp
  then show ?thesis
    unfolding checkHighCard_shape by (simp add: cardVal_def [abs_def])
qed

subsubsection \<open>The five-card evaluator and the direct classifier agree on five cards\<close>

lemma five_eq_seven:
  assumes ds: "distinct s" and len: "length s = 5"
  shows "firstHit [checkRoyalFlush s, checkStraightFlush s, checkFourOfAKind s,
                   checkFullHouse s, checkFlush s, checkStraight s,
                   checkThreeOfAKind s, checkTwoPair s, checkOnePair s]
                  (checkHighCard s)
           = evaluateSevenCards s"
proof (cases "sfHigh s")
  case (Some h)
  show ?thesis
  proof (cases "h = 14")
    case True
    with Some have "checkRoyalFlush s = Some \<lparr>rank = ROYAL_FLUSH, value = Num 10000000014\<rparr>"
      by (simp add: checkRoyalFlush_spec [OF len])
    with True show ?thesis by (simp add: firstHit_simps E7_sf [OF Some])
  next
    case False
    with Some have rf: "checkRoyalFlush s = None" by (simp add: checkRoyalFlush_spec [OF len])
    from Some have "checkStraightFlush s = Some \<lparr>rank = STRAIGHT_FLUSH, value = Num (9000000000 + h)\<rparr>"
      by (simp add: checkStraightFlush_spec [OF len])
    with rf False show ?thesis by (simp add: firstHit_simps E7_sf [OF Some])
  qed
next
  case sf: None
  then have rf: "checkRoyalFlush s = None" by (simp add: checkRoyalFlush_spec [OF len])
  from sf have sfc: "checkStraightFlush s = None" by (simp add: checkStraightFlush_spec [OF len])
  show ?thesis
  proof (cases "quadOf s")
    case (Some q)
    then have "checkFourOfAKind s = Some (evaluateSevenCards s)"
      by (simp add: checkFourOfAKind_spec [OF len] E7_quad [OF sf Some])
    with rf sfc show ?thesis by (simp add: firstHit_simps)
  next
    case nq: None
    then have q: "checkFourOfAKind s = None" by (simp add: checkFourOfAKind_spec [OF len])
    show ?thesis
    proof (cases "cFH s")
      case True
      then have "checkFullHouse s = Some (evaluateSevenCards s)"
        by (simp add: checkFullHouse_spec [OF len] E7_fh [OF sf nq True])
      with rf sfc q show ?thesis by (simp add: firstHit_simps)
    next
      case nfh: False
      then have fh: "checkFullHouse s = None" by (simp add: checkFullHouse_spec [OF len])
      show ?thesis
      proof (cases "flushSuitOf s")
        case (Some t)
        with sf have "checkFlush s = Some (evaluateSevenCards s)"
          by (simp add: checkFlush_spec [OF ds len] E7_flush [OF sf nq nfh Some])
        with rf sfc q fh show ?thesis by (simp add: firstHit_simps)
      next
        case nfl: None
        then have fl: "checkFlush s = None" by (simp add: checkFlush_spec [OF ds len])
        note st = checkStraight_spec [OF len, folded findStraightHigh_values]
        show ?thesis
        proof (cases "findStraightHigh (uniqueValuesAsc s)")
          case (Some h)
          then have "checkStraight s = Some (evaluateSevenCards s)"
            by (simp add: st E7_straight [OF nq nfh nfl Some])
          with rf sfc q fh fl show ?thesis by (simp add: firstHit_simps)
        next
          case nst: None
          then have str: "checkStraight s = None" by (simp add: st)
          note three = checkThreeOfAKind_spec [OF ds len nq nfh]
          show ?thesis
          proof (cases "tripsDesc s = []")
            case False
            then have "checkThreeOfAKind s = Some (evaluateSevenCards s)"
              by (simp add: three E7_trips [OF nq nfh nfl nst False])
            with rf sfc q fh fl str show ?thesis by (simp add: firstHit_simps)
          next
            case nt: True
            then have tr: "checkThreeOfAKind s = None" by (simp add: three)
            note twop = checkTwoPair_spec [OF len nt]
            show ?thesis
            proof (cases "2 \<le> length (pairsDesc s)")
              case True
              then have "checkTwoPair s = Some (evaluateSevenCards s)"
                by (simp add: twop E7_twopair [OF nq nfh nfl nst nt True])
              with rf sfc q fh fl str tr show ?thesis by (simp add: firstHit_simps)
            next
              case False
              then have tp: "checkTwoPair s = None" by (simp add: twop)
              from False have few: "length (pairsDesc s) < 2" by simp
              note onep = checkOnePair_spec [OF len nt few]
              show ?thesis
              proof (cases "length (pairsDesc s) = 1")
                case True
                then have "checkOnePair s = Some (evaluateSevenCards s)"
                  by (simp add: onep E7_pair [OF nq nfh nfl nst nt True])
                with rf sfc q fh fl str tr tp show ?thesis by (simp add: firstHit_simps)
              next
                case False
                then have op: "checkOnePair s = None" by (simp add: onep)
                from False few have "length (pairsDesc s) = 0" by linarith
                then have np: "pairsDesc s = []" by simp
                have "checkHighCard s = evaluateSevenCards s"
                  by (simp add: checkHighCard_spec [OF len np] E7_high [OF nq nfl nst np])
                with rf sfc q fh fl str tr tp op show ?thesis by (simp add: firstHit_simps)
              qed
            qed
          qed
        qed
      qed
    qed
  qed
qed

lemma distinct_insertCard: "distinct (insertCard b c ds) \<longleftrightarrow> c \<notin> set ds \<and> distinct ds"
  by (induction ds) (auto simp: set_insertCard)

lemma distinct_sortCards: "distinct cs \<Longrightarrow> distinct (sortCards cs b)"
  unfolding sortCards_def
  by (induction cs) (auto simp: distinct_insertCard set_sortCards [unfolded sortCards_def])

lemma rankNum_inj: "rankNum a = rankNum b \<Longrightarrow> a = b"
  by (cases a; cases b; simp)

lemma same_strength_same_evaluation:
  assumes "strength7 xs = strength7 ys"
  shows "evaluateSevenCards xs = evaluateSevenCards ys"
proof -
  let ?a = "evaluateSevenCards xs"
  let ?b = "evaluateSevenCards ys"
  from strength7_band [of xs] strength7_band [of ys] assms
  have v: "value ?a = value ?b"
    and "rankNum (HandEvaluation.rank ?a) * 1000000000 < rankNum (HandEvaluation.rank ?b) * 1000000000 + 1000000000"
    and "rankNum (HandEvaluation.rank ?b) * 1000000000 < rankNum (HandEvaluation.rank ?a) * 1000000000 + 1000000000"
    by simp_all
  then have "rankNum (HandEvaluation.rank ?a) = rankNum (HandEvaluation.rank ?b)" by simp
  then have "HandEvaluation.rank ?a = HandEvaluation.rank ?b" by (rule rankNum_inj)
  with v show ?thesis by (intro HandEvaluation.equality) simp_all
qed

lemma evaluateSevenCards_same_cards:
  assumes "distinct xs" and "distinct ys" and "set xs = set ys" and "length ys \<le> 9"
  shows "evaluateSevenCards xs = evaluateSevenCards ys"
proof -
  from assms(1-3) have "length xs = length ys" by (metis distinct_card)
  with assms strength_mono [of xs ys] strength_mono [of ys xs]
  have "strength7 xs = strength7 ys" by simp
  then show ?thesis by (rule same_strength_same_evaluation)
qed

lemma evaluateFiveCards_direct:
  assumes "distinct cs" and "length cs = 5"
  shows "evaluateFiveCards cs = Inr (evaluateSevenCards cs)"
proof -
  let ?s = "sortCards cs True"
  have d: "distinct ?s" by (rule distinct_sortCards [OF assms(1)])
  have l: "length ?s = 5" using assms(2) by (simp add: length_sortCards)
  have "evaluateSevenCards ?s = evaluateSevenCards cs"
    by (rule evaluateSevenCards_same_cards [OF d assms(1)]) (simp_all add: set_sortCards assms(2))
  with five_eq_seven [OF d l] assms(2) show ?thesis
    by (simp add: evaluateFiveCards_def Let_def)
qed

subsubsection \<open>The best of all five-card subsets\<close>

lemma num_gt_strength:
  "num_gt (value (evaluateSevenCards xs)) (value (evaluateSevenCards ys))
     \<longleftrightarrow> strength7 ys < strength7 xs"
  by (simp add: strength7_band(1))

lemma bestHandLoop_max:
  assumes "\<forall>c \<in> set combos. distinct c \<and> length c = 5"
  shows "\<exists>r. bestHandLoop (Some (evaluateSevenCards b0)) combos = Inr (Some (evaluateSevenCards r))
           \<and> r \<in> insert b0 (set combos)
           \<and> (\<forall>c \<in> insert b0 (set combos). strength7 c \<le> strength7 r)"
  using assms
proof (induction combos arbitrary: b0)
  case Nil
  then show ?case by simp
next
  case (Cons c rest)
  from Cons.prems have ev: "evaluateFiveCards c = Inr (evaluateSevenCards c)"
    by (intro evaluateFiveCards_direct) simp_all
  from Cons.prems have rest: "\<forall>c \<in> set rest. distinct c \<and> length c = 5" by simp
  show ?case
  proof (cases "strength7 b0 < strength7 c")
    case True
    from Cons.IH [OF rest, of c] obtain r where
      r: "bestHandLoop (Some (evaluateSevenCards c)) rest = Inr (Some (evaluateSevenCards r))"
         "r \<in> insert c (set rest)" "\<forall>x \<in> insert c (set rest). strength7 x \<le> strength7 r"
      by blast
    from r(3) True have "strength7 b0 \<le> strength7 r" by force
    with r True ev show ?thesis
      by (intro exI [of _ r]) (auto simp: num_gt_strength)
  next
    case False
    from Cons.IH [OF rest, of b0] obtain r where
      r: "bestHandLoop (Some (evaluateSevenCards b0)) rest = Inr (Some (evaluateSevenCards r))"
         "r \<in> insert b0 (set rest)" "\<forall>x \<in> insert b0 (set rest). strength7 x \<le> strength7 r"
      by blast
    from r(3) False have "strength7 c \<le> strength7 r" by force
    with r False ev show ?thesis
      by (intro exI [of _ r]) (auto simp: num_gt_strength)
  qed
qed

lemma findBestHand_max:
  assumes all: "\<forall>c \<in> set (generateCombinations cs 5). distinct c \<and> length c = 5"
    and ne: "generateCombinations cs 5 \<noteq> []"
  shows "\<exists>r \<in> set (generateCombinations cs 5).
           findBestHand cs = Inr (evaluateSevenCards r)
           \<and> (\<forall>c \<in> set (generateCombinations cs 5). strength7 c \<le> strength7 r)"
proof -
  from ne obtain c rest where g: "generateCombinations cs 5 = c # rest"
    by (cases "generateCombinations cs 5") auto
  from all g have ev: "evaluateFiveCards c = Inr (evaluateSevenCards c)"
    by (intro evaluateFiveCards_direct) simp_all
  from all g have rest: "\<forall>c \<in> set rest. distinct c \<and> length c = 5" by simp
  from bestHandLoop_max [OF rest, of c] obtain r where
    r: "bestHandLoop (Some (evaluateSevenCards c)) rest = Inr (Some (evaluateSevenCards r))"
       "r \<in> insert c (set rest)" "\<forall>x \<in> insert c (set rest). strength7 x \<le> strength7 r"
    by blast
  have "findBestHand cs = Inr (evaluateSevenCards r)"
    unfolding findBestHand_def g using ev r(1) by simp
  with r(2,3) show ?thesis unfolding g by (intro bexI [of _ r]) simp_all
qed

text \<open>
  Claim C2: for every list of six or seven distinct cards, \<^verbatim>\<open>evaluateHand\<close> returns the
  evaluation of the direct classifier \<^verbatim>\<open>evaluateSevenCards\<close>, and \<^verbatim>\<open>findBestHand\<close>, which
  evaluates every five-card combination of the list with the five-card evaluator and keeps
  the first one of the greatest value, returns the same evaluation: the same category and
  the same strength value. That evaluation is the five-card evaluation of one of the
  combinations, and no combination has a five-card evaluation of greater value.
\<close>

theorem direct_classifier_is_best_subset:
  assumes ds: "distinct cs" and len: "length cs = 6 \<or> length cs = 7"
  shows "evaluateHand cs = Inr (evaluateSevenCards cs)
       \<and> findBestHand cs = Inr (evaluateSevenCards cs)
       \<and> (\<exists>zs \<in> set (generateCombinations cs 5).
             evaluateFiveCards zs = Inr (evaluateSevenCards cs))
       \<and> (\<forall>zs \<in> set (generateCombinations cs 5).
             \<exists>e. evaluateFiveCards zs = Inr e
                \<and> \<not> num_gt (value e) (value (evaluateSevenCards cs)))"
proof -
  let ?G = "generateCombinations cs 5"
  from len have l9: "length cs \<le> 9" and l5: "5 \<le> length cs" by auto
  have comb: "distinct zs \<and> length zs = 5 \<and> set zs \<subseteq> set cs" if "zs \<in> set ?G" for zs
    using combination_mem [OF that] ds by simp
  have five: "evaluateFiveCards zs = Inr (evaluateSevenCards zs)" if "zs \<in> set ?G" for zs
    using comb [OF that] by (intro evaluateFiveCards_direct) simp_all
  have below: "strength7 zs \<le> strength7 cs" if "zs \<in> set ?G" for zs
    using comb [OF that] by (intro strength_mono [OF _ ds _ l9]) simp_all
  from strength_carried [OF ds] obtain PC where
    PC: "PC \<subseteq> set cs" "card PC \<le> 5"
        "\<And>zs. distinct zs \<Longrightarrow> PC \<subseteq> set zs \<Longrightarrow> length zs \<le> 9 \<Longrightarrow> strength7 cs \<le> strength7 zs"
    unfolding carried_def by blast
  from extend_to_five [OF ds PC(1,2) l5] obtain top where
    top: "top \<in> set ?G" "PC \<subseteq> set top" "distinct top" "length top = 5" by blast
  from PC(3) [OF top(3,2)] top(4) below [OF top(1)] have "strength7 top = strength7 cs" by simp
  then have topE: "evaluateSevenCards top = evaluateSevenCards cs"
    by (rule same_strength_same_evaluation)
  have a: "evaluateHand cs = Inr (evaluateSevenCards cs)"
    using len by (auto simp: evaluateHand_def)
  have all: "\<forall>c \<in> set ?G. distinct c \<and> length c = 5" using comb by blast
  from top(1) have ne: "?G \<noteq> []" by auto
  from findBestHand_max [OF all ne] obtain r where
    r: "r \<in> set ?G" "findBestHand cs = Inr (evaluateSevenCards r)"
       "\<forall>c \<in> set ?G. strength7 c \<le> strength7 r" by blast
  from r(3) top(1) below [OF r(1)] \<open>strength7 top = strength7 cs\<close>
  have "strength7 r = strength7 cs" by force
  then have "evaluateSevenCards r = evaluateSevenCards cs" by (rule same_strength_same_evaluation)
  with r(2) have b: "findBestHand cs = Inr (evaluateSevenCards cs)" by simp
  have c: "\<exists>zs \<in> set ?G. evaluateFiveCards zs = Inr (evaluateSevenCards cs)"
    using top(1) five [OF top(1)] topE by (intro bexI [of _ top]) simp_all
  have d: "\<forall>zs \<in> set ?G. \<exists>e. evaluateFiveCards zs = Inr e
                \<and> \<not> num_gt (value e) (value (evaluateSevenCards cs))"
  proof
    fix zs assume z: "zs \<in> set ?G"
    from below [OF z] have "\<not> num_gt (value (evaluateSevenCards zs)) (value (evaluateSevenCards cs))"
      by (simp add: num_gt_strength)
    with five [OF z] show "\<exists>e. evaluateFiveCards zs = Inr e
                \<and> \<not> num_gt (value e) (value (evaluateSevenCards cs))" by simp
  qed
  from a b c d show ?thesis by blast
qed

theorem direct_classifier_is_best_subset_witness:
  "distinct tripleAces \<and> length tripleAces = 7
   \<and> evaluateHand tripleAces = Inr \<lparr>rank = THREE_OF_A_KIND, value = Num 4000003357\<rparr>
   \<and> findBestHand tripleAces = Inr \<lparr>rank = THREE_OF_A_KIND, value = Num 4000003357\<rparr>"
proof -
  have d: "distinct tripleAces" by code_simp
  have l: "length tripleAces = 6 \<or> length tripleAces = 7" by code_simp
  have e: "evaluateSevenCards tripleAces = \<lparr>rank = THREE_OF_A_KIND, value = Num 4000003357\<rparr>"
    by code_simp
  from direct_classifier_is_best_subset [OF d l] d l e show ?thesis
    by (simp add: tripleAces_def)
qed

section \<open>Chip conservation\<close>

lemma sum_list_map_update:
  fixes f :: "'a \<Rightarrow> int"
  shows "i < length xs \<Longrightarrow> sum_list (map f (xs[i := y])) = sum_list (map f xs) - f (xs ! i) + f y"
proof (induction xs arbitrary: i)
  case Nil
  then show ?case by simp
next
  case (Cons x xs)
  then show ?case by (cases i) auto
qed

lemma list_all_update: "list_all P xs \<Longrightarrow> P y \<Longrightarrow> list_all P (xs[i := y])"
  by (induction xs arbitrary: i) (auto split: nat.splits)

lemma list_all_nth: "list_all P xs \<Longrightarrow> i < length xs \<Longrightarrow> P (xs ! i)"
  by (simp add: list_all_length)

lemma findPlayerById_Some: "findPlayerById s ident = Some i \<Longrightarrow> i < length (players s) \<and> pid (players s ! i) = ident"
  unfolding findPlayerById_def by (auto dest!: find_SomeD)

lemma updatePlayer_fields [simp]:
  "players (updatePlayer i f s) = (players s)[i := f (players s ! i)]"
  "pot (updatePlayer i f s) = pot s"
  "GameState.currentBet (updatePlayer i f s) = GameState.currentBet s"
  "lastRaiseSize (updatePlayer i f s) = lastRaiseSize s"
  "blinds (updatePlayer i f s) = blinds s"
  "isHandComplete (updatePlayer i f s) = isHandComplete s"
  "currentBettingRound (updatePlayer i f s) = currentBettingRound s"
  "communityCards (updatePlayer i f s) = communityCards s"
  "deck (updatePlayer i f s) = deck s"
  "dealerPosition (updatePlayer i f s) = dealerPosition s"
  by (simp_all add: updatePlayer_def)

lemma clearActed_fields [simp]:
  "chips (clearActed x p) = chips p"
  "Player.currentBet (clearActed x p) = Player.currentBet p"
  "totalBet (clearActed x p) = totalBet p"
  "isFolded (clearActed x p) = isFolded p"
  "isAllIn (clearActed x p) = isAllIn p"
  "disconnected (clearActed x p) = disconnected p"
  "pid (clearActed x p) = pid p"
  by (simp_all add: clearActed_def)

lemma resetOthersHasActed_fields [simp]:
  "players (resetOthersHasActed x s) = map (clearActed x) (players s)"
  "pot (resetOthersHasActed x s) = pot s"
  "GameState.currentBet (resetOthersHasActed x s) = GameState.currentBet s"
  "lastRaiseSize (resetOthersHasActed x s) = lastRaiseSize s"
  "blinds (resetOthersHasActed x s) = blinds s"
  "isHandComplete (resetOthersHasActed x s) = isHandComplete s"
  "currentBettingRound (resetOthersHasActed x s) = currentBettingRound s"
  by (simp_all add: resetOthersHasActed_def clearActed_def [abs_def])

lemma stakesOk_cong:
  assumes "sameStakes ps qs" shows "stakesOk ps = stakesOk qs"
proof -
  from assms have len: "length ps = length qs" unfolding sameStakes_def by (metis length_map)
  have "chips (ps ! i) = chips (qs ! i) \<and> totalBet (ps ! i) = totalBet (qs ! i)
        \<and> Player.currentBet (ps ! i) = Player.currentBet (qs ! i)" if "i < length ps" for i
    using assms that len unfolding sameStakes_def by (metis nth_map)
  then show ?thesis unfolding stakesOk_def list_all_length using len by auto
qed

lemma moneyEq_refl [simp]: "moneyEq s s"
  by (simp add: moneyEq_def sameStakes_def)

lemma moneyEq_trans: "moneyEq s t \<Longrightarrow> moneyEq t u \<Longrightarrow> moneyEq s u"
  by (simp add: moneyEq_def sameStakes_def)

lemma moneyEq_totals: "moneyEq s t \<Longrightarrow> totalChips s = totalChips t \<and> totalBets s = totalBets t"
  by (simp add: moneyEq_def sameStakes_def totalChips_def totalBets_def)

lemma moneyEq_inv: "moneyEq s t \<Longrightarrow> moneyInv s = moneyInv t"
  using stakesOk_cong [of "players s" "players t"] moneyEq_totals [of s t]
  by (auto simp: moneyEq_def moneyInv_def)

lemma map_update_same: "f y = f (xs ! i) \<Longrightarrow> map f (xs[i := y]) = map f xs"
proof (cases "i < length xs")
  case True
  assume "f y = f (xs ! i)"
  with True have "map f (xs[i := y]) = (map f xs)[i := (map f xs) ! i]" by (simp add: map_update)
  then show ?thesis by simp
next
  case False
  then have "xs[i := y] = xs" by (intro list_update_beyond) simp
  then show ?thesis by simp
qed

lemma sameStakes_update:
  "chips (f (ps ! i)) = chips (ps ! i) \<Longrightarrow> totalBet (f (ps ! i)) = totalBet (ps ! i)
   \<Longrightarrow> Player.currentBet (f (ps ! i)) = Player.currentBet (ps ! i)
   \<Longrightarrow> sameStakes (ps[i := f (ps ! i)]) ps"
  by (simp add: sameStakes_def map_update_same)

lemma sameStakes_map:
  "(\<And>p. chips (f p) = chips p) \<Longrightarrow> (\<And>p. totalBet (f p) = totalBet p)
   \<Longrightarrow> (\<And>p. Player.currentBet (f p) = Player.currentBet p)
   \<Longrightarrow> sameStakes (map f ps) ps"
  by (simp add: sameStakes_def)

lemma markAllInIfBroke_moneyEq: "moneyEq (markAllInIfBroke i s) s"
  by (simp add: markAllInIfBroke_def moneyEq_def sameStakes_def map_update_same)

lemma markAllInIfBroke_flags [simp]:
  "isHandComplete (markAllInIfBroke i s) = isHandComplete s"
  "map isFolded (players (markAllInIfBroke i s)) = map isFolded (players s)"
  "map disconnected (players (markAllInIfBroke i s)) = map disconnected (players s)"
  "length (players (markAllInIfBroke i s)) = length (players s)"
  by (simp_all add: markAllInIfBroke_def map_update_same)

lemma resetOthersHasActed_moneyEq: "moneyEq (resetOthersHasActed x s) s"
  by (simp add: moneyEq_def sameStakes_map)

lemma stakesOk_nth:
  "stakesOk ps \<Longrightarrow> i < length ps \<Longrightarrow>
     0 \<le> chips (ps ! i) \<and> 0 \<le> Player.currentBet (ps ! i) \<and> Player.currentBet (ps ! i) \<le> totalBet (ps ! i)"
  unfolding stakesOk_def by (drule (1) list_all_nth) simp

lemma stakesOk_update:
  "stakesOk ps \<Longrightarrow> 0 \<le> chips q \<Longrightarrow> 0 \<le> Player.currentBet q \<Longrightarrow> Player.currentBet q \<le> totalBet q
   \<Longrightarrow> stakesOk (ps[i := q])"
  unfolding stakesOk_def by (rule list_all_update) simp_all

text \<open>The core of each action: the one player's stake changes and the table totals move with it.\<close>

lemma stake_move:
  assumes inv: "moneyInv s" and i: "i < length (players s)"
    and ps: "players t = (players s)[i := q]"
    and q: "chips q = chips (players s ! i) - d" "totalBet q = totalBet (players s ! i) + d"
           "0 \<le> chips q" "0 \<le> Player.currentBet q" "Player.currentBet q \<le> totalBet q"
    and pot: "pot t = pot s + d"
    and rest: "0 \<le> GameState.currentBet t" "0 \<le> lastRaiseSize t" "blinds t = blinds s"
  shows "moneyInv t \<and> totalChips t + totalBets t = totalChips s + totalBets s"
proof -
  have c: "totalChips t = totalChips s - d"
    unfolding totalChips_def ps using i q by (simp add: sum_list_map_update)
  have b: "totalBets t = totalBets s + d"
    unfolding totalBets_def ps using i q by (simp add: sum_list_map_update)
  have ok: "stakesOk (players t)"
    unfolding ps using inv q by (intro stakesOk_update) (auto simp: moneyInv_def)
  from inv c b ok pot rest show ?thesis by (simp add: moneyInv_def)
qed

lemma executeAction_money:
  assumes inv: "moneyInv s" and i: "i < length (players s)"
    and ok: "validateAction s (players s ! i) a = None"
  shows "moneyInv (executeAction i a s)
       \<and> totalChips (executeAction i a s) + totalBets (executeAction i a s) = totalChips s + totalBets s"
proof -
  let ?p = "players s ! i"
  from stakesOk_nth [of "players s" i] inv i
  have p: "0 \<le> chips ?p" "0 \<le> Player.currentBet ?p" "Player.currentBet ?p \<le> totalBet ?p"
    by (auto simp: moneyInv_def)
  from inv have t: "0 \<le> GameState.currentBet s" "0 \<le> lastRaiseSize s" "0 \<le> big (blinds s)"
    by (auto simp: moneyInv_def)
  show ?thesis
  proof (cases a)
    case Fold
    have "moneyEq (executeAction i a s) s"
      unfolding Fold executeAction_def
      by (simp add: moneyEq_def sameStakes_update)
    from moneyEq_inv [OF this] moneyEq_totals [OF this] inv show ?thesis by simp
  next
    case Check
    then show ?thesis using inv by (simp add: executeAction_def)
  next
    case Call
    let ?ca = "getCallAmount s ?p"
    let ?t = "(updatePlayer i (\<lambda>p. p\<lparr>chips := chips p - ?ca,
                 Player.currentBet := GameState.currentBet s,
                 totalBet := totalBet p + ?ca\<rparr>) s)\<lparr>pot := pot s + ?ca\<rparr>"
    from ok Call have ca: "0 < ?ca" "?ca \<le> chips ?p"
      by (auto simp: validateAction_def Let_def getCallAmount_def split: if_splits)
    then have cb: "GameState.currentBet s = Player.currentBet ?p + ?ca"
      by (auto simp: getCallAmount_def)
    have e: "executeAction i a s = markAllInIfBroke i ?t"
      unfolding Call executeAction_def by (simp add: Let_def)
    have "moneyInv ?t \<and> totalChips ?t + totalBets ?t = totalChips s + totalBets s"
      by (rule stake_move [OF inv i, where d = ?ca and q = "?p\<lparr>chips := chips ?p - ?ca,
                 Player.currentBet := GameState.currentBet s, totalBet := totalBet ?p + ?ca\<rparr>"])
         (use p t ca cb in auto)
    then show ?thesis unfolding e
      using moneyEq_inv [OF markAllInIfBroke_moneyEq] moneyEq_totals [OF markAllInIfBroke_moneyEq]
      by simp
  next
    case (Bet x)
    let ?d = "x - Player.currentBet ?p"
    let ?t = "(updatePlayer i (\<lambda>p. p\<lparr>chips := chips p - ?d, Player.currentBet := x,
                 totalBet := totalBet p + ?d\<rparr>) s)
              \<lparr>GameState.currentBet := x, pot := pot s + ?d, lastRaiseSize := x\<rparr>"
    from ok Bet t have x: "big (blinds s) \<le> x" "x \<le> chips ?p"
      by (auto simp: validateAction_def Let_def split: if_splits)
    have e: "executeAction i a s = markAllInIfBroke i (resetOthersHasActed (pid ?p) ?t)"
      unfolding Bet executeAction_def by (simp add: Let_def)
    have "moneyInv ?t \<and> totalChips ?t + totalBets ?t = totalChips s + totalBets s"
      by (rule stake_move [OF inv i, where d = ?d and q = "?p\<lparr>chips := chips ?p - ?d,
                 Player.currentBet := x, totalBet := totalBet ?p + ?d\<rparr>"])
         (use p t x in auto)
    then show ?thesis unfolding e
      using moneyEq_inv [OF moneyEq_trans [OF markAllInIfBroke_moneyEq resetOthersHasActed_moneyEq]]
        moneyEq_totals [OF moneyEq_trans [OF markAllInIfBroke_moneyEq resetOthersHasActed_moneyEq]]
      by simp
  next
    case (Raise x)
    let ?d = "x - Player.currentBet ?p"
    let ?t = "(updatePlayer i (\<lambda>p. p\<lparr>chips := chips p - ?d, Player.currentBet := x,
                 totalBet := totalBet p + ?d\<rparr>) s)
              \<lparr>lastRaiseSize := x - GameState.currentBet s, GameState.currentBet := x,
                pot := pot s + ?d\<rparr>"
    from ok Raise t have x: "GameState.currentBet s + lastRaiseSize s \<le> x" "x \<le> chips ?p"
      by (auto simp: validateAction_def Let_def split: if_splits)
    have e: "executeAction i a s = markAllInIfBroke i (resetOthersHasActed (pid ?p) ?t)"
      unfolding Raise executeAction_def by (simp add: Let_def)
    have "moneyInv ?t \<and> totalChips ?t + totalBets ?t = totalChips s + totalBets s"
      by (rule stake_move [OF inv i, where d = ?d and q = "?p\<lparr>chips := chips ?p - ?d,
                 Player.currentBet := x, totalBet := totalBet ?p + ?d\<rparr>"])
         (use p t x in auto)
    then show ?thesis unfolding e
      using moneyEq_inv [OF moneyEq_trans [OF markAllInIfBroke_moneyEq resetOthersHasActed_moneyEq]]
        moneyEq_totals [OF moneyEq_trans [OF markAllInIfBroke_moneyEq resetOthersHasActed_moneyEq]]
      by simp
  next
    case (AllIn x)
    let ?d = "chips ?p"
    let ?n = "Player.currentBet ?p + ?d"
    let ?q = "?p\<lparr>chips := 0, totalBet := totalBet ?p + ?d, Player.currentBet := ?n, isAllIn := True\<rparr>"
    let ?t = "(updatePlayer i (\<lambda>p. p\<lparr>chips := 0, totalBet := totalBet p + ?d,
                 Player.currentBet := ?n, isAllIn := True\<rparr>) s)\<lparr>pot := pot s + ?d\<rparr>"
    have base: "moneyInv ?t \<and> totalChips ?t + totalBets ?t = totalChips s + totalBets s"
      by (rule stake_move [OF inv i, where d = ?d and q = ?q]) (use p t in auto)
    show ?thesis
    proof (cases "?n > GameState.currentBet s")
      case False
      then have e: "executeAction i a s = ?t"
        unfolding AllIn executeAction_def by (simp add: Let_def)
      show ?thesis unfolding e by (rule base)
    next
      case True
      let ?u = "(if ?n - GameState.currentBet s \<ge> lastRaiseSize s
                 then ?t\<lparr>lastRaiseSize := ?n - GameState.currentBet s\<rparr> else ?t)
                \<lparr>GameState.currentBet := ?n\<rparr>"
      from True have e: "executeAction i a s = resetOthersHasActed (pid ?p) ?u"
        unfolding AllIn executeAction_def by (simp add: Let_def)
      have "moneyInv ?u \<and> totalChips ?u + totalBets ?u = totalChips s + totalBets s"
        by (rule stake_move [OF inv i, where d = ?d and q = ?q]) (use p t True in auto)
      then show ?thesis unfolding e
        using moneyEq_inv [OF resetOthersHasActed_moneyEq] moneyEq_totals [OF resetOthersHasActed_moneyEq]
        by simp
    qed
  qed
qed

section \<open>Side pots\<close>

lemma owed_layer:
  "prev < level \<Longrightarrow>
     (level - prev) * int (length (filter (\<lambda>c. totalBet c \<ge> level) ps)) + owed ps level \<le> owed ps prev"
  unfolding owed_def by (induction ps) (auto simp: algebra_simps)

lemma owed_mono: "prev \<le> level \<Longrightarrow> owed ps level \<le> owed ps prev"
  unfolding owed_def by (induction ps) auto

lemma owed_zero: "stakesOk ps \<Longrightarrow> owed ps 0 = sum_list (map totalBet ps)"
  unfolding owed_def stakesOk_def by (induction ps) auto

lemma sidePotLoop_total:
  "sum_list (map SidePot.amount (sidePotLoop ps inHand levels prev pots))
     \<le> sum_list (map SidePot.amount pots) + owed ps prev"
proof (induction levels arbitrary: prev pots)
  case Nil
  have "0 \<le> owed ps prev" unfolding owed_def by (induction ps) auto
  then show ?case by simp
next
  case (Cons level levels)
  let ?n = "int (length (filter (\<lambda>c. totalBet c \<ge> level) ps))"
  let ?amt = "(level - prev) * ?n"
  let ?ids = "map pid (filter (\<lambda>p. totalBet p \<ge> level) inHand)"
  let ?new = "\<lparr>SidePot.amount = ?amt, eligiblePlayers = ?ids, isMain = (length pots = 0)\<rparr>"
  show ?case
  proof (cases "level - prev \<le> 0")
    case True
    then show ?thesis using Cons.IH [of prev pots] by simp
  next
    case pos: False
    show ?thesis
    proof (cases "?n \<le> 1")
      case True
      from pos owed_mono [of prev level ps] have "owed ps level \<le> owed ps prev" by simp
      with True pos Cons.IH [of level pots] show ?thesis by (simp add: Let_def)
    next
      case False
      from pos have lt: "prev < level" by simp
      from pos have amt: "0 \<le> ?amt" by simp
      note layer = owed_layer [OF lt, of ps]
      show ?thesis
      proof (cases "?amt > 0 \<and> length ?ids > 0")
        case True
        have e: "sidePotLoop ps inHand (level # levels) prev pots
                  = sidePotLoop ps inHand levels level (pots @ [?new])"
          by (simp only: sidePotLoop.simps Let_def if_not_P [OF pos] if_not_P [OF False] if_P [OF True])
        show ?thesis unfolding e using Cons.IH [of level "pots @ [?new]"] layer by simp
      next
        case no: False
        have e: "sidePotLoop ps inHand (level # levels) prev pots
                  = sidePotLoop ps inHand levels level pots"
          by (simp only: sidePotLoop.simps Let_def if_not_P [OF pos] if_not_P [OF False] if_not_P [OF no])
        show ?thesis unfolding e using Cons.IH [of level pots] layer amt by simp
      qed
    qed
  qed
qed

lemma sidePotLoop_potOk:
  "list_all (potOk inHand) pots \<Longrightarrow> list_all (potOk inHand) (sidePotLoop ps inHand levels prev pots)"
proof (induction levels arbitrary: prev pots)
  case Nil
  then show ?case by simp
next
  case (Cons level levels)
  let ?ids = "map pid (filter (\<lambda>p. totalBet p \<ge> level) inHand)"
  have new: "potOk inHand \<lparr>SidePot.amount = a, eligiblePlayers = ?ids, isMain = m\<rparr>"
    if "0 < a" "length ?ids > 0" for a m
  proof -
    from that(2) obtain p where "p \<in> set (filter (\<lambda>p. totalBet p \<ge> level) inHand)"
      by (cases "filter (\<lambda>p. totalBet p \<ge> level) inHand") auto
    then have "p \<in> set inHand" "pid p \<in> set ?ids" by auto
    with that(1) show ?thesis unfolding potOk_def by auto
  qed
  show ?case
    using Cons.prems new
    by (auto simp: Let_def intro!: Cons.IH)
qed

section \<open>Paying the winners\<close>

lemma payWinner_fold:
  assumes "\<forall>w \<in> set pays. fst w < length ps"
    and "foldl payWinner (ps, agg) pays = (ps', agg')"
  shows "sum_list (map chips ps') = sum_list (map chips ps) + sum_list (map snd pays)
       \<and> map pid ps' = map pid ps \<and> length ps' = length ps
       \<and> (list_all (\<lambda>p. 0 \<le> chips p) ps \<and> (\<forall>w \<in> set pays. 0 \<le> snd w)
            \<longrightarrow> list_all (\<lambda>p. 0 \<le> chips p) ps')"
  using assms
proof (induction pays arbitrary: ps agg)
  case Nil
  then show ?case by simp
next
  case (Cons w pays)
  obtain i x where w: "w = (i, x)" by (cases w)
  let ?ps1 = "ps[i := (ps ! i)\<lparr>chips := chips (ps ! i) + x\<rparr>]"
  from Cons.prems w have i: "i < length ps" by simp
  have step: "payWinner (ps, agg) w = (?ps1, aggregateAdd (pid (ps ! i)) x agg)"
    by (simp add: payWinner_def w)
  from Cons.prems have rest: "\<forall>w \<in> set pays. fst w < length ?ps1" by simp
  from Cons.prems(2) have run: "foldl payWinner (?ps1, aggregateAdd (pid (ps ! i)) x agg) pays = (ps', agg')"
    by (simp add: step)
  note ih = Cons.IH [OF rest run]
  have s1: "sum_list (map chips ?ps1) = sum_list (map chips ps) + x"
    using i by (simp add: sum_list_map_update)
  have p1: "map pid ?ps1 = map pid ps" by (simp add: map_update_same)
  have nn: "list_all (\<lambda>p. 0 \<le> chips p) ?ps1" if "list_all (\<lambda>p. 0 \<le> chips p) ps" "0 \<le> x"
    using that i by (intro list_all_update) (auto dest: list_all_nth)
  from ih s1 p1 nn show ?case by (auto simp: w)
qed

lemma potPayouts_facts:
  assumes idx: "\<forall>h \<in> set hes. fst h < length ps"
    and num: "\<forall>h \<in> set hes. \<exists>v. value (snd h) = Num v"
    and el: "\<exists>h \<in> set hes. pid (ps ! fst h) \<in> set (eligiblePlayers sp)"
    and amt: "0 \<le> SidePot.amount sp"
  shows "sum_list (map snd (potPayouts ps hes sp)) = SidePot.amount sp"
    and "\<forall>w \<in> set (potPayouts ps hes sp). fst w < length ps \<and> 0 \<le> snd w"
proof -
  define elig where "elig = filter (\<lambda>(i, ev). pid (ps ! i) \<in> set (eligiblePlayers sp)) hes"
  define w where "w = findWinners (map snd elig)"
  have sub: "set elig \<subseteq> set hes" unfolding elig_def by auto
  from el have "elig \<noteq> []" unfolding elig_def by (auto simp: filter_empty_conv)
  moreover from num sub have "\<forall>h \<in> set (map snd elig). \<exists>v. value h = Num v" by auto
  ultimately have ne: "w \<noteq> []" unfolding w_def by (intro findWinners_nonempty) auto
  note split = potPayouts_split [OF elig_def w_def ne]
  show "sum_list (map snd (potPayouts ps hes sp)) = SidePot.amount sp" by (rule split(3))
  have fsts: "\<forall>i \<in> set (map fst (potPayouts ps hes sp)). i < length ps"
  proof
    fix i assume "i \<in> set (map fst (potPayouts ps hes sp))"
    then obtain j where j: "j \<in> set w" "i = fst (elig ! j)" unfolding split(2) by auto
    from j(1) findWinners_char [of "map snd elig" j] ne have "j < length elig"
      unfolding w_def by simp
    then have "elig ! j \<in> set hes" using sub by auto
    with idx j(2) show "i < length ps" by simp
  qed
  from ne have k: "0 < int (length w)" by simp
  have snds: "\<forall>x \<in> set (map snd (potPayouts ps hes sp)). 0 \<le> x"
    unfolding split(1) using amt k
    by (auto simp: pos_imp_zdiv_nonneg_iff intro!: add_nonneg_nonneg)
  from fsts snds show "\<forall>w \<in> set (potPayouts ps hes sp). fst w < length ps \<and> 0 \<le> snd w"
    by auto
qed

lemma awardPot_fold:
  assumes "\<forall>h \<in> set hes. fst h < length ps"
    and "\<forall>h \<in> set hes. \<exists>v. value (snd h) = Num v"
    and "map pid ps = ids"
    and "\<forall>sp \<in> set pots. 0 \<le> SidePot.amount sp
            \<and> (\<exists>h \<in> set hes. ids ! fst h \<in> set (eligiblePlayers sp))"
    and "foldl (awardPot hes) (ps, agg) pots = (ps', agg')"
    and "list_all (\<lambda>p. 0 \<le> chips p) ps"
  shows "sum_list (map chips ps') = sum_list (map chips ps) + sum_list (map SidePot.amount pots)
       \<and> list_all (\<lambda>p. 0 \<le> chips p) ps'"
  using assms
proof (induction pots arbitrary: ps agg)
  case Nil
  then show ?case by simp
next
  case (Cons sp pots)
  obtain ps1 agg1 where one: "awardPot hes (ps, agg) sp = (ps1, agg1)"
    by (cases "awardPot hes (ps, agg) sp")
  then have pw: "foldl payWinner (ps, agg) (potPayouts ps hes sp) = (ps1, agg1)"
    by (simp add: awardPot_def)
  have pidn: "pid (ps ! fst h) = ids ! fst h" if "h \<in> set hes" for h
    using Cons.prems(1,3) that by (metis nth_map)
  from Cons.prems(4) pidn have el: "\<exists>h \<in> set hes. pid (ps ! fst h) \<in> set (eligiblePlayers sp)"
    by auto
  from Cons.prems(4) have amt: "0 \<le> SidePot.amount sp" by simp
  note pf = potPayouts_facts [OF Cons.prems(1) Cons.prems(2) el amt]
  from pf(2) have valid: "\<forall>w \<in> set (potPayouts ps hes sp). fst w < length ps" by auto
  from payWinner_fold [OF valid pw] pf Cons.prems(6)
  have r1: "sum_list (map chips ps1) = sum_list (map chips ps) + SidePot.amount sp"
    "map pid ps1 = map pid ps" "length ps1 = length ps" "list_all (\<lambda>p. 0 \<le> chips p) ps1"
    by auto
  from Cons.prems(5) one have run: "foldl (awardPot hes) (ps1, agg1) pots = (ps', agg')" by simp
  have "sum_list (map chips ps') = sum_list (map chips ps1) + sum_list (map SidePot.amount pots)
       \<and> list_all (\<lambda>p. 0 \<le> chips p) ps'"
    by (rule Cons.IH [OF _ Cons.prems(2) _ _ run r1(4)])
       (use Cons.prems r1 in auto)
  with r1 show ?case by simp
qed

lemma awardPots_chips:
  assumes "\<forall>h \<in> set hes. fst h < length (players s)"
    and "\<forall>h \<in> set hes. \<exists>v. value (snd h) = Num v"
    and "\<forall>sp \<in> set (sidePots s). 0 \<le> SidePot.amount sp
            \<and> (\<exists>h \<in> set hes. pid (players s ! fst h) \<in> set (eligiblePlayers sp))"
    and "list_all (\<lambda>p. 0 \<le> chips p) (players s)"
    and "awardPots hes s = Inr s'"
  shows "totalChips s' = totalChips s + sum_list (map SidePot.amount (sidePots s))
       \<and> list_all (\<lambda>p. 0 \<le> chips p) (players s') \<and> isHandComplete s' = isHandComplete s"
proof -
  obtain ps' agg' where run: "foldl (awardPot hes) (players s, []) (sidePots s) = (ps', agg')"
    by (cases "foldl (awardPot hes) (players s, []) (sidePots s)")
  from assms(5) run have ps': "players s' = ps'" "isHandComplete s' = isHandComplete s"
    by (auto simp: awardPots_def Let_def split: sum.splits)
  have pots: "\<forall>sp \<in> set (sidePots s). 0 \<le> SidePot.amount sp
            \<and> (\<exists>h \<in> set hes. map pid (players s) ! fst h \<in> set (eligiblePlayers sp))"
    using assms(1,3) by (metis nth_map)
  from awardPot_fold [OF assms(1,2) refl pots run assms(4)] ps'
  show ?thesis by (simp add: totalChips_def)
qed

lemma evaluateAll_facts:
  "evaluateAll s ph = Inr hes \<Longrightarrow> map fst hes = ph \<and> (\<forall>h \<in> set hes. \<exists>v. value (snd h) = Num v)"
proof (induction ph arbitrary: hes)
  case Nil
  then show ?case by auto
next
  case (Cons i ph)
  from Cons.prems obtain ev evs where
    ev: "evaluateHand (holeCards (players s ! i) @ communityCards s) = Inr ev"
    and evs: "evaluateAll s ph = Inr evs" and hes: "hes = (i, ev) # evs"
    by (auto split: sum.splits)
  from inBandD [OF evaluateHand_inBand [OF ev]] obtain v where "value ev = Num v" by blast
  with Cons.IH [OF evs] hes show ?case by auto
qed

lemma inHand_indices: "i \<in> set (getPlayersStillInHand s) \<Longrightarrow> i < length (players s)"
  by (auto simp: getPlayersStillInHand_def getActivePlayers_def)

section \<open>Settlement\<close>

lemma foldl_pick_mem:
  "foldl (\<lambda>acc c. if P c acc then c else acc) a xs \<in> insert a (set xs)"
  by (induction xs arbitrary: a) (auto split: if_splits)

lemma findPlayerById_mem:
  assumes "p \<in> set (players s)"
  shows "\<exists>b. findPlayerById s (pid p) = Some b \<and> b < length (players s)"
proof -
  from assms obtain j where j: "j < length (players s)" "players s ! j = p"
    by (auto simp: in_set_conv_nth)
  then have "filter (\<lambda>i. pid (players s ! i) = pid p) [0..<length (players s)] \<noteq> []"
    by (auto simp: filter_empty_conv)
  from find_filter_ne [OF this] obtain b where b: "findPlayerById s (pid p) = Some b"
    unfolding findPlayerById_def by blast
  with findPlayerById_Some [OF b] show ?thesis by simp
qed

lemma stakesOk_chips: "stakesOk ps \<Longrightarrow> list_all (\<lambda>p. 0 \<le> chips p) ps"
  unfolding stakesOk_def by (induction ps) auto

lemma stakesOk_bets: "stakesOk ps \<Longrightarrow> 0 \<le> sum_list (map totalBet ps)"
  unfolding stakesOk_def by (induction ps) auto

lemma potsOk_hes:
  assumes ok: "list_all (potOk (map (\<lambda>i. ps ! i) ph)) pots" and ph: "map fst hes = ph"
  shows "\<forall>sp \<in> set pots. 0 \<le> SidePot.amount sp
            \<and> (\<exists>h \<in> set hes. pid (ps ! fst h) \<in> set (eligiblePlayers sp))"
proof
  fix sp assume "sp \<in> set pots"
  with ok have p: "potOk (map (\<lambda>i. ps ! i) ph) sp" by (simp add: list_all_iff)
  then obtain i where i: "i \<in> set ph" "pid (ps ! i) \<in> set (eligiblePlayers sp)"
    unfolding potOk_def by auto
  from i(1) ph obtain h where "h \<in> set hes" "fst h = i" by auto
  with i p show "0 \<le> SidePot.amount sp \<and> (\<exists>h \<in> set hes. pid (ps ! fst h) \<in> set (eligiblePlayers sp))"
    unfolding potOk_def by auto
qed

lemma calculateSidePots_chips:
  assumes inv: "moneyInv s" and ne: "ph \<noteq> []"
    and run: "calculateSidePots ph s = Inr s1"
  shows "totalChips s1 + sum_list (map SidePot.amount (sidePots s1)) = totalChips s + pot s
       \<and> list_all (potOk (map (\<lambda>i. players s ! i) ph)) (sidePots s1)
       \<and> map pid (players s1) = map pid (players s)
       \<and> list_all (\<lambda>p. 0 \<le> chips p) (players s1)
       \<and> isHandComplete s1 = isHandComplete s"
proof -
  let ?all = "players s"
  let ?inHand = "map (\<lambda>i. players s ! i) ph"
  let ?pots = "sidePotLoop ?all ?inHand (sort (remdups (map totalBet ?all))) 0 []"
  let ?total = "sum_list (map SidePot.amount ?pots)"
  let ?diff = "pot s - ?total"
  from inv have ok: "stakesOk ?all" and pot: "pot s = sum_list (map totalBet ?all)"
    by (auto simp: moneyInv_def totalBets_def)
  from sidePotLoop_total [of ?all ?inHand "sort (remdups (map totalBet ?all))" 0 "[]"]
    owed_zero [OF ok] pot
  have diff: "0 \<le> ?diff" by simp
  have potsOk: "list_all (potOk ?inHand) ?pots" by (rule sidePotLoop_potOk) simp
  note nn = stakesOk_chips [OF ok]
  show ?thesis
  proof (cases "?diff > 0")
    case False
    with diff have z: "?diff = 0" by simp
    from run False have s1: "s1 = s\<lparr>sidePots := ?pots\<rparr>"
      by (simp add: calculateSidePots_def Let_def)
    show ?thesis unfolding s1 using z potsOk nn by (simp add: totalChips_def)
  next
    case True
    from run True obtain first others where all: "?all = first # others"
      by (cases ?all) (auto simp: calculateSidePots_def Let_def)
    let ?highest = "foldl (\<lambda>acc c. if totalBet c > totalBet acc then c else acc) first ?all"
    let ?top = "length (filter (\<lambda>c. totalBet c = totalBet ?highest) ?all)"
    have hmem: "?highest \<in> set ?all"
      using foldl_pick_mem [of "\<lambda>c acc. totalBet c > totalBet acc" first ?all] all by auto
    show ?thesis
    proof (cases "?top = 1")
      case top: True
      from findPlayerById_mem [OF hmem] obtain b where
        b: "findPlayerById s (pid ?highest) = Some b" "b < length ?all" by blast
      let ?s1 = "updatePlayer b (\<lambda>p. p\<lparr>chips := chips p + ?diff\<rparr>) s"
      from run True top b all have s1: "s1 = ?s1\<lparr>pot := pot ?s1 - ?diff, sidePots := ?pots\<rparr>"
        by (simp add: calculateSidePots_def Let_def)
      have c: "totalChips s1 = totalChips s + ?diff"
        unfolding s1 totalChips_def using b(2) by (simp add: sum_list_map_update)
      have n1: "list_all (\<lambda>p. 0 \<le> chips p) (players s1)"
        unfolding s1 using nn b(2) diff
        by (auto intro!: list_all_update dest: list_all_nth)
      show ?thesis using c n1 potsOk unfolding s1 by (simp add: map_update_same)
    next
      case top: False
      show ?thesis
      proof (cases "length ?pots = 0")
        case True
        with run \<open>?diff > 0\<close> top all
        have s1: "s1 = s\<lparr>sidePots := [\<lparr>SidePot.amount = ?diff, eligiblePlayers = map pid ?inHand,
                                            isMain = True\<rparr>]\<rparr>"
          by (simp add: calculateSidePots_def Let_def)
        from ne obtain i where "i \<in> set ph" by (cases ph) auto
        then have "potOk ?inHand \<lparr>SidePot.amount = ?diff, eligiblePlayers = map pid ?inHand,
                                            isMain = True\<rparr>"
          unfolding potOk_def using diff by auto
        then show ?thesis unfolding s1 using True nn by (simp add: totalChips_def)
      next
        case False
        then have pne: "?pots \<noteq> []" by simp
        let ?last = "(last ?pots)\<lparr>SidePot.amount := SidePot.amount (last ?pots) + ?diff\<rparr>"
        from run \<open>?diff > 0\<close> top all False
        have s1: "s1 = s\<lparr>sidePots := butlast ?pots @ [?last]\<rparr>"
          by (simp add: calculateSidePots_def Let_def)
        have split: "?pots = butlast ?pots @ [last ?pots]" using pne by simp
        have sum: "sum_list (map SidePot.amount (butlast ?pots @ [?last])) = ?total + ?diff"
          by (subst (3) split) (simp del: append_butlast_last_id)
        from potsOk have "list_all (potOk ?inHand) (butlast ?pots @ [last ?pots])"
          using split by simp
        then have "list_all (potOk ?inHand) (butlast ?pots @ [?last])"
          using diff by (simp add: potOk_def)
        then show ?thesis unfolding s1 using sum nn by (simp add: totalChips_def)
      qed
    qed
  qed
qed

lemma evaluateShowdown_chips:
  assumes inv: "moneyInv s" and ne: "getPlayersStillInHand s \<noteq> []"
    and run: "evaluateShowdown s = Inr s'"
  shows "totalChips s' = totalChips s + totalBets s
       \<and> list_all (\<lambda>p. 0 \<le> chips p) (players s') \<and> isHandComplete s' = isHandComplete s"
proof -
  let ?ph = "getPlayersStillInHand s"
  from run obtain hes where hes: "evaluateAll s ?ph = Inr hes"
    by (auto simp: evaluateShowdown_def Let_def split: sum.splits)
  note ev = evaluateAll_facts [OF hes]
  from ev have idx: "\<forall>h \<in> set hes. fst h < length (players s)"
    using inHand_indices [of _ s] by (metis (no_types, lifting) image_eqI list.set_map)
  from inv have pot: "pot s = totalBets s" and ok: "stakesOk (players s)"
    by (auto simp: moneyInv_def)
  show ?thesis
  proof (cases "length (remdups (map totalBet (players s))) > 1")
    case True
    with run hes obtain s1 where s1: "calculateSidePots ?ph s = Inr s1" "awardPots hes s1 = Inr s'"
      by (auto simp: evaluateShowdown_def Let_def andThen_def split: sum.splits)
    note c = calculateSidePots_chips [OF inv ne s1(1)]
    from c have len: "length (players s1) = length (players s)" by (metis length_map)
    from c have pidn: "pid (players s1 ! i) = pid (players s ! i)" if "i < length (players s)" for i
      using that len by (metis nth_map)
    from potsOk_hes [of "players s" ?ph "sidePots s1" hes] c ev
    have "\<forall>sp \<in> set (sidePots s1). 0 \<le> SidePot.amount sp
            \<and> (\<exists>h \<in> set hes. pid (players s ! fst h) \<in> set (eligiblePlayers sp))" by simp
    then have pots: "\<forall>sp \<in> set (sidePots s1). 0 \<le> SidePot.amount sp
            \<and> (\<exists>h \<in> set hes. pid (players s1 ! fst h) \<in> set (eligiblePlayers sp))"
      using pidn idx by metis
    from idx len have idx1: "\<forall>h \<in> set hes. fst h < length (players s1)" by simp
    from awardPots_chips [OF idx1 _ pots _ s1(2)] ev c pot show ?thesis by simp
  next
    case False
    let ?s1 = "s\<lparr>sidePots := [\<lparr>SidePot.amount = pot s,
                    eligiblePlayers = map (\<lambda>i. pid (players s ! i)) ?ph, isMain = True\<rparr>]\<rparr>"
    from run hes False have aw: "awardPots hes ?s1 = Inr s'"
      by (auto simp: evaluateShowdown_def Let_def andThen_def split: sum.splits)
    from ne ev have "hes \<noteq> []" by auto
    then obtain h where h0: "h \<in> set hes" by (cases hes) auto
    then have "fst h \<in> set (map fst hes)" by simp
    with h0 ev have h: "h \<in> set hes" "fst h \<in> set ?ph" by simp_all
    from pot stakesOk_bets [OF ok] have p0: "0 \<le> pot s" by (simp add: totalBets_def)
    have pots: "\<forall>sp \<in> set (sidePots ?s1). 0 \<le> SidePot.amount sp
            \<and> (\<exists>h \<in> set hes. pid (players ?s1 ! fst h) \<in> set (eligiblePlayers sp))"
      using h p0 by auto
    have idx1: "\<forall>h \<in> set hes. fst h < length (players ?s1)" using idx by simp
    from awardPots_chips [OF idx1 _ pots _ aw] ev stakesOk_chips [OF ok] pot
    show ?thesis by (simp add: totalChips_def)
  qed
qed

lemma sum_chips_positive:
  "list_all (\<lambda>p. 0 \<le> chips p) ps \<Longrightarrow>
     sum_list (map chips (filter (\<lambda>p. chips p > 0) ps)) = sum_list (map chips ps)"
  by (induction ps) auto

lemma prepareNextHand_fields:
  "players (prepareNextHand s) = filter (\<lambda>p. chips p > 0) (players s)"
  "isHandComplete (prepareNextHand s) = isHandComplete s"
  by (simp_all add: prepareNextHand_def Let_def)

lemma inHand_players_cong:
  "players t = players s \<Longrightarrow> getPlayersStillInHand t = getPlayersStillInHand s"
  by (simp add: getPlayersStillInHand_def getActivePlayers_def)

lemma completeHand_chips:
  assumes inv: "moneyInv s" and ne: "getPlayersStillInHand s \<noteq> []"
    and run: "completeHand s = Inr s'"
  shows "isHandComplete s' \<and> totalChips s' = totalChips s + totalBets s"
proof -
  let ?s = "s\<lparr>isHandComplete := True\<rparr>"
  let ?ph = "getPlayersStillInHand ?s"
  have ph: "?ph = getPlayersStillInHand s" by (rule inHand_players_cong) simp
  have inv': "moneyInv ?s" using inv by (simp add: moneyInv_def totalBets_def)
  from inv have pot: "pot s = totalBets s" and ok: "stakesOk (players s)"
    by (auto simp: moneyInv_def)
  note nn = stakesOk_chips [OF ok]
  from pot stakesOk_bets [OF ok] have p0: "0 \<le> pot s" by (simp add: totalBets_def)
  show ?thesis
  proof (cases "length ?ph = 1")
    case True
    let ?w = "hd ?ph"
    let ?s1 = "updatePlayer ?w (\<lambda>p. p\<lparr>chips := chips p + pot ?s\<rparr>) ?s"
    from True have "?w \<in> set ?ph" by (cases ?ph) auto
    then have w: "?w < length (players s)" using inHand_indices [of ?w ?s] by simp
    from run True have s': "s' = prepareNextHand (?s1\<lparr>winners := [\<lparr>playerId = pid (players ?s1 ! ?w),
                                 amount = pot ?s1, hand = \<lparr>rank = HIGH_CARD, value = Num 0\<rparr>\<rparr>]\<rparr>)"
      by (simp add: completeHand_def Let_def andThen_def)
    have n1: "list_all (\<lambda>p. 0 \<le> chips p) (players ?s1)"
      using nn w p0 by (auto intro!: list_all_update dest: list_all_nth)
    have "sum_list (map chips (players ?s1)) = totalChips s + pot s"
      using w by (simp add: totalChips_def sum_list_map_update)
    with n1 pot show ?thesis unfolding s'
      by (simp add: prepareNextHand_fields totalChips_def sum_chips_positive)
  next
    case False
    with run obtain s2 where s2: "evaluateShowdown ?s = Inr s2" "s' = prepareNextHand s2"
      by (auto simp: completeHand_def Let_def andThen_def split: sum.splits)
    from ne ph have ne': "?ph \<noteq> []" by simp
    from evaluateShowdown_chips [OF inv' ne' s2(1)] show ?thesis
      unfolding s2(2)
      by (simp add: prepareNextHand_fields totalChips_def totalBets_def sum_chips_positive)
  qed
qed

section \<open>Streets\<close>

lemma inHand_cong:
  assumes "map isFolded (players t) = map isFolded (players s)"
    and "map disconnected (players t) = map disconnected (players s)"
  shows "getPlayersStillInHand t = getPlayersStillInHand s"
proof -
  from assms(1) have len: "length (players t) = length (players s)" by (metis length_map)
  have f: "isFolded (players t ! i) = isFolded (players s ! i)" if "i < length (players s)" for i
    using assms(1) that len by (metis nth_map)
  have d: "disconnected (players t ! i) = disconnected (players s ! i)" if "i < length (players s)" for i
    using assms(2) that len by (metis nth_map)
  show ?thesis
    unfolding getPlayersStillInHand_def getActivePlayers_def len
    by (auto intro!: filter_cong simp: f d)
qed

lemma burnAndDeal_fields:
  "burnAndDeal n s = Inr s1 \<Longrightarrow>
     players s1 = players s \<and> pot s1 = pot s \<and> GameState.currentBet s1 = GameState.currentBet s
     \<and> lastRaiseSize s1 = lastRaiseSize s \<and> blinds s1 = blinds s
     \<and> isHandComplete s1 = isHandComplete s \<and> currentBettingRound s1 = currentBettingRound s"
  by (auto simp: burnAndDeal_def Let_def split: sum.splits prod.splits)

lemma setFirstPlayerPostFlop_fields [simp]:
  "players (setFirstPlayerPostFlop s) = players s"
  "pot (setFirstPlayerPostFlop s) = pot s"
  "GameState.currentBet (setFirstPlayerPostFlop s) = GameState.currentBet s"
  "lastRaiseSize (setFirstPlayerPostFlop s) = lastRaiseSize s"
  "blinds (setFirstPlayerPostFlop s) = blinds s"
  "isHandComplete (setFirstPlayerPostFlop s) = isHandComplete s"
  "currentBettingRound (setFirstPlayerPostFlop s) = currentBettingRound s"
  by (simp_all add: setFirstPlayerPostFlop_def Let_def split: option.splits)

lemma advanceToNextPlayer_fields [simp]:
  "players (advanceToNextPlayer s) = players s"
  "pot (advanceToNextPlayer s) = pot s"
  "GameState.currentBet (advanceToNextPlayer s) = GameState.currentBet s"
  "lastRaiseSize (advanceToNextPlayer s) = lastRaiseSize s"
  "blinds (advanceToNextPlayer s) = blinds s"
  "isHandComplete (advanceToNextPlayer s) = isHandComplete s"
  by (simp_all add: advanceToNextPlayer_def Let_def split: option.splits)

lemma quietI:
  assumes "moneyInv s" and "isHandComplete t = isHandComplete s"
    and "map chips (players t) = map chips (players s)"
    and "map totalBet (players t) = map totalBet (players s)"
    and "stakesOk (players t)"
    and "map isFolded (players t) = map isFolded (players s)"
    and "map disconnected (players t) = map disconnected (players s)"
    and "pot t = pot s" and "0 \<le> GameState.currentBet t" and "0 \<le> lastRaiseSize t"
    and "blinds t = blinds s"
  shows "quiet s t"
  using assms inHand_cong [OF assms(6,7)]
  by (simp add: quiet_def moneyInv_def totalChips_def totalBets_def)

lemma quiet_trans: "quiet s t \<Longrightarrow> quiet t u \<Longrightarrow> quiet s u"
  by (simp add: quiet_def)

lemma stakesOk_newStreet:
  "stakesOk ps \<Longrightarrow> stakesOk (map (\<lambda>p. p\<lparr>hasActed := False, Player.currentBet := 0\<rparr>) ps)"
  unfolding stakesOk_def by (induction ps) auto

lemma newStreet_quiet: "moneyInv s \<Longrightarrow> quiet s (newStreet s)"
  by (rule quietI) (auto simp: newStreet_def moneyInv_def comp_def stakesOk_newStreet)

lemma resume_quiet:
  assumes "moneyInv s" and "players t = players s" and "pot t = pot s"
    and "lastRaiseSize t = lastRaiseSize s" and "blinds t = blinds s"
    and "isHandComplete t = isHandComplete s"
  shows "quiet s (setFirstPlayerPostFlop (t\<lparr>GameState.currentBet := 0\<rparr>))"
  by (rule quietI) (use assms in \<open>auto simp: moneyInv_def\<close>)

lemma advanceBettingRound_cases:
  assumes inv: "moneyInv s" and ne: "getPlayersStillInHand s \<noteq> []"
    and run: "advanceBettingRound s = Inr s'"
  shows "(isHandComplete s' \<and> totalChips s' = totalChips s + totalBets s) \<or> quiet s s'"
proof -
  let ?s = "newStreet s"
  note q = newStreet_quiet [OF inv]
  then have inv': "moneyInv ?s" and ne': "getPlayersStillInHand ?s \<noteq> []"
    and tot: "totalChips ?s = totalChips s" "totalBets ?s = totalBets s"
    using ne by (auto simp: quiet_def)
  have rd: "currentBettingRound ?s = currentBettingRound s" by (simp add: newStreet_def)
  have street: "quiet s s'"
    if "burnAndDeal n ?s = Inr s1"
      and "s' = setFirstPlayerPostFlop ((s1\<lparr>currentBettingRound := r\<rparr>)\<lparr>GameState.currentBet := 0\<rparr>)"
    for n s1 r
  proof -
    note f = burnAndDeal_fields [OF that(1)]
    have "quiet ?s s'" unfolding that(2)
      by (rule resume_quiet [OF inv']) (use f in auto)
    with q show ?thesis by (rule quiet_trans)
  qed
  show ?thesis
  proof (cases "currentBettingRound s")
    case PREFLOP
    with run obtain s1 where "burnAndDeal 3 ?s = Inr s1"
      "s' = setFirstPlayerPostFlop ((s1\<lparr>currentBettingRound := FLOP\<rparr>)\<lparr>GameState.currentBet := 0\<rparr>)"
      by (auto simp: advanceBettingRound_def newStreet_def [symmetric] rd Let_def andThen_def
            dealFlop_def split: sum.splits)
    then show ?thesis using street by blast
  next
    case FLOP
    with run obtain s1 where "burnAndDeal 1 ?s = Inr s1"
      "s' = setFirstPlayerPostFlop ((s1\<lparr>currentBettingRound := TURN\<rparr>)\<lparr>GameState.currentBet := 0\<rparr>)"
      by (auto simp: advanceBettingRound_def newStreet_def [symmetric] rd Let_def andThen_def
            dealTurn_def split: sum.splits)
    then show ?thesis using street by blast
  next
    case TURN
    with run obtain s1 where "burnAndDeal 1 ?s = Inr s1"
      "s' = setFirstPlayerPostFlop ((s1\<lparr>currentBettingRound := RIVER\<rparr>)\<lparr>GameState.currentBet := 0\<rparr>)"
      by (auto simp: advanceBettingRound_def newStreet_def [symmetric] rd Let_def andThen_def
            dealRiver_def split: sum.splits)
    then show ?thesis using street by blast
  next
    case RIVER
    let ?t = "?s\<lparr>currentBettingRound := SHOWDOWN\<rparr>"
    from run RIVER have c: "completeHand ?t = Inr s'"
      by (simp add: advanceBettingRound_def newStreet_def [symmetric] rd Let_def)
    have it: "moneyInv ?t" using inv' by (simp add: moneyInv_def totalBets_def)
    have nt: "getPlayersStillInHand ?t \<noteq> []"
      using ne' inHand_players_cong [of ?t ?s] by simp
    from completeHand_chips [OF it nt c] tot show ?thesis
      by (simp add: totalChips_def totalBets_def)
  next
    case SHOWDOWN
    with run have s': "s' = setFirstPlayerPostFlop (?s\<lparr>GameState.currentBet := 0\<rparr>)"
      by (simp add: advanceBettingRound_def newStreet_def [symmetric] rd Let_def)
    have "quiet ?s s'" unfolding s' by (rule resume_quiet [OF inv']) auto
    with q show ?thesis using quiet_trans by blast
  qed
qed

lemma fastForward_cases:
  assumes "moneyInv s" and "getPlayersStillInHand s \<noteq> []" and "\<not> isHandComplete s"
    and "fastForward fuel s = Inr s'"
  shows "(isHandComplete s' \<and> totalChips s' = totalChips s + totalBets s) \<or> quiet s s'"
  using assms
proof (induction fuel arbitrary: s)
  case 0
  then have "s' = s" by (auto split: if_splits)
  with 0 show ?case by (simp add: quiet_def)
next
  case (Suc fuel)
  show ?case
  proof (cases "\<not> isHandComplete s \<and> currentBettingRound s \<noteq> SHOWDOWN")
    case False
    with Suc.prems have "s' = s" by auto
    with Suc.prems show ?thesis by (simp add: quiet_def)
  next
    case True
    with Suc.prems obtain s1 where s1: "advanceBettingRound s = Inr s1" "fastForward fuel s1 = Inr s'"
      by (auto simp: andThen_def split: sum.splits)
    from advanceBettingRound_cases [OF Suc.prems(1,2) s1(1)]
    show ?thesis
    proof
      assume fin: "isHandComplete s1 \<and> totalChips s1 = totalChips s + totalBets s"
      with s1(2) have "s' = s1" by (cases fuel) auto
      with fin show ?thesis by simp
    next
      assume q: "quiet s s1"
      then have p: "moneyInv s1" "getPlayersStillInHand s1 \<noteq> []" "\<not> isHandComplete s1"
        using Suc.prems by (auto simp: quiet_def)
      from Suc.IH [OF p s1(2)] q show ?thesis by (auto simp: quiet_def)
    qed
  qed
qed

lemma runToShowdown_chips:
  assumes "moneyInv s" and "getPlayersStillInHand s \<noteq> []" and "\<not> isHandComplete s"
    and "runToShowdown s = Inr s'"
  shows "isHandComplete s' \<and> totalChips s' = totalChips s + totalBets s"
proof -
  from assms(4) obtain s1 where s1: "fastForward 4 s = Inr s1"
    "(if \<not> isHandComplete s1 then completeHand s1 else Inr s1) = Inr s'"
    by (auto simp: runToShowdown_def andThen_def split: sum.splits)
  from fastForward_cases [OF assms(1-3) s1(1)] show ?thesis
  proof
    assume "isHandComplete s1 \<and> totalChips s1 = totalChips s + totalBets s"
    with s1(2) show ?thesis by simp
  next
    assume q: "quiet s s1"
    with assms have p: "moneyInv s1" "getPlayersStillInHand s1 \<noteq> []" "\<not> isHandComplete s1"
      by (auto simp: quiet_def)
    with s1(2) have "completeHand s1 = Inr s'" by simp
    from completeHand_chips [OF p(1,2) this] q show ?thesis by (simp add: quiet_def)
  qed
qed

section \<open>One accepted action\<close>

lemma inHand_distinct: "distinct (getPlayersStillInHand s)"
  by (simp add: getPlayersStillInHand_def getActivePlayers_def)

lemma fold_inHand:
  assumes "i < length (players s)"
  shows "getPlayersStillInHand (updatePlayer i (\<lambda>p. p\<lparr>isFolded := True\<rparr>) s)
           = filter (\<lambda>j. j \<noteq> i) (getPlayersStillInHand s)"
  unfolding getPlayersStillInHand_def getActivePlayers_def
  using assms by (auto intro!: filter_cong simp: nth_list_update)

lemma length_filter_neq: "distinct xs \<Longrightarrow> length xs \<le> Suc (length (filter (\<lambda>j. j \<noteq> i) xs))"
proof (induction xs)
  case Nil
  then show ?case by simp
next
  case (Cons x xs)
  show ?case
  proof (cases "x = i")
    case True
    with Cons.prems have "i \<notin> set xs" by simp
    then have "filter (\<lambda>j. j \<noteq> i) xs = xs" by (auto simp: filter_id_conv)
    with True show ?thesis by simp
  next
    case False
    with Cons show ?thesis by simp
  qed
qed

lemma map_clearActed [simp]:
  "map isFolded (map (clearActed x) ps) = map isFolded ps"
  "map disconnected (map (clearActed x) ps) = map disconnected ps"
  by simp_all

lemma executeAction_inHand:
  assumes i: "i < length (players s)"
  shows "length (getPlayersStillInHand s) \<le> Suc (length (getPlayersStillInHand (executeAction i a s)))
       \<and> isHandComplete (executeAction i a s) = isHandComplete s"
proof (cases a)
  case Fold
  have e: "executeAction i a s = updatePlayer i (\<lambda>p. p\<lparr>isFolded := True\<rparr>) s"
    by (simp add: Fold executeAction_def)
  show ?thesis unfolding e fold_inHand [OF i]
    using length_filter_neq [OF inHand_distinct, of s i] by simp
next
  case Check
  then show ?thesis by (simp add: executeAction_def)
next
  case Call
  have "getPlayersStillInHand (executeAction i a s) = getPlayersStillInHand s"
    by (rule inHand_cong) (simp_all add: Call executeAction_def Let_def map_update_same)
  then show ?thesis by (simp add: Call executeAction_def Let_def)
next
  case (Bet x)
  have "getPlayersStillInHand (executeAction i a s) = getPlayersStillInHand s"
    by (rule inHand_cong) (simp_all add: Bet executeAction_def Let_def map_update_same)
  then show ?thesis by (simp add: Bet executeAction_def Let_def)
next
  case (Raise x)
  have "getPlayersStillInHand (executeAction i a s) = getPlayersStillInHand s"
    by (rule inHand_cong) (simp_all add: Raise executeAction_def Let_def map_update_same)
  then show ?thesis by (simp add: Raise executeAction_def Let_def)
next
  case (AllIn x)
  have "getPlayersStillInHand (executeAction i a s) = getPlayersStillInHand s"
    by (rule inHand_cong) (simp_all add: AllIn executeAction_def Let_def map_update_same)
  then show ?thesis by (simp add: AllIn executeAction_def Let_def)
qed

lemma processPlayerAction_step:
  assumes hip: "handInProgress s" and run: "processPlayerAction ident a s = Inr s'"
  shows "\<exists>i. findPlayerById s ident = Some i
           \<and> totalChips (executeAction i a s) + totalBets (executeAction i a s)
               = totalChips s + totalBets s
           \<and> (settled (executeAction i a s) s'
              \<or> handInProgress s' \<and> totalChips s' = totalChips (executeAction i a s)
                  \<and> totalBets s' = totalBets (executeAction i a s))"
proof -
  from run obtain i where i: "findPlayerById s ident = Some i"
    by (auto simp: processPlayerAction_def split: option.splits)
  note il = findPlayerById_Some [OF i]
  let ?e = "executeAction i a s"
  let ?s3 = "updatePlayer i (\<lambda>p. p\<lparr>hasActed := True\<rparr>) (?e\<lparr>lastAction := Some a\<rparr>)"
  from run i have ok: "validateAction s (players s ! i) a = None"
    and out: "(if isHandCompleteCheck ?s3 then completeHand ?s3
               else if length (playersWhoCanAct ?s3) = 0 then runToShowdown ?s3
               else if isBettingRoundComplete ?s3 then advanceBettingRound ?s3
               else Inr (advanceToNextPlayer ?s3)) = Inr s'"
    by (auto simp: processPlayerAction_def Let_def split: option.splits if_splits)
  from hip have inv: "moneyInv s" and nc: "\<not> isHandComplete s"
    and two: "2 \<le> length (getPlayersStillInHand s)"
    by (auto simp: handInProgress_def)
  note em = executeAction_money [OF inv il [THEN conjunct1] ok]
  note eh = executeAction_inHand [OF il [THEN conjunct1], of a]
  have ss: "sameStakes (players ?s3) (players ?e)"
    by (simp add: sameStakes_def map_update_same)
  have ok3: "stakesOk (players ?s3)"
    using stakesOk_cong [OF ss] em by (simp add: moneyInv_def)
  have q: "quiet ?e ?s3"
    by (rule quietI) (use em ok3 in \<open>auto simp: map_update_same moneyInv_def\<close>)
  then have inv3: "moneyInv ?s3" and h3: "getPlayersStillInHand ?s3 = getPlayersStillInHand ?e"
    and t3: "totalChips ?s3 = totalChips ?e" "totalBets ?s3 = totalBets ?e"
    and c3: "\<not> isHandComplete ?s3"
    using eh nc by (auto simp: quiet_def)
  from h3 eh two have ne3: "getPlayersStillInHand ?s3 \<noteq> []" by auto
  have res: "settled ?e s' \<or> handInProgress s' \<and> totalChips s' = totalChips ?e
                  \<and> totalBets s' = totalBets ?e"
  proof (cases "isHandCompleteCheck ?s3")
    case True
    with out have "completeHand ?s3 = Inr s'" by simp
    from completeHand_chips [OF inv3 ne3 this] t3 show ?thesis by (simp add: settled_def)
  next
    case nchk: False
    then have two3: "2 \<le> length (getPlayersStillInHand ?s3)"
      by (auto simp: isHandCompleteCheck_def split: if_splits)
    show ?thesis
    proof (cases "length (playersWhoCanAct ?s3) = 0")
      case True
      with out nchk have "runToShowdown ?s3 = Inr s'" by simp
      from runToShowdown_chips [OF inv3 ne3 c3 this] t3 show ?thesis by (simp add: settled_def)
    next
      case some: False
      show ?thesis
      proof (cases "isBettingRoundComplete ?s3")
        case True
        with out nchk some have "advanceBettingRound ?s3 = Inr s'" by simp
        from advanceBettingRound_cases [OF inv3 ne3 this] show ?thesis
        proof
          assume "isHandComplete s' \<and> totalChips s' = totalChips ?s3 + totalBets ?s3"
          with t3 show ?thesis by (simp add: settled_def)
        next
          assume "quiet ?s3 s'"
          with c3 two3 t3 show ?thesis by (simp add: quiet_def handInProgress_def)
        qed
      next
        case False
        with out nchk some have s': "s' = advanceToNextPlayer ?s3" by simp
        have "quiet ?s3 s'" unfolding s'
          by (rule quietI [OF inv3]) (use inv3 in \<open>auto simp: moneyInv_def\<close>)
        with c3 two3 t3 show ?thesis by (simp add: quiet_def handInProgress_def)
      qed
    qed
  qed
  with i em show ?thesis by blast
qed

section \<open>The start of a hand\<close>

lemma sameTable_refl [simp]: "sameTable s s"
  by (simp add: sameTable_def)

lemma sameTable_trans: "sameTable s t \<Longrightarrow> sameTable t u \<Longrightarrow> sameTable s u"
  by (simp add: sameTable_def)

lemma sameTable_update:
  assumes "\<And>p. chips (f p) = chips p" "\<And>p. totalBet (f p) = totalBet p"
    "\<And>p. Player.currentBet (f p) = Player.currentBet p" "\<And>p. isFolded (f p) = isFolded p"
    "\<And>p. disconnected (f p) = disconnected p"
  shows "sameTable s (updatePlayer i f s)"
  by (simp add: sameTable_def map_update_same assms)

lemma list_all_map_cong:
  assumes "map f xs = map f ys" and "\<And>x y. f x = f y \<Longrightarrow> P x = P y"
  shows "list_all P xs = list_all P ys"
proof -
  from assms(1) have len: "length xs = length ys" by (metis length_map)
  have "f (xs ! i) = f (ys ! i)" if "i < length xs" for i
    using assms(1) that len by (metis nth_map)
  then have "P (xs ! i) = P (ys ! i)" if "i < length xs" for i using that assms(2) by blast
  then show ?thesis unfolding list_all_length using len by auto
qed

lemma sameTable_quiet: "moneyInv s \<Longrightarrow> sameTable s t \<Longrightarrow> quiet s t"
proof (rule quietI)
  assume a: "moneyInv s" "sameTable s t"
  then have "sameStakes (players t) (players s)" by (simp add: sameTable_def sameStakes_def)
  from stakesOk_cong [OF this] a show "stakesOk (players t)" by (simp add: moneyInv_def)
qed (auto simp: sameTable_def moneyInv_def)

lemma sameTable_active: "sameTable s t \<Longrightarrow> getActivePlayers t = getActivePlayers s"
proof -
  assume a: "sameTable s t"
  then have d: "map disconnected (players t) = map disconnected (players s)"
    by (simp add: sameTable_def)
  then have len: "length (players t) = length (players s)" by (metis length_map)
  have "disconnected (players t ! i) = disconnected (players s ! i)" if "i < length (players s)" for i
    using d that len by (metis nth_map)
  then show ?thesis unfolding getActivePlayers_def len by (auto intro!: filter_cong)
qed

lemma sameTable_fresh:
  assumes "fresh s" and "sameTable s t"
  shows "fresh t"
proof -
  from assms have q: "quiet s t" by (auto simp: fresh_def intro: sameTable_quiet)
  have b: "list_all (\<lambda>p. totalBet p = 0) (players t) = list_all (\<lambda>p. totalBet p = 0) (players s)"
    by (rule list_all_map_cong [where f = totalBet]) (use assms(2) in \<open>auto simp: sameTable_def\<close>)
  have f: "list_all (\<lambda>p. \<not> isFolded p) (players t) = list_all (\<lambda>p. \<not> isFolded p) (players s)"
    by (rule list_all_map_cong [where f = isFolded]) (use assms(2) in \<open>auto simp: sameTable_def\<close>)
  from assms q b f show ?thesis by (simp add: fresh_def quiet_def sameTable_def)
qed

lemma map_enumerate_proj:
  "(\<And>i p. h (g i p) = h' p) \<Longrightarrow> map h (map (\<lambda>(i, p). g i p) (enumerate n ps)) = map h' ps"
  by (induction ps arbitrary: n) auto

lemma list_all_enumerate:
  "(\<And>i p. P (g i p)) \<Longrightarrow> list_all P (map (\<lambda>(i, p). g i p) (enumerate n ps))"
  by (induction ps arbitrary: n) auto

lemma sum_list_zero: "list_all (\<lambda>p. f p = (0::int)) ps \<Longrightarrow> sum_list (map f ps) = 0"
  by (induction ps) auto

lemma resetHandState_players:
  "players ((resetHandState t)\<lparr>deck := d\<rparr>)
     = map (\<lambda>(index, player).
              player\<lparr>position := index, holeCards := [], Player.currentBet := 0,
                      totalBet := 0, hasActed := False, isFolded := False, isAllIn := False,
                      isDealer := (index = dealerPosition t), isSmallBlind := False,
                      isBigBlind := False\<rparr>) (enumerate 0 (players t))"
  by (simp add: resetHandState_def cong: map_cong)

lemma resetHandState_table:
  "pot ((resetHandState t)\<lparr>deck := d\<rparr>) = 0"
  "GameState.currentBet ((resetHandState t)\<lparr>deck := d\<rparr>) = big (blinds t)"
  "lastRaiseSize ((resetHandState t)\<lparr>deck := d\<rparr>) = big (blinds t)"
  "blinds ((resetHandState t)\<lparr>deck := d\<rparr>) = blinds t"
  "\<not> isHandComplete ((resetHandState t)\<lparr>deck := d\<rparr>)"
  by (simp_all add: resetHandState_def cong: map_cong)

lemma resetHandState_fresh:
  assumes "tableOk t"
  shows "fresh ((resetHandState t)\<lparr>deck := d\<rparr>)
       \<and> totalChips ((resetHandState t)\<lparr>deck := d\<rparr>) = totalChips t"
proof -
  define ps where "ps = players ((resetHandState t)\<lparr>deck := d\<rparr>)"
  note ps = ps_def [unfolded resetHandState_players]
  have c: "map chips ps = map chips (players t)"
    unfolding ps by (rule map_enumerate_proj) simp
  have b: "list_all (\<lambda>p. totalBet p = 0) ps"
    unfolding ps by (rule list_all_enumerate) simp
  have f: "list_all (\<lambda>p. \<not> isFolded p) ps"
    unfolding ps by (rule list_all_enumerate) simp
  have cb: "list_all (\<lambda>p. Player.currentBet p = 0) ps"
    unfolding ps by (rule list_all_enumerate) simp
  have len: "length ps = length (players t)" using c by (metis length_map)
  have ok: "stakesOk ps"
  proof -
    have "0 \<le> chips (ps ! i) \<and> Player.currentBet (ps ! i) = 0 \<and> totalBet (ps ! i) = 0"
      if "i < length ps" for i
    proof -
      have "chips (ps ! i) = chips (players t ! i)" using c that len by (metis nth_map)
      moreover have "0 \<le> chips (players t ! i)"
        using assms that len by (auto simp: tableOk_def dest: list_all_nth)
      moreover note list_all_nth [OF cb that] list_all_nth [OF b that]
      ultimately show ?thesis by simp
    qed
    then show ?thesis unfolding stakesOk_def list_all_length by simp
  qed
  have z: "sum_list (map totalBet ps) = 0" by (rule sum_list_zero [OF b])
  from assms ok z b f c resetHandState_table [where t = t and d = d] show ?thesis
    unfolding fresh_def moneyInv_def totalBets_def totalChips_def tableOk_def ps_def [symmetric]
    by simp
qed

lemma giveHoleCards_same: "sameTable s (giveHoleCards ap hands s)"
proof -
  have "sameTable s (foldl (\<lambda>st (index, i). updatePlayer i (\<lambda>p. p\<lparr>holeCards := hands ! index\<rparr>) st) s xs)"
    for xs
  proof (induction xs arbitrary: s)
    case Nil
    show ?case by simp
  next
    case (Cons x xs)
    obtain index i where x: "x = (index, i)" by (cases x)
    have "sameTable s (updatePlayer i (\<lambda>p. p\<lparr>holeCards := hands ! index\<rparr>) s)"
      by (rule sameTable_update) simp_all
    from sameTable_trans [OF this Cons.IH] show ?case by (simp add: x)
  qed
  then show ?thesis unfolding giveHoleCards_def .
qed

lemma engineDealHoleCards_fresh:
  assumes "fresh s" and "engineDealHoleCards s = Inr s1"
  shows "fresh s1 \<and> totalChips s1 = totalChips s"
proof -
  from assms(2) obtain hands rest where
    s1: "s1 = giveHoleCards (getActivePlayers s) hands (s\<lparr>deck := rest\<rparr>)"
    by (auto simp: engineDealHoleCards_def Let_def split: sum.splits prod.splits)
  have "sameTable s (s\<lparr>deck := rest\<rparr>)" by (simp add: sameTable_def)
  from sameTable_trans [OF this giveHoleCards_same] have st: "sameTable s s1" unfolding s1 .
  from sameTable_fresh [OF assms(1) st] st show ?thesis
    by (simp add: sameTable_def totalChips_def)
qed

lemma postBlind_move:
  assumes inv: "moneyInv s" and i: "i < length (players s)"
    and zero: "totalBet (players s ! i) = 0" and sm: "0 \<le> small (blinds s)"
  shows "moneyInv (postBlind b i s)"
    and "totalChips (postBlind b i s) + totalBets (postBlind b i s) = totalChips s + totalBets s"
    and "map isFolded (players (postBlind b i s)) = map isFolded (players s)"
    and "map disconnected (players (postBlind b i s)) = map disconnected (players s)"
    and "isHandComplete (postBlind b i s) = isHandComplete s"
    and "blinds (postBlind b i s) = blinds s"
    and "j \<noteq> i \<Longrightarrow> players (postBlind b i s) ! j = players s ! j"
    and "length (players (postBlind b i s)) = length (players s)"
proof -
  let ?p = "players s ! i"
  let ?d = "min (if b then big (blinds s) else small (blinds s)) (chips ?p)"
  let ?q = "?p\<lparr>chips := chips ?p - ?d, Player.currentBet := ?d, totalBet := ?d\<rparr>"
  from stakesOk_nth [of "players s" i] inv i have p: "0 \<le> chips ?p" by (auto simp: moneyInv_def)
  from inv sm have d: "0 \<le> ?d" "?d \<le> chips ?p" using p by (auto simp: moneyInv_def)
  have "moneyInv (postBlind b i s)
      \<and> totalChips (postBlind b i s) + totalBets (postBlind b i s) = totalChips s + totalBets s"
    by (rule stake_move [OF inv i, where d = ?d and q = ?q])
       (use d zero inv in \<open>auto simp: postBlind_def Let_def moneyInv_def\<close>)
  then show "moneyInv (postBlind b i s)"
    and "totalChips (postBlind b i s) + totalBets (postBlind b i s) = totalChips s + totalBets s"
    by simp_all
  show "map isFolded (players (postBlind b i s)) = map isFolded (players s)"
    and "map disconnected (players (postBlind b i s)) = map disconnected (players s)"
    and "isHandComplete (postBlind b i s) = isHandComplete s"
    and "blinds (postBlind b i s) = blinds s"
    and "length (players (postBlind b i s)) = length (players s)"
    by (simp_all add: postBlind_def Let_def map_update_same)
  show "j \<noteq> i \<Longrightarrow> players (postBlind b i s) ! j = players s ! j"
    by (simp add: postBlind_def Let_def)
qed

lemma active_indices: "i \<in> set (getActivePlayers s) \<Longrightarrow> i < length (players s)"
  by (auto simp: getActivePlayers_def)

lemma next_seats_differ:
  fixes d n :: nat
  assumes "2 \<le> n"
  shows "(d + 1) mod n \<noteq> (d + 2) mod n"
proof
  assume "(d + 1) mod n = (d + 2) mod n"
  moreover have "(d + 2) mod n = Suc (d + 1) mod n" by simp
  ultimately have "Suc (d + 1) mod n = (d + 1) mod n" by simp
  then show False using assms by (auto simp: mod_Suc split: if_splits)
qed

lemma fresh_inHand:
  assumes "fresh s"
  shows "getPlayersStillInHand s = getActivePlayers s"
proof -
  from assms have "list_all (\<lambda>p. \<not> isFolded p) (players s)" by (simp add: fresh_def)
  then have "\<not> isFolded (players s ! i)" if "i \<in> set (getActivePlayers s)" for i
    using active_indices [OF that] by (auto dest: list_all_nth)
  then show ?thesis unfolding getPlayersStillInHand_def by (simp add: filter_id_conv)
qed

lemma postBlinds_start:
  assumes fr: "fresh s" and run: "postBlinds s = Inr s'"
  shows "handInProgress s' \<and> totalChips s' + totalBets s' = totalChips s"
proof -
  let ?ap = "getActivePlayers s"
  let ?n = "length ?ap"
  from run have two: "2 \<le> ?n" by (auto simp: postBlinds_def Let_def split: if_splits)
  define sb where "sb = ?ap ! ((dealerPosition s + 1) mod ?n)"
  define bb where "bb = ?ap ! ((dealerPosition s + 2) mod ?n)"
  define t2 where "t2 = updatePlayer bb (\<lambda>p. p\<lparr>isBigBlind := True\<rparr>)
                          (updatePlayer sb (\<lambda>p. p\<lparr>isSmallBlind := True\<rparr>) s)"
  define t3 where "t3 = postBlind False sb t2"
  define t4 where "t4 = postBlind True bb t3"
  define t5 where "t5 = t4\<lparr>GameState.currentBet := Player.currentBet (players t4 ! bb),
                           lastRaiseSize := Player.currentBet (players t4 ! bb)\<rparr>"
  from run two have s': "s' = markAllInIfBroke bb (markAllInIfBroke sb t5)"
    unfolding postBlinds_def Let_def markAllInIfBroke_def t5_def t4_def t3_def t2_def sb_def bb_def
    by (simp split: if_splits)
  have dist: "distinct ?ap" by (simp add: getActivePlayers_def)
  from two have "0 < ?n" by linarith
  then have lt: "(dealerPosition s + 1) mod ?n < ?n" "(dealerPosition s + 2) mod ?n < ?n"
    by (rule mod_less_divisor)+
  from lt have mem: "sb \<in> set ?ap" "bb \<in> set ?ap" unfolding sb_def bb_def by simp_all
  then have il: "sb < length (players s)" "bb < length (players s)"
    by (auto dest: active_indices)
  have ne: "bb \<noteq> sb"
    unfolding sb_def bb_def using next_seats_differ [OF two, of "dealerPosition s"] lt dist
    by (simp add: nth_eq_iff_index_eq)
  from fr have inv: "moneyInv s" and z: "totalBets s = 0" and nc: "\<not> isHandComplete s"
    by (auto simp: fresh_def totalBets_def intro: sum_list_zero)
  have st2: "sameTable s t2" unfolding t2_def
    by (rule sameTable_trans [OF sameTable_update sameTable_update]) simp_all
  note fr2 = sameTable_fresh [OF fr st2]
  from st2 have len2: "length (players t2) = length (players s)"
    unfolding sameTable_def by (metis length_map)
  from fr2 have inv2: "moneyInv t2" and sm2: "0 \<le> small (blinds t2)"
    and z2: "list_all (\<lambda>p. totalBet p = 0) (players t2)" by (auto simp: fresh_def)
  from z2 il len2 have zs: "totalBet (players t2 ! sb) = 0" "totalBet (players t2 ! bb) = 0"
    by (auto dest: list_all_nth)
  from il len2 have i2: "sb < length (players t2)" by simp
  note m3 = postBlind_move [OF inv2 i2 zs(1) sm2, where b = False, folded t3_def]
  from m3(7) [where j = bb] ne zs have z3: "totalBet (players t3 ! bb) = 0" by simp
  from m3(8) il len2 have i3: "bb < length (players t3)" by simp
  from m3(6) sm2 have sm3: "0 \<le> small (blinds t3)" by simp
  note m4 = postBlind_move [OF m3(1) i3 z3 sm3, where b = True, folded t4_def]
  from m4(8) i3 have i4: "bb < length (players t4)" by simp
  from stakesOk_nth [of "players t4" bb] m4(1) i4
  have c: "0 \<le> Player.currentBet (players t4 ! bb)" by (auto simp: moneyInv_def)
  have q5: "moneyInv t5" "totalChips t5 = totalChips t4" "totalBets t5 = totalBets t4"
    "map isFolded (players t5) = map isFolded (players t4)"
    "map disconnected (players t5) = map disconnected (players t4)"
    "isHandComplete t5 = isHandComplete t4"
    using m4(1) c unfolding t5_def by (simp_all add: moneyInv_def totalChips_def totalBets_def)
  have me: "moneyEq s' t5" unfolding s'
    by (rule moneyEq_trans [OF markAllInIfBroke_moneyEq markAllInIfBroke_moneyEq])
  have hand: "getPlayersStillInHand s' = getPlayersStillInHand s"
  proof -
    have "getPlayersStillInHand s' = getPlayersStillInHand t5"
      unfolding s' by (rule inHand_cong) simp_all
    also have "\<dots> = getPlayersStillInHand t4" by (rule inHand_cong [OF q5(4,5)])
    also have "\<dots> = getPlayersStillInHand t3" by (rule inHand_cong [OF m4(3,4)])
    also have "\<dots> = getPlayersStillInHand t2" by (rule inHand_cong [OF m3(3,4)])
    also have "\<dots> = getPlayersStillInHand s"
      by (rule inHand_cong) (use st2 in \<open>auto simp: sameTable_def\<close>)
    finally show ?thesis .
  qed
  have comp: "isHandComplete s' = isHandComplete s"
    unfolding s' using q5(6) m4(5) m3(5) st2 by (simp add: sameTable_def)
  from sameTable_quiet [OF inv st2] have t2: "totalChips t2 = totalChips s" "totalBets t2 = totalBets s"
    by (auto simp: quiet_def)
  from moneyEq_inv [OF me] moneyEq_totals [OF me] q5 m4(2) m3(2) t2 z
  have "moneyInv s'" "totalChips s' + totalBets s' = totalChips s" by simp_all
  moreover from hand fresh_inHand [OF fr] two have "2 \<le> length (getPlayersStillInHand s')" by simp
  ultimately show ?thesis using comp nc by (simp add: handInProgress_def)
qed

lemma setFirstPlayerToAct_fields:
  "setFirstPlayerToAct s = Inr s' \<Longrightarrow> \<exists>k. s' = s\<lparr>activePlayerIndex := k\<rparr>"
  by (auto simp: setFirstPlayerToAct_def Let_def split: if_splits option.splits)

lemma startNewHand_start:
  assumes "tableOk t" and "startNewHand d t = Inr s0"
  shows "handInProgress s0 \<and> totalChips s0 + totalBets s0 = totalChips t"
proof -
  let ?r = "(resetHandState t)\<lparr>deck := d\<rparr>"
  from assms(2) obtain s1 s2 where s1: "engineDealHoleCards ?r = Inr s1"
    and s2: "postBlinds s1 = Inr s2" and s0: "setFirstPlayerToAct s2 = Inr s0"
    by (auto simp: startNewHand_def andThen_def split: sum.splits)
  note r = resetHandState_fresh [OF assms(1), of d]
  note e = engineDealHoleCards_fresh [OF r [THEN conjunct1] s1]
  note p = postBlinds_start [OF e [THEN conjunct1] s2]
  from setFirstPlayerToAct_fields [OF s0] obtain k where k: "s0 = s2\<lparr>activePlayerIndex := k\<rparr>" ..
  have "getPlayersStillInHand s0 = getPlayersStillInHand s2"
    by (rule inHand_players_cong) (simp add: k)
  with p r e show ?thesis
    unfolding k by (simp add: handInProgress_def moneyInv_def totalChips_def totalBets_def)
qed

section \<open>A hand from the blinds to the settlement\<close>

lemma playActions_inv:
  assumes "handInProgress s" and "playActions acts s = Some s'"
  shows "(isHandComplete s' \<or> handInProgress s')
       \<and> totalChips s' + (if isHandComplete s' then 0 else totalBets s') = totalChips s + totalBets s"
  using assms
proof (induction acts arbitrary: s)
  case Nil
  then show ?case by (simp add: handInProgress_def)
next
  case (Cons x acts)
  obtain ident a where x: "x = (ident, a)" by (cases x)
  from Cons.prems x obtain s1 where s1: "processPlayerAction ident a s = Inr s1"
    and rest: "playActions acts s1 = Some s'"
    by (auto split: if_splits sum.splits)
  from processPlayerAction_step [OF Cons.prems(1) s1] obtain i where
    tot: "totalChips (executeAction i a s) + totalBets (executeAction i a s) = totalChips s + totalBets s"
    and alt: "settled (executeAction i a s) s1
              \<or> handInProgress s1 \<and> totalChips s1 = totalChips (executeAction i a s)
                  \<and> totalBets s1 = totalBets (executeAction i a s)"
    by blast
  from alt show ?case
  proof
    assume st: "settled (executeAction i a s) s1"
    then have c: "isHandComplete s1" by (simp add: settled_def)
    with rest have "s' = s1" by (cases acts) auto
    with st tot show ?thesis by (simp add: settled_def)
  next
    assume h: "handInProgress s1 \<and> totalChips s1 = totalChips (executeAction i a s)
                  \<and> totalBets s1 = totalBets (executeAction i a s)"
    from Cons.IH [OF h [THEN conjunct1] rest] h tot show ?thesis by simp
  qed
qed

text \<open>
  The first settlement of a hand conserves the chips. A hand is started on a table without
  negative stacks or blinds, a sequence of accepted actions is played while the hand is in
  progress, and one more accepted action completes the hand. Then the chips paid out at
  the settlement (the gain of all stacks over the state in which the last action left
  them, side pots and refunded uncalled bet together) equal the sum of all players'
  \<open>totalBet\<close>, which is also the pot at that moment; and the stacks after the settlement
  add up to the stacks before the hand. This is a statement about integer amounts, as the
  model has them, and about the first settlement only.
\<close>

theorem chips_conserved_at_settlement:
  assumes "tableOk t" and "startNewHand d t = Inr s0"
      and "playActions acts s0 = Some s" and "\<not> isHandComplete s"
      and "findPlayerById s ident = Some i"
      and "processPlayerAction ident a s = Inr s'" and "isHandComplete s'"
  shows "totalChips s' - totalChips (executeAction i a s) = totalBets (executeAction i a s)
       \<and> pot (executeAction i a s) = totalBets (executeAction i a s)
       \<and> totalChips s' = totalChips t"
proof -
  note st = startNewHand_start [OF assms(1,2)]
  from playActions_inv [OF st [THEN conjunct1] assms(3)] assms(4) st
  have h: "handInProgress s" and tot: "totalChips s + totalBets s = totalChips t" by auto
  from processPlayerAction_step [OF h assms(6)] assms(5,7)
  have e: "totalChips (executeAction i a s) + totalBets (executeAction i a s) = totalChips s + totalBets s"
    and alt: "settled (executeAction i a s) s'
              \<or> handInProgress s' \<and> totalChips s' = totalChips (executeAction i a s)
                  \<and> totalBets s' = totalBets (executeAction i a s)"
    by auto
  from alt assms(7) have s: "settled (executeAction i a s) s'" by (auto simp: handInProgress_def)
  from h have inv: "moneyInv s" by (simp add: handInProgress_def)
  from assms(6,5) have ok: "validateAction s (players s ! i) a = None"
    by (auto simp: processPlayerAction_def Let_def split: option.splits if_splits)
  from executeAction_money [OF inv findPlayerById_Some [OF assms(5), THEN conjunct1] ok]
  have "pot (executeAction i a s) = totalBets (executeAction i a s)" by (simp add: moneyInv_def)
  with s e tot show ?thesis by (simp add: settled_def)
qed

theorem chips_conserved_at_settlement_witness:
  "tableOk threeStacks
   \<and> startNewHand createDeck threeStacks = Inr afterBlinds
   \<and> playActions [(''carol'', AllIn 30), (''alice'', AllIn 95)] afterBlinds = Some twoAllIn
   \<and> \<not> isHandComplete twoAllIn
   \<and> findPlayerById twoAllIn ''bob'' = Some 2
   \<and> processPlayerAction ''bob'' (AllIn 50) twoAllIn = Inr afterShowdown
   \<and> isHandComplete afterShowdown
   \<and> map totalBet (players (executeAction 2 (AllIn 50) twoAllIn)) = [30, 100, 60]
   \<and> map chips (players (executeAction 2 (AllIn 50) twoAllIn)) = [0, 0, 0]
   \<and> map chips (players afterShowdown) = [90, 40, 60]
   \<and> totalChips afterShowdown - totalChips (executeAction 2 (AllIn 50) twoAllIn)
       = totalBets (executeAction 2 (AllIn 50) twoAllIn)
   \<and> pot (executeAction 2 (AllIn 50) twoAllIn) = totalBets (executeAction 2 (AllIn 50) twoAllIn)
   \<and> totalChips afterShowdown = totalChips threeStacks"
proof -
  have ok: "tableOk threeStacks" by code_simp
  have start: "startNewHand createDeck threeStacks = Inr afterBlinds" by code_simp
  have play: "playActions [(''carol'', AllIn 30), (''alice'', AllIn 95)] afterBlinds = Some twoAllIn"
    by code_simp
  have open_hand: "\<not> isHandComplete twoAllIn" by code_simp
  have bob: "findPlayerById twoAllIn ''bob'' = Some 2" by code_simp
  have last: "processPlayerAction ''bob'' (AllIn 50) twoAllIn = Inr afterShowdown" by code_simp
  have complete: "isHandComplete afterShowdown" by code_simp
  have bets: "map totalBet (players (executeAction 2 (AllIn 50) twoAllIn)) = [30, 100, 60]"
    by code_simp
  have before: "map chips (players (executeAction 2 (AllIn 50) twoAllIn)) = [0, 0, 0]"
    by code_simp
  have after: "map chips (players afterShowdown) = [90, 40, 60]" by code_simp
  from chips_conserved_at_settlement [OF ok start play open_hand bob last complete]
    ok start play open_hand bob last complete bets before after
  show ?thesis by blast
qed

section \<open>After the showdown\<close>

text \<open>
  Claim C6 does not hold of the engine. \<^verbatim>\<open>processPlayerAction\<close> does not look at
  \<^verbatim>\<open>isHandComplete\<close>, and the pot and the players' \<open>totalBet\<close> stay as they are until
  the next hand is started. On the heads-up table with two stacks of 100 chips and blinds
  5/10 the hand is checked down; the settlement pays the pot of 20 to alice and the stacks
  are 110 and 90. The engine then still offers alice a check and accepts it: the action
  finds the street at the showdown, completes the hand a second time and pays the same pot
  again. The stacks are 130 and 90: over the hand the players have put in 20 and have
  been paid 40, and the table holds 220 chips where it held 200.
\<close>

theorem pot_paid_again_after_showdown:
  "newEngine ''demo-table'' [seat ''alice'' 100, seat ''bob'' 100] 5 10 createDeck = Inr headsUpState
   \<and> totalChips headsUpState + totalBets headsUpState = 200
   \<and> playActions [(''alice'', Check), (''bob'', Call), (''bob'', Check), (''alice'', Check),
                    (''bob'', Check), (''alice'', Check), (''bob'', Check), (''alice'', Check)]
        headsUpState = Some checkedDown
   \<and> isHandComplete checkedDown
   \<and> map totalBet (players checkedDown) = [10, 10]
   \<and> pot checkedDown = 20
   \<and> map chips (players checkedDown) = [110, 90]
   \<and> totalChips checkedDown = 200
   \<and> canPlayerAct checkedDown ''alice''
   \<and> getValidActions checkedDown ''alice'' = [KFold, KCheck, KBet, KAllIn]
   \<and> processPlayerAction ''alice'' Check checkedDown = Inr paidAgain
   \<and> map totalBet (players paidAgain) = [10, 10]
   \<and> map chips (players paidAgain) = [130, 90]
   \<and> totalChips paidAgain = 220"
  by code_simp

end
